(* ===== verification/Prelude.thy ===== *)
theory Prelude
  imports Main "HOL-Library.Word"
begin

text \<open>
  What the components share: the exceptions the C++ code throws and the results it
  returns, the \<open>std::string\<close> operations the sources call (with \<open>size_t\<close> as a 64-bit
  word, so that \<open>npos\<close> wraps as it does in the code), C strings, and the collections
  of facts the component proofs use:
  \<^item> \<open>lib_defs\<close>: definitions of small library functions, to unfold;
  \<^item> \<open>run_iff\<close>: inversion of a computation that returned normally.
\<close>

named_theorems lib_defs \<open>definitions of small standard-library functions\<close>
named_theorems run_iff \<open>inversion of a computation that returned\<close>

section \<open>Errors and results\<close>

text \<open>The values of \<open>errno\<close> the sources test for or that the calls they make document.\<close>

datatype errno =
    EPERM | ESRCH | EINTR | EBADF | ECHILD | EAGAIN | ENOMEM | EINVAL | ENFILE | EMFILE
  | ENOENT | ENOEXEC | Errno int

text \<open>
  The exceptions: \<open>std::system_error\<close> with its \<open>errno\<close>, \<open>std::runtime_error\<close> and
  \<open>std::logic_error\<close> with their messages, \<open>std::out_of_range\<close>, the \<open>Timeout\<close> of
  \<open>CrossProcessSync\<close>, any other \<open>std::exception\<close> with its \<open>what()\<close>, and a thrown
  value that is no \<open>std::exception\<close>. \<open>Std_Terminate\<close> is no exception but the end of the
  process by \<open>std::terminate\<close>, when one would leave a function declared \<open>noexcept\<close>.
\<close>

datatype exn =
    System_Error errno
  | Runtime_Error string
  | Logic_Error string
  | Out_Of_Range
  | Timeout
  | Std_Exception string
  | Foreign_Exception
  | Std_Terminate

text \<open>An out-parameter of type \<open>std::error_code\<close>: \<open>None\<close> is the value that is no error.\<close>

type_synonym error_code = "errno option"

text \<open>A call on a kernel state: a result or an error, and the state after the call.\<close>

type_synonym ('e, 'a, 'k) call = "'k \<Rightarrow> ('e + 'a) \<times> 'k"

section \<open>Strings\<close>

text \<open>
  \<open>std::string\<close> is a list of characters. \<open>c_str\<close> of a string handed to a C function is
  read up to the first NUL.
\<close>

definition NUL :: char where
  "NUL = CHR 0x00"

definition c_str :: "string \<Rightarrow> string" where
  [lib_defs]: "c_str s = takeWhile (\<lambda>c. c \<noteq> NUL) s"

definition newline :: char where "newline = CHR 0x0A"

type_synonym size_t = "64 word"

definition npos :: size_t where
  "npos = - 1"

text \<open>Index of the first and of the last occurrence of a character, \<open>npos\<close> for none.\<close>

definition find_first_of :: "char \<Rightarrow> string \<Rightarrow> size_t" where
  "find_first_of c s =
     (if c \<in> set s then of_nat (length (takeWhile (\<lambda>x. x \<noteq> c) s)) else npos)"

definition find_last_of :: "char \<Rightarrow> string \<Rightarrow> size_t" where
  "find_last_of c s =
     (if c \<in> set s then of_nat (length s - Suc (length (takeWhile (\<lambda>x. x \<noteq> c) (rev s))))
      else npos)"

text \<open>
  \<open>s.substr(pos, n)\<close> throws \<open>std::out_of_range\<close> when \<open>pos\<close> is past the end, and takes
  at most \<open>n\<close> characters; \<open>s.erase(pos)\<close> keeps what is before \<open>pos\<close>.
\<close>

definition substr :: "string \<Rightarrow> size_t \<Rightarrow> size_t \<Rightarrow> exn + string" where
  "substr s pos n =
     (if unat pos \<le> length s then Inr (take (unat n) (drop (unat pos) s)) else Inl Out_Of_Range)"

definition erase_from :: "string \<Rightarrow> size_t \<Rightarrow> exn + string" where
  "erase_from s pos =
     (if unat pos \<le> length s then Inr (take (unat pos) s) else Inl Out_Of_Range)"

text \<open>The strings that exist: their size is below \<open>max_size\<close>, hence below \<open>npos\<close>.\<close>

definition representable :: "string \<Rightarrow> bool" where
  "representable s \<longleftrightarrow> length s < 2 ^ 63"

section \<open>Generic lemmas\<close>

lemma takeWhile_neq_id [simp]: "c \<notin> set a \<Longrightarrow> takeWhile (\<lambda>x. x \<noteq> c) a = a"
  by (auto simp: takeWhile_eq_all_conv)

lemma takeWhile_neq_append_Cons [simp]:
  "c \<notin> set a \<Longrightarrow> takeWhile (\<lambda>x. x \<noteq> c) (a @ c # b) = a"
  by (simp add: takeWhile_tail)

lemma dropWhile_neq_append_Cons [simp]:
  "c \<notin> set a \<Longrightarrow> dropWhile (\<lambda>x. x \<noteq> c) (a @ c # b) = c # b"
  by (induction a) auto

lemma restrict_UNIV [simp]: "m |` UNIV = m"
  by (rule ext) (simp add: restrict_map_def)

lemma representable_unat [simp]:
  "representable s \<Longrightarrow> n \<le> length s \<Longrightarrow> unat (of_nat n :: size_t) = n"
  by (simp add: representable_def unat_of_nat take_bit_nat_eq_self)

lemma unat_npos: "unat npos = 2 ^ 64 - 1"
  by (simp add: npos_def unsigned_minus_1_eq_mask mask_eq_exp_minus_1)

lemma npos_plus_one [simp]: "npos + 1 = 0"
  by (simp add: npos_def)

lemma of_nat_neq_npos [simp]:
  assumes "representable s" and "n \<le> length s"
  shows "(of_nat n :: size_t) \<noteq> npos" and "npos \<noteq> (of_nat n :: size_t)"
proof -
  have "unat (of_nat n :: size_t) \<noteq> unat npos"
    using assms by (simp add: unat_npos) (simp add: representable_def)
  then show "(of_nat n :: size_t) \<noteq> npos" and "npos \<noteq> (of_nat n :: size_t)"
    by auto
qed

lemma length_takeWhile_less_member:
  "c \<in> set s \<Longrightarrow> length (takeWhile (\<lambda>x. x \<noteq> c) s) < length s"
  by (induction s) auto

lemma find_first_of_npos:
  assumes "representable s"
  shows "find_first_of c s = npos \<longleftrightarrow> c \<notin> set s"
proof (cases "c \<in> set s")
  case True
  then have "length (takeWhile (\<lambda>x. x \<noteq> c) s) \<le> length s"
    by (simp add: length_takeWhile_le)
  with assms have "(of_nat (length (takeWhile (\<lambda>x. x \<noteq> c) s)) :: size_t) \<noteq> npos"
    by simp
  with True show ?thesis by (simp add: find_first_of_def)
next
  case False
  then show ?thesis by (simp add: find_first_of_def)
qed

lemma find_last_of_npos:
  "representable s \<Longrightarrow> find_last_of c s = npos \<longleftrightarrow> c \<notin> set s"
  by (simp add: find_last_of_def)

text \<open>A string split at the first and at the last occurrence of a character.\<close>

lemma find_first_of_split [simp]:
  "c \<notin> set a \<Longrightarrow> find_first_of c (a @ c # b) = of_nat (length a)"
  by (simp add: find_first_of_def)

lemma find_last_of_split [simp]:
  "c \<notin> set b \<Longrightarrow> find_last_of c (a @ c # b) = of_nat (length a)"
  by (simp add: find_last_of_def)

lemma find_first_of_none [simp]: "c \<notin> set s \<Longrightarrow> find_first_of c s = npos"
  by (simp add: find_first_of_def)

lemma unat_Suc_of_nat:
  assumes "representable s" and "n < length s"
  shows "unat ((of_nat n :: size_t) + 1) = Suc n"
proof -
  have "(of_nat n :: size_t) + 1 = of_nat (Suc n)" by simp
  with assms show ?thesis
    by (metis Suc_leI representable_unat)
qed

lemma c_str_id [simp]: "NUL \<notin> set s \<Longrightarrow> c_str s = s"
  by (auto simp: c_str_def takeWhile_eq_all_conv)

lemma NUL_c_str [simp]: "NUL \<notin> set (c_str s)"
  by (auto simp: c_str_def dest: set_takeWhileD)

lemma c_str_c_str [simp]: "c_str (c_str s) = c_str s"
  by simp

section \<open>Decimal numerals\<close>

text \<open>\<open>std::ostream << int\<close> in the classic locale, and the value of a run of digits.\<close>

definition digit_char :: "nat \<Rightarrow> char" where
  "digit_char d = char_of (48 + d)"

fun show_nat :: "nat \<Rightarrow> string" where
  "show_nat n = (if n < 10 then [digit_char n] else show_nat (n div 10) @ [digit_char (n mod 10)])"

declare show_nat.simps [simp del]

definition show_int :: "int \<Rightarrow> string" where
  "show_int z = (if z < 0 then CHR ''-'' # show_nat (nat (- z)) else show_nat (nat z))"

definition is_digit :: "char \<Rightarrow> bool" where
  "is_digit c \<longleftrightarrow> 48 \<le> (of_char c :: nat) \<and> (of_char c :: nat) \<le> 57"

definition digit_val :: "char \<Rightarrow> nat" where
  "digit_val c = of_char c - 48"

definition digits_val :: "string \<Rightarrow> nat" where
  "digits_val s = foldl (\<lambda>n c. 10 * n + digit_val c) 0 s"

lemma of_char_digit_char [simp]: "d < 10 \<Longrightarrow> (of_char (digit_char d) :: nat) = 48 + d"
  by (simp add: digit_char_def)

lemma is_digit_digit_char [simp]: "d < 10 \<Longrightarrow> is_digit (digit_char d)"
  by (simp add: is_digit_def)

lemma digit_val_digit_char [simp]: "d < 10 \<Longrightarrow> digit_val (digit_char d) = d"
  by (simp add: digit_val_def)

lemma show_nat_nonempty [simp]: "show_nat n \<noteq> []"
  by (subst show_nat.simps) simp

lemma show_nat_digits: "c \<in> set (show_nat n) \<Longrightarrow> is_digit c"
proof (induction n rule: show_nat.induct)
  case (1 n)
  show ?case
  proof (cases "n < 10")
    case True
    with "1.prems" show ?thesis by (simp add: show_nat.simps [of n])
  next
    case False
    with "1.prems" have "c \<in> set (show_nat (n div 10)) \<or> c = digit_char (n mod 10)"
      by (auto simp: show_nat.simps [of n])
    then show ?thesis using "1.IH" [OF False] by auto
  qed
qed

lemma digits_val_snoc [simp]: "digits_val (s @ [c]) = 10 * digits_val s + digit_val c"
  by (simp add: digits_val_def)

lemma digits_val_show_nat [simp]: "digits_val (show_nat n) = n"
proof (induction n rule: show_nat.induct)
  case (1 n)
  show ?case
  proof (cases "n < 10")
    case True
    then show ?thesis by (simp add: show_nat.simps [of n] digits_val_def)
  next
    case False
    with "1.IH" show ?thesis by (simp add: show_nat.simps [of n])
  qed
qed

end
