(* ===== verification/Env.thy ===== *)
theory Env
  imports Prelude
begin

text \<open>
  The environment functions of \<open>src/core/posix/this_process.cpp\<close>. The state is the
  process's \<open>environ\<close> array (\<open>None\<close> for a null pointer) and whether the allocator refuses
  memory; getenv(3), setenv(3) and unsetenv(3) of the C library work on it. Every function
  holds the one lock of \<open>env_guard()\<close> from its first line to its last, so each is one step
  on the state.
\<close>

section \<open>The C library\<close>

record env_state =
  environ :: "string list option"
  env_nomem :: bool

definition env_lines :: "env_state \<Rightarrow> string list" where
  "env_lines e = (case environ e of None \<Rightarrow> [] | Some ls \<Rightarrow> ls)"

definition is_entry :: "string \<Rightarrow> string \<Rightarrow> bool" where
  "is_entry name line \<longleftrightarrow> take (Suc (length name)) line = name @ ''=''"

definition getenv :: "string \<Rightarrow> env_state \<Rightarrow> string option" where
  "getenv name e =
     (if name = [] then None
      else map_option (drop (Suc (length name))) (find (is_entry name) (env_lines e)))"

definition env_name_ok :: "string \<Rightarrow> bool" where
  "env_name_ok name \<longleftrightarrow> name \<noteq> [] \<and> CHR ''='' \<notin> set name"

definition setenv :: "string \<Rightarrow> string \<Rightarrow> int \<Rightarrow> (errno, unit, env_state) call" where
  "setenv name val overwrite e =
     (if \<not> env_name_ok name then (Inl EINVAL, e)
      else if find (is_entry name) (env_lines e) \<noteq> None \<and> overwrite = 0 then (Inr (), e)
      else if env_nomem e then (Inl ENOMEM, e)
      else if find (is_entry name) (env_lines e) = None
      then (Inr (), e\<lparr>environ := Some (env_lines e @ [name @ ''='' @ val])\<rparr>)
      else (Inr (), e\<lparr>environ := Some (map (\<lambda>l. if is_entry name l then name @ ''='' @ val else l)
             (env_lines e))\<rparr>))"

definition unsetenv :: "string \<Rightarrow> (errno, unit, env_state) call" where
  "unsetenv name e =
     (if \<not> env_name_ok name then (Inl EINVAL, e)
      else (Inr (), e\<lparr>environ := map_option (filter (\<lambda>l. \<not> is_entry name l)) (environ e)\<rparr>))"

section \<open>this_process::env\<close>

text \<open>The loop of \<open>for_each\<close>: each line is split at its first \<open>=\<close>.\<close>

fun for_each_loop :: "(string \<Rightarrow> string \<Rightarrow> 's \<Rightarrow> 's) \<Rightarrow> string list \<Rightarrow> 's \<Rightarrow> exn + 's" where
  "for_each_loop functor [] s = Inr s"
| "for_each_loop functor (line # it) s =
     (case substr line 0 (find_first_of CHR ''='' line) of
        Inl e \<Rightarrow> Inl e
      | Inr key \<Rightarrow> (case substr line (find_first_of CHR ''='' line + 1) npos of
            Inl e \<Rightarrow> Inl e
          | Inr val \<Rightarrow> for_each_loop functor it (functor key val s)))"

text \<open>The function is \<open>noexcept\<close>: an exception out of \<open>substr\<close> would end the process.\<close>

definition for_each :: "(string \<Rightarrow> string \<Rightarrow> 's \<Rightarrow> 's) \<Rightarrow> env_state \<Rightarrow> 's \<Rightarrow> exn + 's" where
  "for_each functor e s =
     (case environ e of
        None \<Rightarrow> Inr s
      | Some it \<Rightarrow> (case for_each_loop functor it s of Inl _ \<Rightarrow> Inl Std_Terminate | Inr s' \<Rightarrow> Inr s'))"

definition get_or_throw :: "string \<Rightarrow> env_state \<Rightarrow> exn + string" where
  "get_or_throw key e =
     (case getenv (c_str key) e of
        None \<Rightarrow> Inl (Runtime_Error
          (''Variable with name '' @ key @ '' is not defined in the environment''))
      | Some r \<Rightarrow> Inr r)"

definition env_get :: "string \<Rightarrow> string \<Rightarrow> env_state \<Rightarrow> string" where
  "env_get key default_value e =
     (case getenv (c_str key) e of None \<Rightarrow> default_value | Some r \<Rightarrow> r)"

definition unset_or_throw :: "string \<Rightarrow> (exn, unit, env_state) call" where
  "unset_or_throw key e =
     (case unsetenv (c_str key) e of
        (Inl errno, e') \<Rightarrow> (Inl (System_Error errno), e')
      | (Inr _, e') \<Rightarrow> (Inr (), e'))"

definition env_unset :: "string \<Rightarrow> error_code \<Rightarrow> env_state \<Rightarrow> bool \<times> error_code \<times> env_state" where
  "env_unset key se e =
     (case unsetenv (c_str key) e of
        (Inl errno, e') \<Rightarrow> (False, Some errno, e')
      | (Inr _, e') \<Rightarrow> (True, se, e'))"

definition set_or_throw :: "string \<Rightarrow> string \<Rightarrow> (exn, unit, env_state) call" where
  "set_or_throw key val e =
     (case setenv (c_str key) (c_str val) 0 e of
        (Inl errno, e') \<Rightarrow> (Inl (System_Error errno), e')
      | (Inr _, e') \<Rightarrow> (Inr (), e'))"

definition env_set :: "string \<Rightarrow> string \<Rightarrow> error_code \<Rightarrow> env_state \<Rightarrow> bool \<times> error_code \<times> env_state" where
  "env_set key val se e =
     (case setenv (c_str key) (c_str val) 0 e of
        (Inl errno, e') \<Rightarrow> (False, Some errno, e')
      | (Inr _, e') \<Rightarrow> (True, se, e'))"

section \<open>Entries and keys\<close>

definition env_key_ok :: "string \<Rightarrow> bool" where
  "env_key_ok key \<longleftrightarrow> env_name_ok key \<and> NUL \<notin> set key"

lemma env_key_ok_c_str [simp]: "env_key_ok key \<Longrightarrow> c_str key = key"
  by (simp add: env_key_ok_def)

lemma env_key_ok_name: "env_key_ok key \<Longrightarrow> env_name_ok key"
  by (simp add: env_key_ok_def)

lemma is_entry_iff: "is_entry name line \<longleftrightarrow> (\<exists>v. line = name @ ''='' @ v)"
proof
  assume "is_entry name line"
  then have "line = (name @ ''='') @ drop (Suc (length name)) line"
    unfolding is_entry_def by (metis append_take_drop_id)
  then show "\<exists>v. line = name @ ''='' @ v" by auto
qed (auto simp: is_entry_def)

lemma is_entry_own [simp]:
  assumes "CHR ''='' \<notin> set x" and "CHR ''='' \<notin> set y"
  shows "is_entry y (x @ CHR ''='' # v) \<longleftrightarrow> x = y"
proof
  assume "is_entry y (x @ CHR ''='' # v)"
  then obtain w where "x @ CHR ''='' # v = y @ CHR ''='' # w" by (auto simp: is_entry_iff)
  then have "takeWhile (\<lambda>c. c \<noteq> CHR ''='') (x @ CHR ''='' # v) =
      takeWhile (\<lambda>c. c \<noteq> CHR ''='') (y @ CHR ''='' # w)" by simp
  with assms show "x = y" by simp
qed (auto simp: is_entry_iff)



section \<open>The environment as a map\<close>


definition env_lookup :: "env_state \<Rightarrow> string \<Rightarrow> string option" where
  "env_lookup e key = (case get_or_throw key e of Inl _ \<Rightarrow> None | Inr v \<Rightarrow> Some v)"

lemma env_lookup_getenv: "env_lookup e key = getenv (c_str key) e"
  by (simp add: env_lookup_def get_or_throw_def split: option.split)



section \<open>Properties\<close>










text \<open>
  Setting a variable that exists reports success and changes nothing, in both variants:
  the new contents are ignored.
\<close>

theorem env_set_keeps_existing:
  assumes "env_key_ok key" and "get_or_throw key e = Inr w"
  shows "set_or_throw key v e = (Inr (), e) \<and> env_set key v se e = (True, se, e) \<and>
    get_or_throw key (snd (set_or_throw key v e)) = Inr w"
  using assms
  by (auto simp: set_or_throw_def env_set_def setenv_def get_or_throw_def getenv_def
      env_key_ok_def split: option.splits if_splits)

theorem env_set_keeps_existing_witness:
  "get_or_throw ''A'' (snd (set_or_throw ''A'' ''new'' \<lparr>environ = Some [''A=old''], env_nomem = False\<rparr>))
     = Inr ''old''"
proof -
  let ?e = "\<lparr>environ = Some [''A=old''], env_nomem = False\<rparr>"
  have "get_or_throw ''A'' ?e = Inr ''old''"
    by (simp add: get_or_throw_def getenv_def env_lines_def is_entry_def c_str_def NUL_def)
  then show ?thesis
    using env_set_keeps_existing [of "''A''" ?e "''old''" "''new''"]
    by (simp add: env_key_ok_def env_name_ok_def NUL_def)
qed

text \<open>
  The throwing and non-throwing variants of \<open>set\<close> and \<open>unset\<close> agree on the environment
  they leave and on the error; a name that is empty or contains \<open>=\<close> is refused with
  \<open>EINVAL\<close> and leaves the environment as it is.
\<close>

theorem env_variants_agree:
  "snd (set_or_throw key v e) = snd (snd (env_set key v se e)) \<and>
   snd (unset_or_throw key e) = snd (snd (env_unset key se e)) \<and>
   (\<forall>err. fst (set_or_throw key v e) = Inl (System_Error err) \<longleftrightarrow>
      \<not> fst (env_set key v None e) \<and> fst (snd (env_set key v None e)) = Some err) \<and>
   (\<forall>err. fst (unset_or_throw key e) = Inl (System_Error err) \<longleftrightarrow>
      \<not> fst (env_unset key None e) \<and> fst (snd (env_unset key None e)) = Some err) \<and>
   (if env_name_ok (c_str key) then fst (unset_or_throw key e) = Inr ()
    else set_or_throw key v e = (Inl (System_Error EINVAL), e) \<and>
      unset_or_throw key e = (Inl (System_Error EINVAL), e))"
  by (simp add: set_or_throw_def env_set_def unset_or_throw_def env_unset_def unsetenv_def
      setenv_def)

text \<open>The pairs \<open>for_each\<close> hands to its functor, in order.\<close>

definition env_pairs :: "env_state \<Rightarrow> exn + (string \<times> string) list" where
  "env_pairs e = for_each (\<lambda>key v acc. acc @ [(key, v)]) e []"

definition split_line :: "string \<Rightarrow> string \<times> string" where
  "split_line line =
     (if CHR ''='' \<in> set line
      then (takeWhile (\<lambda>c. c \<noteq> CHR ''='') line, tl (dropWhile (\<lambda>c. c \<noteq> CHR ''='') line))
      else (line, line))"

lemma for_each_split:
  assumes "representable line"
  shows "substr line 0 (find_first_of CHR ''='' line) = Inr (fst (split_line line)) \<and>
    substr line (find_first_of CHR ''='' line + 1) npos = Inr (snd (split_line line))"
proof (cases "CHR ''='' \<in> set line")
  case True
  then obtain a b where line: "line = a @ CHR ''='' # b" and a: "CHR ''='' \<notin> set a"
    by (meson split_list_first)
  have len: "length b \<le> unat npos"
    using assms by (simp add: unat_npos) (simp add: line representable_def)
  have "unat (of_nat (length a) :: size_t) = length a"
    using assms by (simp add: line)
  moreover have "unat ((of_nat (length a) :: size_t) + 1) = Suc (length a)"
    using unat_Suc_of_nat [OF assms, of "length a"] by (simp add: line)
  ultimately show ?thesis using a len by (simp add: line substr_def split_line_def)
next
  case False
  have "length line \<le> unat npos"
    using assms by (simp add: unat_npos) (simp add: representable_def)
  with False show ?thesis by (simp add: substr_def split_line_def)
qed

lemma for_each_loop_fold:
  "\<forall>line \<in> set it. representable line \<Longrightarrow>
     for_each_loop f it s = Inr (fold (\<lambda>line. f (fst (split_line line)) (snd (split_line line))) it s)"
  by (induction it arbitrary: s) (simp_all add: for_each_split)

lemma fold_snoc: "fold (\<lambda>x acc. acc @ [g x]) xs acc = acc @ map g xs"
  by (induction xs arbitrary: acc) simp_all

lemma map_of_split_lines:
  assumes "env_name_ok key" and "\<forall>line \<in> set it. CHR ''='' \<in> set line"
  shows "map_of (map split_line it) key =
    map_option (drop (Suc (length key))) (find (is_entry key) it)"
  using assms(2)
proof (induction it)
  case (Cons line it)
  then obtain a b where line: "line = a @ CHR ''='' # b" and a: "CHR ''='' \<notin> set a"
    by (meson list.set_intros(1) split_list_first)
  moreover have "CHR ''='' \<notin> set key" using assms(1) by (simp add: env_name_ok_def)
  ultimately show ?case using Cons by (auto simp: split_line_def)
qed simp

text \<open>
  C22: iterating the environment agrees with looking variables up. When every line has a
  \<open>=\<close>, \<open>for_each\<close> visits every line once, in order, never throws, and the first pair it
  reports for a proper key carries exactly the value \<open>get_or_throw\<close> returns for it; a value
  may itself contain \<open>=\<close>.
\<close>

theorem for_each_agrees_with_get:
  assumes "\<forall>line \<in> set (env_lines e). representable line \<and> CHR ''='' \<in> set line"
  shows "\<exists>kvs. env_pairs e = Inr kvs \<and> length kvs = length (env_lines e) \<and>
    map (\<lambda>(key, v). key @ ''='' @ v) kvs = env_lines e \<and>
    (\<forall>key. env_key_ok key \<longrightarrow> map_of kvs key = env_lookup e key)"
proof (intro exI conjI)
  let ?kvs = "map split_line (env_lines e)"
  show "env_pairs e = Inr ?kvs"
    using assms
    by (simp add: env_pairs_def for_each_def env_lines_def for_each_loop_fold fold_snoc
        split: option.splits)
  show "length ?kvs = length (env_lines e)" by simp
  have "(\<lambda>(key, v). key @ ''='' @ v) (split_line line) = line" if "CHR ''='' \<in> set line" for line
    using split_list_first [OF that] by (auto simp: split_line_def)
  with assms show "map (\<lambda>(key, v). key @ ''='' @ v) ?kvs = env_lines e"
    by (simp add: comp_def map_idI)
  show "\<forall>key. env_key_ok key \<longrightarrow> map_of ?kvs key = env_lookup e key"
    using assms
    by (auto simp: map_of_split_lines env_lookup_getenv getenv_def env_key_ok_def env_name_ok_def)
qed

theorem for_each_agrees_with_get_witness:
  "\<exists>kvs. env_pairs \<lparr>environ = Some [''A=1'', ''B=x=y''], env_nomem = False\<rparr> = Inr kvs \<and>
     map_of kvs ''B'' = Some ''x=y''"
proof -
  let ?e = "\<lparr>environ = Some [''A=1'', ''B=x=y''], env_nomem = False\<rparr>"
  have ok: "env_key_ok ''B''" by (simp add: env_key_ok_def env_name_ok_def NUL_def)
  have "env_lookup ?e ''B'' = Some ''x=y''"
    by (simp add: env_lookup_getenv ok getenv_def env_lines_def is_entry_def)
  moreover have "\<forall>line \<in> set (env_lines ?e). representable line \<and> CHR ''='' \<in> set line"
    by (simp add: env_lines_def representable_def)
  ultimately show ?thesis using for_each_agrees_with_get [of ?e] ok by auto
qed

end
