(* ===== verification/Transition_Systems.thy ===== *)
theory Transition_Systems
  imports Main
begin

text \<open>
  The two contracts the concurrent parts of the development are proved by: a step relation
  with an invariant, and one in which every step also decreases a measure, so that every run
  ends. The systems of \<open>Env_Lock\<close>, \<open>Observer_Race\<close>, \<open>Observer_Liveness\<close>, \<open>Observer_Lifetime\<close>,
  \<open>Observer_Reentry\<close>, \<open>Trap_System\<close> and \<open>Trap_Observer\<close> are instances.
\<close>

locale invariant_system =
  fixes start :: "'s \<Rightarrow> bool" and step :: "'s \<Rightarrow> 's \<Rightarrow> bool" and inv :: "'s \<Rightarrow> bool"
  assumes start_inv: "start s \<Longrightarrow> inv s" and step_inv: "step s s' \<Longrightarrow> inv s \<Longrightarrow> inv s'"
begin

lemma reach_inv: "step\<^sup>*\<^sup>* s t \<Longrightarrow> start s \<Longrightarrow> inv t"
  by (induction rule: rtranclp_induct) (auto intro: start_inv step_inv)

lemma run_inv:
  assumes "start (r 0)" and "\<And>n. step (r n) (r (Suc n))"
  shows "inv (r n)"
  using assms by (induction n) (auto intro: start_inv step_inv)

end

locale terminating_system = invariant_system start step inv
  for start :: "'s \<Rightarrow> bool" and step :: "'s \<Rightarrow> 's \<Rightarrow> bool" and inv :: "'s \<Rightarrow> bool" +
  fixes weight :: "'s \<Rightarrow> nat \<times> nat"
  assumes step_decreases: "step s s' \<Longrightarrow> inv s \<Longrightarrow> (weight s', weight s) \<in> less_than <*lex*> less_than"
begin

lemma no_infinite_run:
  assumes "start (r 0)" and "\<And>n. step (r n) (r (Suc n))"
  shows False
proof -
  have "\<forall>n. (weight (r (Suc n)), weight (r n)) \<in> less_than <*lex*> less_than"
    using step_decreases run_inv assms by blast
  moreover have "wf (less_than <*lex*> less_than)" by auto
  ultimately show False
    unfolding wf_iff_no_infinite_down_chain by (elim notE) (rule exI [of _ "\<lambda>n. weight (r n)"])
qed

lemma reach_end:
  assumes "start s"
  shows "\<exists>t. step\<^sup>*\<^sup>* s t \<and> \<not> (\<exists>t'. step t t')"
proof -
  have "\<exists>t'. step\<^sup>*\<^sup>* t t' \<and> \<not> (\<exists>t''. step t' t'')" if "inv t" for t
    using wf_inv_image [OF wf_lex_prod [OF wf_less_than wf_less_than], of weight] that
  proof (induction t rule: wf_induct_rule)
    case (less t)
    show ?case
    proof (cases "\<exists>t'. step t t'")
      case True
      then obtain t' where "step t t'" by blast
      with less step_decreases step_inv have "\<exists>u. step\<^sup>*\<^sup>* t' u \<and> \<not> (\<exists>v. step u v)"
        by (simp add: in_inv_image)
      with \<open>step t t'\<close> show ?thesis by (meson converse_rtranclp_into_rtranclp)
    qed blast
  qed
  with start_inv assms show ?thesis by blast
qed

end

end
