(* ===== verification/Env_Lock.thy ===== *)
theory Env_Lock
  imports Env Transition_Systems
begin

text \<open>
  Concurrent use of the environment functions (\<open>this_process.cpp\<close>). Every function locks
  \<open>env_guard()\<close>, a \<open>std::mutex\<close>, for its whole body. Here the bodies are taken apart: the
  lookup by \<open>getenv\<close>, which returns a pointer into the environment, and the copy of what it
  points to are two steps, each turn of the loop of \<open>for_each\<close> is a step, and threads
  interleave freely wherever the mutex lets them. That a call is one step on the environment,
  as theory \<open>Env\<close> has it, is proved. A functor that calls an environment function itself
  waits for the mutex its own thread holds.
\<close>

section \<open>Calls, answers and places in a body\<close>

text \<open>\<open>For_Each f\<close>: \<open>f\<close> lists the pairs for which the functor calls an environment function.\<close>

datatype env_call =
    Get_Or_Throw string
  | Get string string
  | Unset_Or_Throw string
  | Unset string
  | Set_Or_Throw string string
  | Set string string
  | For_Each "(string \<times> string) list"

datatype env_answer =
    Ans_String "exn + string"
  | Ans_Void "exn + unit"
  | Ans_Bool bool error_code
  | Ans_Pairs "exn + (string \<times> string) list"

text \<open>
  Outside; the mutex just locked; after \<open>getenv\<close>, with the place of the line found; in the
  loop before line \<open>j\<close>, having seen some pairs; at the end, with the answer; waiting for the
  mutex in the functor.
\<close>

datatype env_pc =
    Out
  | Entered env_call
  | Pointer env_call string "nat option"
  | At_Line "(string \<times> string) list" nat "(string \<times> string) list"
  | Returned env_call env_answer
  | Blocked env_call

section \<open>The bodies\<close>

fun position :: "('a \<Rightarrow> bool) \<Rightarrow> 'a list \<Rightarrow> nat option" where
  "position P [] = None"
| "position P (x # xs) = (if P x then Some 0 else map_option Suc (position P xs))"

definition getenv_at :: "string \<Rightarrow> env_state \<Rightarrow> nat option" where
  "getenv_at name e = (if name = [] then None else position (is_entry name) (env_lines e))"

text \<open>What is at that place when it is read.\<close>

definition read_at :: "string \<Rightarrow> nat \<Rightarrow> env_state \<Rightarrow> string" where
  "read_at name p e = (if p < length (env_lines e) then drop (Suc (length name)) (env_lines e ! p) else [])"

definition line_pair :: "string \<Rightarrow> exn + string \<times> string" where
  "line_pair line =
     (case substr line 0 (find_first_of CHR ''='' line) of
        Inl e \<Rightarrow> Inl e
      | Inr key \<Rightarrow> (case substr line (find_first_of CHR ''='' line + 1) npos of
            Inl e \<Rightarrow> Inl e
          | Inr val \<Rightarrow> Inr (key, val)))"

fun enter_body :: "env_call \<Rightarrow> env_state \<Rightarrow> env_pc \<times> env_state" where
  "enter_body (Get_Or_Throw key) e = (Pointer (Get_Or_Throw key) (c_str key) (getenv_at (c_str key) e), e)"
| "enter_body (Get key d) e = (Pointer (Get key d) (c_str key) (getenv_at (c_str key) e), e)"
| "enter_body (Unset_Or_Throw key) e =
     (let (r, e') = unset_or_throw key e in (Returned (Unset_Or_Throw key) (Ans_Void r), e'))"
| "enter_body (Unset key) e =
     (let (b, se, e') = env_unset key None e in (Returned (Unset key) (Ans_Bool b se), e'))"
| "enter_body (Set_Or_Throw key v) e =
     (let (r, e') = set_or_throw key v e in (Returned (Set_Or_Throw key v) (Ans_Void r), e'))"
| "enter_body (Set key v) e =
     (let (b, se, e') = env_set key v None e in (Returned (Set key v) (Ans_Bool b se), e'))"
| "enter_body (For_Each f) e = (At_Line f 0 [], e)"

text \<open>The rest of the two lookups once \<open>getenv\<close> has returned.\<close>

definition copied :: "env_call \<Rightarrow> string option \<Rightarrow> env_answer" where
  "copied c r = Ans_String (case r of
       Some v \<Rightarrow> Inr v
     | None \<Rightarrow> (case c of
           Get key d \<Rightarrow> Inr d
         | Get_Or_Throw key \<Rightarrow> Inl (Runtime_Error
             (''Variable with name '' @ key @ '' is not defined in the environment''))
         | _ \<Rightarrow> Inr []))"

fun body_step :: "env_state \<Rightarrow> env_pc \<Rightarrow> (env_pc \<times> env_state) option" where
  "body_step e (Entered c) = Some (enter_body c e)"
| "body_step e (Pointer c name p) = Some (Returned c (copied c (map_option (\<lambda>p. read_at name p e) p)), e)"
| "body_step e (At_Line f j seen) =
     (if j < length (env_lines e) then
        (case line_pair (env_lines e ! j) of
           Inl _ \<Rightarrow> Some (Returned (For_Each f) (Ans_Pairs (Inl Std_Terminate)), e)
         | Inr (key, v) \<Rightarrow>
             if (key, v) \<in> set f then Some (Blocked (For_Each f), e)
             else Some (At_Line f (Suc j) (seen @ [(key, v)]), e))
      else Some (Returned (For_Each f) (Ans_Pairs (Inr seen)), e))"
| "body_step e _ = None"

section \<open>Threads and the mutex\<close>

record env_sys =
  es_env :: env_state
  env_guard :: "nat option"
  es_pc :: "nat \<Rightarrow> env_pc"
  es_todo :: "nat \<Rightarrow> env_call list"
  es_log :: "(nat \<times> env_call \<times> env_answer) list"

inductive env_step :: "env_sys \<Rightarrow> env_sys \<Rightarrow> bool" where
  enter: "es_pc s i = Out \<Longrightarrow> es_todo s i = c # cs \<Longrightarrow> env_guard s = None \<Longrightarrow>
    env_step s (s\<lparr>env_guard := Some i, es_pc := (es_pc s)(i := Entered c), es_todo := (es_todo s)(i := cs)\<rparr>)"
| body: "body_step (es_env s) (es_pc s i) = Some (p, e) \<Longrightarrow>
    env_step s (s\<lparr>es_env := e, es_pc := (es_pc s)(i := p)\<rparr>)"
| leave: "es_pc s i = Returned c a \<Longrightarrow>
    env_step s (s\<lparr>env_guard := None, es_pc := (es_pc s)(i := Out), es_log := es_log s @ [(i, c, a)]\<rparr>)"

definition env_start :: "env_state \<Rightarrow> (nat \<Rightarrow> env_call list) \<Rightarrow> env_sys" where
  "env_start e prog = \<lparr>es_env = e, env_guard = None, es_pc = (\<lambda>_. Out), es_todo = prog, es_log = []\<rparr>"

text \<open>A given schedule: the list says which thread makes the next step.\<close>

definition thread_step :: "nat \<Rightarrow> env_sys \<Rightarrow> env_sys option" where
  "thread_step i s =
     (case es_pc s i of
        Out \<Rightarrow> (case es_todo s i of
            c # cs \<Rightarrow> if env_guard s = None
              then Some (s\<lparr>env_guard := Some i, es_pc := (es_pc s)(i := Entered c), es_todo := (es_todo s)(i := cs)\<rparr>)
              else None
          | [] \<Rightarrow> None)
      | Returned c a \<Rightarrow>
          Some (s\<lparr>env_guard := None, es_pc := (es_pc s)(i := Out), es_log := es_log s @ [(i, c, a)]\<rparr>)
      | p \<Rightarrow> map_option (\<lambda>(p', e). s\<lparr>es_env := e, es_pc := (es_pc s)(i := p')\<rparr>) (body_step (es_env s) p))"

fun schedule :: "nat list \<Rightarrow> env_sys \<Rightarrow> env_sys option" where
  "schedule [] s = Some s"
| "schedule (i # is) s = (case thread_step i s of None \<Rightarrow> None | Some s' \<Rightarrow> schedule is s')"

lemma thread_step_env_step:
  assumes "thread_step i s = Some s'"
  shows "env_step s s'"
proof (cases "es_pc s i")
  case Out
  with assms show ?thesis
    by (auto simp: thread_step_def intro: enter split: list.splits if_splits)
next
  case (Returned c a)
  with assms show ?thesis by (auto simp: thread_step_def intro: leave)
qed (use assms in \<open>auto simp: thread_step_def simp del: body_step.simps intro!: body\<close>)

lemma schedule_reach: "schedule is s = Some s' \<Longrightarrow> env_step\<^sup>*\<^sup>* s s'"
  by (induction "is" arbitrary: s)
    (auto split: option.splits dest: thread_step_env_step intro: converse_rtranclp_into_rtranclp)

section \<open>The specification: one call after another\<close>

fun env_atomic :: "env_call \<Rightarrow> env_state \<Rightarrow> env_answer \<times> env_state" where
  "env_atomic (Get_Or_Throw key) e = (Ans_String (get_or_throw key e), e)"
| "env_atomic (Get key d) e = (Ans_String (Inr (env_get key d e)), e)"
| "env_atomic (Unset_Or_Throw key) e = (let (r, e') = unset_or_throw key e in (Ans_Void r, e'))"
| "env_atomic (Unset key) e = (let (b, se, e') = env_unset key None e in (Ans_Bool b se, e'))"
| "env_atomic (Set_Or_Throw key v) e = (let (r, e') = set_or_throw key v e in (Ans_Void r, e'))"
| "env_atomic (Set key v) e = (let (b, se, e') = env_set key v None e in (Ans_Bool b se, e'))"
| "env_atomic (For_Each f) e = (Ans_Pairs (env_pairs e), e)"

fun replay :: "(nat \<times> env_call \<times> env_answer) list \<Rightarrow> env_state \<Rightarrow> env_state option" where
  "replay [] e = Some e"
| "replay ((i, c, a) # log) e = (case env_atomic c e of (a', e') \<Rightarrow> if a = a' then replay log e' else None)"

lemma replay_snoc:
  "replay (log @ [(i, c, a)]) e =
     (case replay log e of None \<Rightarrow> None
      | Some e1 \<Rightarrow> (case env_atomic c e1 of (a', e') \<Rightarrow> if a = a' then Some e' else None))"
  by (induction log arbitrary: e) (auto split: prod.splits)

section \<open>A body is one atomic call\<close>

lemma position_find: "find P xs = map_option (\<lambda>p. xs ! p) (position P xs)"
  by (induction xs) (auto simp: option.map_comp comp_def)

lemma position_less: "position P xs = Some p \<Longrightarrow> p < length xs"
  by (induction xs arbitrary: p) (auto split: if_splits)

lemma getenv_read_at:
  "map_option (\<lambda>p. read_at name p e) (getenv_at name e) = getenv name e"
  by (auto simp: getenv_at_def getenv_def position_find read_at_def option.map_comp comp_def
      dest: position_less intro!: option.map_cong0 split: option.splits)

lemma line_pair_loop:
  "for_each_loop f (line # it) s =
     (case line_pair line of Inl e \<Rightarrow> Inl e | Inr (key, v) \<Rightarrow> for_each_loop f it (f key v s))"
  by (simp add: line_pair_def split: sum.split)

lemma line_pair_split: "representable line \<Longrightarrow> line_pair line = Inr (split_line line)"
  by (simp add: line_pair_def for_each_split)

definition pairs_from :: "string list \<Rightarrow> (string \<times> string) list \<Rightarrow> exn + (string \<times> string) list" where
  "pairs_from it seen =
     (case for_each_loop (\<lambda>key v acc. acc @ [(key, v)]) it seen of Inl _ \<Rightarrow> Inl Std_Terminate | Inr kvs \<Rightarrow> Inr kvs)"

lemma pairs_from_simps:
  "pairs_from [] seen = Inr seen"
  "pairs_from (line # it) seen =
     (case line_pair line of Inl _ \<Rightarrow> Inl Std_Terminate | Inr (key, v) \<Rightarrow> pairs_from it (seen @ [(key, v)]))"
proof -
  show "pairs_from [] seen = Inr seen" by (simp add: pairs_from_def)
  show "pairs_from (line # it) seen =
      (case line_pair line of Inl _ \<Rightarrow> Inl Std_Terminate | Inr (key, v) \<Rightarrow> pairs_from it (seen @ [(key, v)]))"
    unfolding pairs_from_def line_pair_loop by (simp split: sum.split prod.split)
qed

lemma env_pairs_from: "env_pairs e = pairs_from (env_lines e) []"
  by (simp add: env_pairs_def for_each_def env_lines_def pairs_from_def split: option.split)

text \<open>
  What is known of the thread that holds the mutex, where \<open>e0\<close> is the environment when it
  was locked and \<open>e\<close> the present one.
\<close>

fun holder_ok :: "env_state \<Rightarrow> env_state \<Rightarrow> env_pc \<Rightarrow> bool" where
  "holder_ok e0 e Out \<longleftrightarrow> False"
| "holder_ok e0 e (Entered c) \<longleftrightarrow> e = e0"
| "holder_ok e0 e (Pointer c name p) \<longleftrightarrow> e = e0 \<and> env_atomic c e0 = (copied c (getenv name e0), e0) \<and> p = getenv_at name e0"
| "holder_ok e0 e (At_Line f j seen) \<longleftrightarrow> e = e0 \<and> pairs_from (drop j (env_lines e0)) seen = env_pairs e0"
| "holder_ok e0 e (Returned c a) \<longleftrightarrow> env_atomic c e0 = (a, e)"
| "holder_ok e0 e (Blocked c) \<longleftrightarrow> e = e0 \<and> (\<exists>f. c = For_Each f \<and> f \<noteq> [])"

lemma copied_get:
  "env_atomic (Get_Or_Throw key) e = (copied (Get_Or_Throw key) (getenv (c_str key) e), e)"
  "env_atomic (Get key d) e = (copied (Get key d) (getenv (c_str key) e), e)"
  by (simp_all add: copied_def get_or_throw_def env_get_def split: option.split)

lemma enter_body_ok: "holder_ok e e' p" if "enter_body c e = (p, e')"
  using that
  by (cases c) (auto simp: copied_get env_pairs_from simp del: env_atomic.simps(1,2) split: prod.splits)

lemma body_step_ok:
  assumes "holder_ok e0 e p" and "body_step e p = Some (p', e')"
  shows "holder_ok e0 e' p'"
proof (cases p)
  case (At_Line f j seen)
  show ?thesis
  proof (cases "j < length (env_lines e0)")
    case True
    then have "drop j (env_lines e0) = env_lines e0 ! j # drop (Suc j) (env_lines e0)"
      by (simp add: Cons_nth_drop_Suc)
    with assms At_Line True show ?thesis
      by (auto simp: pairs_from_simps split: sum.splits if_splits)
  qed (use assms At_Line in \<open>auto simp: pairs_from_simps\<close>)
qed (use assms in \<open>auto simp: getenv_read_at enter_body_ok\<close>)

section \<open>The invariant of the system\<close>

fun pc_calls :: "env_pc \<Rightarrow> env_call list" where
  "pc_calls Out = []"
| "pc_calls (Entered c) = [c]"
| "pc_calls (Pointer c name p) = [c]"
| "pc_calls (At_Line f j seen) = [For_Each f]"
| "pc_calls (Returned c a) = [c]"
| "pc_calls (Blocked c) = [c]"

definition calls_of :: "nat \<Rightarrow> (nat \<times> env_call \<times> env_answer) list \<Rightarrow> env_call list" where
  "calls_of i log = map (\<lambda>(_, c, _). c) (filter (\<lambda>(j, _, _). j = i) log)"

definition guarded :: "env_state \<Rightarrow> env_sys \<Rightarrow> bool" where
  "guarded e0 s \<longleftrightarrow>
     (case env_guard s of
        None \<Rightarrow> es_env s = e0 \<and> (\<forall>i. es_pc s i = Out)
      | Some i \<Rightarrow> holder_ok e0 (es_env s) (es_pc s i) \<and> (\<forall>j. j \<noteq> i \<longrightarrow> es_pc s j = Out))"

definition env_inv :: "env_state \<Rightarrow> (nat \<Rightarrow> env_call list) \<Rightarrow> env_sys \<Rightarrow> bool" where
  "env_inv e prog s \<longleftrightarrow>
     (\<exists>e0. replay (es_log s) e = Some e0 \<and> guarded e0 s) \<and>
     (\<forall>i. calls_of i (es_log s) @ pc_calls (es_pc s i) @ es_todo s i = prog i)"

lemma guarded_holder:
  assumes "guarded e0 s" and "es_pc s i \<noteq> Out"
  shows "env_guard s = Some i" and "holder_ok e0 (es_env s) (es_pc s i)"
    and "\<And>j. j \<noteq> i \<Longrightarrow> es_pc s j = Out"
proof -
  from assms obtain k where "env_guard s = Some k" "holder_ok e0 (es_env s) (es_pc s k)"
    and "\<forall>j. j \<noteq> k \<longrightarrow> es_pc s j = Out" by (auto simp: guarded_def split: option.splits)
  moreover from this assms(2) have "k = i" by metis
  ultimately show "env_guard s = Some i" and "holder_ok e0 (es_env s) (es_pc s i)"
    and "\<And>j. j \<noteq> i \<Longrightarrow> es_pc s j = Out" by simp_all
qed

lemma body_step_calls:
  "body_step e p = Some (p', e') \<Longrightarrow> pc_calls p' = pc_calls p \<and> p \<noteq> Out"
proof (cases p)
  case (Entered c)
  then show "body_step e p = Some (p', e') \<Longrightarrow> pc_calls p' = pc_calls p \<and> p \<noteq> Out"
    by (cases c) (auto split: prod.splits)
qed (auto split: if_splits sum.splits)

lemma env_step_inv:
  assumes "env_step s s'" and "env_inv e prog s"
  shows "env_inv e prog s'"
  using assms
proof (induction rule: env_step.induct)
  case (enter s i c cs)
  then have "calls_of i (es_log s) @ c # cs = prog i"
    by (auto simp: env_inv_def guarded_def dest: spec [of _ i])
  with enter show ?case by (auto simp: env_inv_def guarded_def)
next
  case (body s i p e')
  from body.prems obtain e0 where r: "replay (es_log s) e = Some e0" and g: "guarded e0 s"
    by (auto simp: env_inv_def)
  note b = body_step_calls [OF body.hyps] and h = guarded_holder [OF g, of i]
  have "holder_ok e0 e' p" using body_step_ok [OF _ body.hyps] h b by blast
  with h b have "guarded e0 (s\<lparr>es_env := e', es_pc := (es_pc s)(i := p)\<rparr>)"
    by (simp add: guarded_def)
  with r body.prems b show ?case by (auto simp: env_inv_def)
next
  case (leave s i c a)
  from leave.prems obtain e0 where r: "replay (es_log s) e = Some e0" and g: "guarded e0 s"
    by (auto simp: env_inv_def)
  note h = guarded_holder [OF g, of i]
  let ?s = "s\<lparr>env_guard := None, es_pc := (es_pc s)(i := Out), es_log := es_log s @ [(i, c, a)]\<rparr>"
  have "guarded (es_env s) ?s" using h leave.hyps by (simp add: guarded_def)
  moreover have "replay (es_log ?s) e = Some (es_env s)"
    using r h leave.hyps by (simp add: replay_snoc)
  moreover have "calls_of j (es_log ?s) @ pc_calls (es_pc ?s j) @ es_todo ?s j = prog j" for j
  proof -
    have "calls_of j (es_log s) @ pc_calls (es_pc s j) @ es_todo s j = prog j"
      using leave.prems by (simp add: env_inv_def)
    with leave.hyps show ?thesis by (cases "j = i") (simp_all add: calls_of_def)
  qed
  ultimately show ?case by (auto simp: env_inv_def)
qed

lemma env_start_inv: "env_inv e prog (env_start e prog)"
  by (simp add: env_inv_def env_start_def guarded_def calls_of_def)

interpretation env_threads: invariant_system "\<lambda>s. s = env_start e prog" env_step "env_inv e prog" for e prog
  by unfold_locales (auto intro: env_start_inv env_step_inv)

lemma env_reach_inv: "env_step\<^sup>*\<^sup>* (env_start e prog) s \<Longrightarrow> env_inv e prog s"
  by (rule env_threads.reach_inv) simp_all

section \<open>Progress\<close>

fun pc_weight :: "env_state \<Rightarrow> env_pc \<Rightarrow> nat" where
  "pc_weight e Out = 0"
| "pc_weight e (Entered c) = length (env_lines e) + 3"
| "pc_weight e (Pointer c name p) = 2"
| "pc_weight e (At_Line f j seen) = length (env_lines e) - j + 2"
| "pc_weight e (Returned c a) = 1"
| "pc_weight e (Blocked c) = 0"

definition holder_weight :: "env_sys \<Rightarrow> nat" where
  "holder_weight s = (case env_guard s of None \<Rightarrow> 0 | Some i \<Rightarrow> pc_weight (es_env s) (es_pc s i))"

definition calls_left :: "nat set \<Rightarrow> env_sys \<Rightarrow> nat" where
  "calls_left A s = (\<Sum>i\<in>A. length (es_todo s i))"

lemma body_step_weight: "body_step e p = Some (p', e') \<Longrightarrow> pc_weight e' p' < pc_weight e p"
proof (cases p)
  case (Entered c)
  then show "body_step e p = Some (p', e') \<Longrightarrow> pc_weight e' p' < pc_weight e p"
    by (cases c) (auto split: prod.splits)
qed (auto split: if_splits sum.splits)

text \<open>Every step brings the system nearer to its end.\<close>

lemma env_step_decreases:
  assumes "env_step s s'" and "env_inv e prog s" and "finite {i. prog i \<noteq> []}"
  shows "((calls_left {i. prog i \<noteq> []} s', holder_weight s'),
    (calls_left {i. prog i \<noteq> []} s, holder_weight s)) \<in> less_than <*lex*> less_than"
  using assms(1,2)
proof (induction rule: env_step.induct)
  case (enter s i c cs)
  have "prog i \<noteq> []" using enter by (auto simp: env_inv_def dest: spec [of _ i])
  then have "(\<Sum>j | prog j \<noteq> []. length (((es_todo s)(i := cs)) j)) < (\<Sum>j | prog j \<noteq> []. length (es_todo s j))"
    using enter by (intro sum_strict_mono_ex1 assms(3)) auto
  then show ?case by (simp add: calls_left_def)
next
  case (body s i p e')
  from body.prems obtain e0 where "guarded e0 s" by (auto simp: env_inv_def)
  from guarded_holder(1) [OF this, of i] body_step_calls [OF body.hyps] body_step_weight [OF body.hyps]
  show ?case by (simp add: calls_left_def holder_weight_def)
next
  case (leave s i c a)
  from leave.prems obtain e0 where "guarded e0 s" by (auto simp: env_inv_def)
  from guarded_holder(1) [OF this, of i] leave.hyps
  show ?case by (simp add: calls_left_def holder_weight_def)
qed

interpretation env_calls: terminating_system "\<lambda>s. s = env_start e prog \<and> finite {i. prog i \<noteq> []}" env_step
  "\<lambda>s. env_inv e prog s \<and> finite {i. prog i \<noteq> []}"
  "\<lambda>s. (calls_left {i. prog i \<noteq> []} s, holder_weight s)" for e prog
  by unfold_locales (auto intro: env_start_inv env_step_inv simp del: in_lex_prod dest: env_step_decreases)

lemma stuck_holder:
  assumes "guarded e0 s" and "\<not> (\<exists>s'. env_step s s')" and "env_guard s = Some i"
  shows "\<exists>c. es_pc s i = Blocked c"
proof -
  from assms(2) have "body_step (es_env s) (es_pc s i) = None"
    using body [of s i "fst (the (body_step (es_env s) (es_pc s i)))" "snd (the (body_step (es_env s) (es_pc s i)))"]
    by (cases "body_step (es_env s) (es_pc s i)") auto
  moreover have "\<nexists>c a. es_pc s i = Returned c a" using assms(2) by (meson leave)
  moreover have "es_pc s i \<noteq> Out" using assms(1,3) by (auto simp: guarded_def)
  ultimately show ?thesis by (cases "es_pc s i") (auto split: if_splits sum.splits)
qed

lemma stuck_done:
  assumes inv: "env_inv e prog s" and stuck: "\<not> (\<exists>s'. env_step s s')"
    and calm: "\<And>i f. For_Each f \<in> set (prog i) \<Longrightarrow> f = []"
  shows "calls_of i (es_log s) = prog i"
proof -
  from inv obtain e0 where g: "guarded e0 s" by (auto simp: env_inv_def)
  have none: "env_guard s = None"
  proof (cases "env_guard s")
    case (Some j)
    with stuck_holder [OF g stuck] obtain c where c: "es_pc s j = Blocked c" by blast
    with guarded_holder(2) [OF g, of j] obtain f where "c = For_Each f" "f \<noteq> []" by auto
    moreover from inv c have "c \<in> set (prog j)"
      by (auto simp: env_inv_def dest!: spec [of _ j]) (metis in_set_conv_decomp)
    ultimately show ?thesis using calm by blast
  qed
  with g have out: "es_pc s j = Out" for j by (auto simp: guarded_def)
  with none stuck have "es_todo s i = []" by (meson enter list.exhaust)
  with inv out show ?thesis by (auto simp: env_inv_def dest: spec [of _ i])
qed

lemma blocked_stuck:
  assumes "guarded e0 s" and "es_pc s i = Blocked c"
  shows "\<not> env_step s t"
proof
  assume "env_step s t"
  then show False
    using guarded_holder [OF assms(1), of i] assms(2)
    by (cases rule: env_step.cases) (metis body_step.simps env_pc.distinct option.distinct(1))+
qed

section \<open>Properties\<close>

text \<open>
  C17: linearizability. However the threads of a program interleave, the calls completed so far
  gave the answers, and left the environment, of the same calls made one after another in the
  order of the log by the functions of theory \<open>Env\<close>; each thread's calls are in that order as
  its program has them. Whenever the mutex is free the environment is the one of that order.
\<close>

theorem env_calls_linearizable:
  assumes "env_step\<^sup>*\<^sup>* (env_start e prog) s"
  shows "\<exists>e0. replay (es_log s) e = Some e0 \<and> (env_guard s = None \<longrightarrow> es_env s = e0) \<and>
    (\<forall>i. \<exists>later. calls_of i (es_log s) @ later = prog i)"
proof -
  from env_reach_inv [OF assms] obtain e0 where "replay (es_log s) e = Some e0" and "guarded e0 s"
    and "\<forall>i. calls_of i (es_log s) @ pc_calls (es_pc s i) @ es_todo s i = prog i"
    by (auto simp: env_inv_def)
  then show ?thesis by (auto simp: guarded_def)
qed

theorem env_calls_linearizable_witness:
  "\<exists>s e0. env_step\<^sup>*\<^sup>* (env_start \<lparr>environ = None, env_nomem = False\<rparr>
      (\<lambda>i. if i = 0 then [Set_Or_Throw ''A'' ''1''] else [Get_Or_Throw ''A''])) s \<and>
    es_log s = [(0, Set_Or_Throw ''A'' ''1'', Ans_Void (Inr ())), (1, Get_Or_Throw ''A'', Ans_String (Inr ''1''))] \<and>
    replay (es_log s) \<lparr>environ = None, env_nomem = False\<rparr> = Some e0 \<and> es_env s = e0"
proof -
  let ?e = "\<lparr>environ = None, env_nomem = False\<rparr>"
  let ?prog = "\<lambda>i. if i = (0::nat) then [Set_Or_Throw ''A'' ''1''] else [Get_Or_Throw ''A'']"
  let ?s = "the (schedule [0, 0, 0, 1, 1, 1, 1] (env_start ?e ?prog))"
  have "schedule [0, 0, 0, 1, 1, 1, 1] (env_start ?e ?prog) \<noteq> None" by code_simp
  then have "schedule [0, 0, 0, 1, 1, 1, 1] (env_start ?e ?prog) = Some ?s" by simp
  then have "env_step\<^sup>*\<^sup>* (env_start ?e ?prog) ?s" by (rule schedule_reach)
  moreover have "env_guard ?s = None" by code_simp
  moreover have "es_log ?s = [(0, Set_Or_Throw ''A'' ''1'', Ans_Void (Inr ())), (1, Get_Or_Throw ''A'', Ans_String (Inr ''1''))]"
    by code_simp
  ultimately show ?thesis using env_calls_linearizable [of ?e ?prog ?s] by auto
qed

text \<open>
  C20: liveness. If no functor given to \<open>for_each\<close> calls an environment function, every call of
  every thread returns under every schedule: there is no infinite run, and a run that cannot be
  continued has made all calls of all threads.
\<close>

theorem env_calls_complete:
  assumes "finite {i. prog i \<noteq> []}"
    and "\<forall>i f. For_Each f \<in> set (prog i) \<longrightarrow> f = []"
  shows "\<not> (\<exists>r. r 0 = env_start e prog \<and> (\<forall>n. env_step (r n) (r (Suc n)))) \<and>
    (\<forall>s. env_step\<^sup>*\<^sup>* (env_start e prog) s \<longrightarrow> \<not> (\<exists>s'. env_step s s') \<longrightarrow>
      (\<forall>i. calls_of i (es_log s) = prog i))"
proof (intro conjI allI impI)
  show "\<not> (\<exists>r. r 0 = env_start e prog \<and> (\<forall>n. env_step (r n) (r (Suc n))))"
    using env_calls.no_infinite_run [of _ e prog] assms(1) by blast
  fix s i
  assume "env_step\<^sup>*\<^sup>* (env_start e prog) s" and stuck: "\<not> (\<exists>s'. env_step s s')"
  from env_reach_inv [OF this(1)] stuck show "calls_of i (es_log s) = prog i"
    by (rule stuck_done) (use assms(2) in blast)
qed

theorem env_calls_complete_witness:
  "\<exists>s. env_step\<^sup>*\<^sup>* (env_start \<lparr>environ = Some [''A=1''], env_nomem = False\<rparr>
      (\<lambda>i. if i < 2 then [For_Each []] else [])) s \<and>
    calls_of 1 (es_log s) = [For_Each []]"
proof -
  let ?e = "\<lparr>environ = Some [''A=1''], env_nomem = False\<rparr>"
  let ?prog = "\<lambda>i. if i < (2::nat) then [For_Each []] else []"
  have fin: "finite {i. ?prog i \<noteq> []}" by simp
  have calm: "\<forall>i f. For_Each f \<in> set (?prog i) \<longrightarrow> f = []" by (auto split: if_splits)
  note complete = env_calls_complete [of ?prog ?e, OF fin calm]
  obtain s where "env_step\<^sup>*\<^sup>* (env_start ?e ?prog) s" and "\<not> (\<exists>s'. env_step s s')"
    using env_calls.reach_end [of "env_start ?e ?prog" ?e ?prog] fin by blast
  with complete have "calls_of 1 (es_log s) = ?prog 1" by blast
  with \<open>env_step\<^sup>*\<^sup>* (env_start ?e ?prog) s\<close> show ?thesis by auto
qed

text \<open>
  A functor that calls an environment function brings every thread to a halt. Once the
  loop of \<open>for_each\<close> is at a pair for which the functor does, its thread waits for the mutex it
  holds itself, and no thread can make a step any more; and for the first line of the
  environment that state is reached.
\<close>

theorem env_functor_reentry_deadlocks:
  assumes "prog i = For_Each f # cs" and "env_lines e = line # ls" and "line_pair line = Inr (key, v)"
    and "(key, v) \<in> set f"
  shows "(\<exists>s. env_step\<^sup>*\<^sup>* (env_start e prog) s \<and> es_pc s i = Blocked (For_Each f)) \<and>
    (\<forall>s. env_step\<^sup>*\<^sup>* (env_start e prog) s \<longrightarrow> es_pc s i = Blocked (For_Each f) \<longrightarrow> (\<forall>t. \<not> env_step s t))"
proof (intro conjI allI impI)
  let ?start = "env_start e prog"
  let ?at = "\<lambda>p. ?start\<lparr>env_guard := Some i, es_todo := prog(i := cs), es_pc := (es_pc ?start)(i := p)\<rparr>"
  have "env_step ?start (?at (Entered (For_Each f)))"
    using enter [of ?start i "For_Each f" cs] assms(1) by (simp add: env_start_def)
  moreover have "env_step (?at (Entered (For_Each f))) (?at (At_Line f 0 []))"
    using body [of "?at (Entered (For_Each f))" i "At_Line f 0 []" e] by (simp add: env_start_def)
  moreover have "env_step (?at (At_Line f 0 [])) (?at (Blocked (For_Each f)))"
    using body [of "?at (At_Line f 0 [])" i "Blocked (For_Each f)" e] assms(2-4)
    by (simp add: env_start_def)
  ultimately have "env_step\<^sup>*\<^sup>* ?start (?at (Blocked (For_Each f)))"
    by (meson converse_rtranclp_into_rtranclp rtranclp.rtrancl_refl)
  then show "\<exists>s. env_step\<^sup>*\<^sup>* ?start s \<and> es_pc s i = Blocked (For_Each f)"
    by (intro exI [of _ "?at (Blocked (For_Each f))"]) simp
next
  fix s t
  assume "env_step\<^sup>*\<^sup>* (env_start e prog) s" and "es_pc s i = Blocked (For_Each f)"
  moreover from env_reach_inv [OF this(1)] obtain e0 where "guarded e0 s" by (auto simp: env_inv_def)
  ultimately show "\<not> env_step s t" by (simp add: blocked_stuck)
qed

theorem env_functor_reentry_deadlocks_witness:
  "\<exists>s. env_step\<^sup>*\<^sup>* (env_start \<lparr>environ = Some [''A=1''], env_nomem = False\<rparr>
      (\<lambda>i. if i = 0 then [For_Each [(''A'', ''1'')]] else [Get ''A'' []])) s \<and>
    es_pc s 0 = Blocked (For_Each [(''A'', ''1'')]) \<and> (\<forall>t. \<not> env_step s t)"
proof -
  let ?e = "\<lparr>environ = Some [''A=1''], env_nomem = False\<rparr>" and ?f = "[(''A'', ''1'')]"
  let ?prog = "\<lambda>i. if i = (0::nat) then [For_Each ?f] else [Get ''A'' []]"
  have "line_pair ''A=1'' = Inr (''A'', ''1'')"
    by (simp add: line_pair_split representable_def split_line_def)
  from env_functor_reentry_deadlocks [of ?prog 0 ?f "[]" ?e "''A=1''" "[]", OF _ _ this]
  have "(\<exists>s. env_step\<^sup>*\<^sup>* (env_start ?e ?prog) s \<and> es_pc s 0 = Blocked (For_Each ?f)) \<and>
    (\<forall>s. env_step\<^sup>*\<^sup>* (env_start ?e ?prog) s \<longrightarrow> es_pc s 0 = Blocked (For_Each ?f) \<longrightarrow> (\<forall>t. \<not> env_step s t))"
    by (simp add: env_lines_def)
  then show ?thesis by blast
qed

end
