(* ===== verification/Posix_Api.thy ===== *)
theory Posix_Api
  imports Prelude
begin

unbundle bit_operations_syntax

text \<open>
  The operating system, which is not part of the repository, is a parameter: every
  definition that makes system calls takes a record \<open>api\<close> of the calls, over an abstract
  state \<open>'k\<close> (the kernel as one process sees it). What the code relies on is stated as
  locales over that record: \<open>fd_kernel\<close> for descriptors, \<open>fd_limit\<close> for their number,
  \<open>proc_kernel\<close> for process identities, \<open>kill_log\<close> for the signals a process sends, \<open>wait_kernel\<close>
  and \<open>wait_one_kernel\<close> for reaping. Their laws are the documented behaviour of the calls (manual pages pipe(2), dup(2), close(2), fork(2), getpid(2), kill(2), waitpid(2)).
  The macros of \<open>sys/wait.h\<close> are part of the C library and are defined here.
\<close>

section \<open>The calls\<close>

text \<open>An open file description: an end of a numbered pipe, or anything else.\<close>

datatype desc = Pipe_Read nat | Pipe_Write nat | Other_Desc nat

record 'k api =
  sys_pipe :: "(errno, int \<times> int, 'k) call"
  sys_dup :: "int \<Rightarrow> (errno, int, 'k) call"
  sys_dup2 :: "int \<Rightarrow> int \<Rightarrow> (errno, int, 'k) call"
  sys_close :: "int \<Rightarrow> (errno, unit, 'k) call"
  sys_getpid :: "'k \<Rightarrow> int"
  sys_getppid :: "'k \<Rightarrow> int"
  sys_getpgid :: "int \<Rightarrow> 'k \<Rightarrow> errno + int"
  sys_fork :: "(errno, int \<times> 'k, 'k) call"
  sys_kill :: "int \<Rightarrow> int \<Rightarrow> (errno, unit, 'k) call"
  sys_waitpid :: "int \<Rightarrow> int \<Rightarrow> (errno, int \<times> 32 word, 'k) call"

text \<open>
  \<open>sys_fork\<close> returns the new pid and the kernel as the child sees it, beside the kernel
  as the caller sees it. \<open>sys_waitpid\<close> returns the pid (0 when no child has changed
  state under \<open>WNOHANG\<close>) and the status word.
\<close>

section \<open>sys/wait.h\<close>

definition WNOHANG :: int where [lib_defs]: "WNOHANG = 1"
definition WUNTRACED :: int where [lib_defs]: "WUNTRACED = 2"
definition WCONTINUED :: int where [lib_defs]: "WCONTINUED = 8"

definition WTERMSIG :: "32 word \<Rightarrow> 32 word" where
  "WTERMSIG s = s AND 0x7f"

definition WEXITSTATUS :: "32 word \<Rightarrow> 32 word" where
  "WEXITSTATUS s = drop_bit 8 (s AND 0xff00)"

definition WSTOPSIG :: "32 word \<Rightarrow> 32 word" where
  "WSTOPSIG s = WEXITSTATUS s"

definition WIFEXITED :: "32 word \<Rightarrow> bool" where
  "WIFEXITED s \<longleftrightarrow> WTERMSIG s = 0"

text \<open>glibc: \<open>((signed char) ((status & 0x7f) + 1) >> 1) > 0\<close>\<close>

definition WIFSIGNALED :: "32 word \<Rightarrow> bool" where
  "WIFSIGNALED s \<longleftrightarrow> 0 < sint (signed_drop_bit 1 (ucast ((s AND 0x7f) + 1) :: 8 word))"

definition WIFSTOPPED :: "32 word \<Rightarrow> bool" where
  "WIFSTOPPED s \<longleftrightarrow> s AND 0xff = 0x7f"

definition WIFCONTINUED :: "32 word \<Rightarrow> bool" where
  "WIFCONTINUED s \<longleftrightarrow> s = 0xffff"

definition WCOREDUMP :: "32 word \<Rightarrow> 32 word" where
  "WCOREDUMP s = s AND 0x80"

lemmas wait_macros = WTERMSIG_def WEXITSTATUS_def WSTOPSIG_def WIFEXITED_def WIFSIGNALED_def
  WIFSTOPPED_def WIFCONTINUED_def WCOREDUMP_def

text \<open>
  How the kernel writes a status word: an exit code, a terminating signal with its core
  flag, a stopping signal, a resumption.
\<close>

datatype child_event =
    Ev_Exited "8 word"
  | Ev_Signaled "7 word" bool
  | Ev_Stopped "8 word"
  | Ev_Continued

fun encode_status :: "child_event \<Rightarrow> 32 word" where
  "encode_status (Ev_Exited c) = push_bit 8 (ucast c)"
| "encode_status (Ev_Signaled s core) = ucast s OR (if core then 0x80 else 0)"
| "encode_status (Ev_Stopped s) = push_bit 8 (ucast s) OR 0x7f"
| "encode_status Ev_Continued = 0xffff"

definition terminated :: "32 word \<Rightarrow> bool" where
  "terminated s \<longleftrightarrow> WIFSIGNALED s \<or> WIFEXITED s"

section \<open>Descriptors\<close>

text \<open>
  \<open>fdt\<close> reads the descriptor table of the calling process off the kernel state. A failed
  call leaves the table as it is; \<open>close\<close> releases the descriptor whatever it returns; a
  forked child starts with a copy of its parent's table.
\<close>

locale fd_kernel =
  fixes K :: "'k api" and fdt :: "'k \<Rightarrow> int \<rightharpoonup> desc"
  assumes fdt_nonneg: "fdt k fd = Some d \<Longrightarrow> 0 \<le> fd"
    and pipe_ok: "sys_pipe K k = (Inr (r, w), k') \<Longrightarrow>
      0 \<le> r \<and> 0 \<le> w \<and> r \<noteq> w \<and> fdt k r = None \<and> fdt k w = None \<and>
      (\<exists>n. Pipe_Read n \<notin> ran (fdt k) \<and> Pipe_Write n \<notin> ran (fdt k) \<and>
           fdt k' = (fdt k)(r \<mapsto> Pipe_Read n, w \<mapsto> Pipe_Write n))"
    and pipe_fail: "sys_pipe K k = (Inl e, k') \<Longrightarrow> fdt k' = fdt k"
    and dup_ok: "sys_dup K fd k = (Inr n, k') \<Longrightarrow>
      0 \<le> n \<and> fdt k n = None \<and> fd \<in> dom (fdt k) \<and> fdt k' = (fdt k)(n := fdt k fd)"
    and dup_fail: "sys_dup K fd k = (Inl e, k') \<Longrightarrow> fdt k' = fdt k"
    and dup2_ok: "sys_dup2 K fd s k = (Inr n, k') \<Longrightarrow>
      n = s \<and> fd \<in> dom (fdt k) \<and> fdt k' = (fdt k)(s := fdt k fd)"
    and dup2_fail: "sys_dup2 K fd s k = (Inl e, k') \<Longrightarrow> fdt k' = fdt k"
    and close_fdt: "fdt (snd (sys_close K fd k)) = (fdt k)(fd := None)"
    and fork_fdt: "sys_fork K k = (Inr (pid, kc), k') \<Longrightarrow>
      0 < pid \<and> fdt kc = fdt k \<and> fdt k' = fdt k"
    and fork_fail: "sys_fork K k = (Inl e, k') \<Longrightarrow> fdt k' = fdt k"
    and kill_fdt: "fdt (snd (sys_kill K pid sig k)) = fdt k"
    and waitpid_fdt: "fdt (snd (sys_waitpid K pid opts k)) = fdt k"
begin

lemma fdt_minus_one [simp]: "fdt k (- 1) = None"
  using fdt_nonneg [of k "- 1"] by (cases "fdt k (- 1)") auto

lemma not_minus_one: "fdt k fd = Some d \<Longrightarrow> fd \<noteq> - 1"
  by auto

end

text \<open>
  \<open>limit\<close> is the number of descriptors the process may have open (\<open>RLIMIT_NOFILE\<close>), which
  none of these calls changes. A duplication of an open descriptor fails for want of a free one
  and, where the kernel has memory left, for no other reason.
\<close>

locale fd_limit = fd_kernel K fdt
  for K :: "'k api" and fdt :: "'k \<Rightarrow> int \<rightharpoonup> desc" +
  fixes limit :: "'k \<Rightarrow> nat"
  assumes fdt_finite: "finite (dom (fdt k))"
    and dup_room: "fd \<in> dom (fdt k) \<Longrightarrow> card (dom (fdt k)) < limit k \<Longrightarrow> \<not> isl (fst (sys_dup K fd k))"
    and limit_pipe: "limit (snd (sys_pipe K k)) = limit k"
    and limit_dup: "limit (snd (sys_dup K fd k)) = limit k"
    and limit_close: "limit (snd (sys_close K fd k)) = limit k"
    and limit_fork: "limit (snd (sys_fork K k)) = limit k"

section \<open>Process identities\<close>

locale proc_kernel = fd_kernel K fdt
  for K :: "'k api" and fdt :: "'k \<Rightarrow> int \<rightharpoonup> desc" +
  assumes getpid_dup: "sys_getpid K (snd (sys_dup K fd k)) = sys_getpid K k"
    and getpid_close: "sys_getpid K (snd (sys_close K fd k)) = sys_getpid K k"
    and getpid_kill: "sys_getpid K (snd (sys_kill K pid sig k)) = sys_getpid K k"
    and getpid_waitpid: "sys_getpid K (snd (sys_waitpid K pid opts k)) = sys_getpid K k"
    and getpid_fork: "sys_fork K k = (Inr (pid, kc), k') \<Longrightarrow>
      sys_getpid K k' = sys_getpid K k \<and> sys_getpid K kc = pid \<and> pid \<noteq> sys_getpid K k"

text \<open>
  \<open>sent\<close> records the calls of kill(2) the process has made, in order: such a call adds itself, and
  no other call sends a signal. None of the calls changes the pid of its caller.
\<close>

locale kill_log = proc_kernel K fdt
  for K :: "'k api" and fdt :: "'k \<Rightarrow> int \<rightharpoonup> desc" +
  fixes sent :: "'k \<Rightarrow> (int \<times> int) list"
  assumes sent_kill: "sent (snd (sys_kill K pid sig k)) = sent k @ [(pid, sig)]"
    and sent_pipe: "sent (snd (sys_pipe K k)) = sent k"
    and sent_dup: "sent (snd (sys_dup K fd k)) = sent k"
    and sent_close: "sent (snd (sys_close K fd k)) = sent k"
    and sent_fork: "sent (snd (sys_fork K k)) = sent k"
    and sent_waitpid: "sent (snd (sys_waitpid K pid opts k)) = sent k"
    and getpid_pipe: "sys_getpid K (snd (sys_pipe K k)) = sys_getpid K k"
    and getpid_fork_caller: "sys_getpid K (snd (sys_fork K k)) = sys_getpid K k"

section \<open>Reaping\<close>

text \<open>
  \<open>dead\<close> reads off the kernel state which children in the caller's own process group have
  terminated and are not yet reaped, with their status words. With \<open>WNOHANG\<close> and no other
  option, \<open>waitpid(0)\<close> reports one of them and forgets it, reports 0 when there is none but
  children are left, and fails with \<open>ECHILD\<close> when there is no child at all.
\<close>

locale wait_kernel =
  fixes K :: "'k api" and dead :: "'k \<Rightarrow> int \<rightharpoonup> 32 word"
  assumes dead_finite: "finite (dom (dead k))"
    and dead_terminated: "dead k pid = Some st \<Longrightarrow> terminated st \<and> 0 < pid"
    and reap_some: "sys_waitpid K 0 WNOHANG k = (Inr (pid, st), k') \<Longrightarrow> pid \<noteq> 0 \<Longrightarrow>
      dead k pid = Some st \<and> dead k' = (dead k)(pid := None)"
    and reap_none: "sys_waitpid K 0 WNOHANG k = (Inr (0, st), k') \<Longrightarrow>
      dead k = Map.empty \<and> dead k' = Map.empty"
    and reap_fail: "sys_waitpid K 0 WNOHANG k = (Inl e, k') \<Longrightarrow>
      e = ECHILD \<and> dead k = Map.empty \<and> dead k' = Map.empty"
begin

lemma reap_pid_not_minus_one:
  "sys_waitpid K 0 WNOHANG k = (Inr (pid, st), k') \<Longrightarrow> pid \<noteq> 0 \<Longrightarrow> 0 < pid \<and> terminated st"
  using reap_some dead_terminated by blast

lemma card_dead_decreases:
  assumes "sys_waitpid K 0 WNOHANG k = (Inr (pid, st), k')" and "pid \<noteq> 0"
  shows "card (dom (dead k')) < card (dom (dead k))"
proof -
  from reap_some [OF assms] have "pid \<in> dom (dead k)" and "dom (dead k') = dom (dead k) - {pid}"
    by auto
  then show ?thesis by (metis card_Diff1_less dead_finite)
qed

end

text \<open>
  \<open>kid\<close> says what the caller's kernel knows of a pid: not a child of the caller, or no longer
  (\<open>None\<close>), a living child (\<open>Some None\<close>), or a child that has terminated and is not yet reaped, with
  its status word. Asked with \<open>WNOHANG\<close> for one process, waitpid(2) fails with \<open>ECHILD\<close> for the first,
  returns 0 for the second, and reports and forgets the third.
\<close>

locale wait_one_kernel =
  fixes K :: "'k api" and kid :: "'k \<Rightarrow> int \<rightharpoonup> 32 word option"
  assumes one_alive: "0 < pid \<Longrightarrow> kid k pid = Some None \<Longrightarrow>
      \<exists>st k'. sys_waitpid K pid WNOHANG k = (Inr (0, st), k') \<and> kid k' = kid k"
    and one_dead: "0 < pid \<Longrightarrow> kid k pid = Some (Some st) \<Longrightarrow>
      \<exists>k'. sys_waitpid K pid WNOHANG k = (Inr (pid, st), k') \<and> kid k' = (kid k)(pid := None)"
    and one_gone: "0 < pid \<Longrightarrow> kid k pid = None \<Longrightarrow>
      \<exists>k'. sys_waitpid K pid WNOHANG k = (Inl ECHILD, k') \<and> kid k' = kid k"

section \<open>Status words\<close>

text \<open>The masks of \<open>sys/wait.h\<close> as bit masks, to read status words bit by bit.\<close>

lemma status_masks:
  "(0x7f :: 32 word) = mask 7" "(0xff :: 32 word) = mask 8"
  "(0xff00 :: 32 word) = push_bit 8 (mask 8)"
  by (simp_all add: mask_eq_exp_minus_1)

lemma bit_0x80 [simp]: "bit (0x80 :: int) n \<longleftrightarrow> n = 7"
proof -
  have "(0x80 :: int) = 2 ^ 7" by simp
  then show ?thesis by (simp only: bit_exp_iff) auto
qed

lemma WTERMSIG_encode:
  "WTERMSIG (encode_status (Ev_Exited c)) = 0"
  "WTERMSIG (encode_status (Ev_Signaled sig core)) = ucast sig"
  "WTERMSIG (encode_status (Ev_Stopped st)) = 0x7f"
  "WTERMSIG (encode_status Ev_Continued) = 0x7f"
proof -
  show "WTERMSIG (encode_status (Ev_Exited c)) = 0"
    unfolding WTERMSIG_def encode_status.simps status_masks
    by (rule bit_word_eqI) (auto simp: bit_simps)
  show "WTERMSIG (encode_status (Ev_Signaled sig core)) = ucast sig"
    unfolding WTERMSIG_def encode_status.simps status_masks
    by (rule bit_word_eqI) (auto simp: bit_simps dest: bit_imp_le_length)
  show "WTERMSIG (encode_status (Ev_Stopped st)) = 0x7f"
    unfolding WTERMSIG_def encode_status.simps status_masks
    by (rule bit_word_eqI) (auto simp: bit_simps)
  show "WTERMSIG (encode_status Ev_Continued) = 0x7f"
    by (simp add: WTERMSIG_def)
qed

lemma WEXITSTATUS_encode:
  "WEXITSTATUS (encode_status (Ev_Exited c)) = ucast c"
  "WEXITSTATUS (encode_status (Ev_Stopped st)) = ucast st"
proof -
  show "WEXITSTATUS (encode_status (Ev_Exited c)) = ucast c"
    unfolding WEXITSTATUS_def encode_status.simps status_masks
    by (rule bit_word_eqI) (auto simp: bit_simps dest: bit_imp_le_length)
  show "WEXITSTATUS (encode_status (Ev_Stopped st)) = ucast st"
    unfolding WEXITSTATUS_def encode_status.simps status_masks
    by (rule bit_word_eqI) (auto simp: bit_simps dest: bit_imp_le_length)
qed

lemma WCOREDUMP_encode:
  "WCOREDUMP (encode_status (Ev_Signaled sig core)) = (if core then 0x80 else 0)"
  unfolding WCOREDUMP_def encode_status.simps status_masks
  by (rule bit_word_eqI) (auto simp: bit_simps dest: bit_imp_le_length)

lemma WIFSTOPPED_encode:
  "WIFSTOPPED (encode_status (Ev_Stopped st))"
  "\<not> WIFSTOPPED (encode_status Ev_Continued)"
proof -
  have "encode_status (Ev_Stopped st) AND 0xff = 0x7f"
    unfolding encode_status.simps status_masks
    by (rule bit_word_eqI) (auto simp: bit_simps)
  then show "WIFSTOPPED (encode_status (Ev_Stopped st))"
    by (simp add: WIFSTOPPED_def)
  show "\<not> WIFSTOPPED (encode_status Ev_Continued)"
    by (simp add: WIFSTOPPED_def)
qed

text \<open>\<open>WIFSIGNALED\<close> holds exactly for the low seven bits 1 to 126.\<close>

lemma WIFSIGNALED_table:
  "\<forall>n \<in> set [0..<128]. (0 < sint (signed_drop_bit 1 (ucast ((of_nat n :: 32 word) + 1) :: 8 word))) =
     (n \<noteq> 0 \<and> n \<noteq> 127)"
  by code_simp

lemma WIFSIGNALED_iff: "WIFSIGNALED s \<longleftrightarrow> WTERMSIG s \<noteq> 0 \<and> WTERMSIG s \<noteq> 0x7f"
proof -
  let ?n = "unat (s AND 0x7f)"
  have "s AND 0x7f = take_bit 7 s"
    by (simp add: status_masks take_bit_eq_mask)
  then have bound: "?n < 128"
    by (simp add: unsigned_take_bit_eq take_bit_nat_less_exp [of 7, simplified])
  have t: "s AND 0x7f = of_nat ?n" by simp
  have z: "?n = 0 \<longleftrightarrow> s AND 0x7f = 0" and m: "?n = 127 \<longleftrightarrow> s AND 0x7f = 0x7f"
    using word_unat_eq_iff [of "s AND 0x7f" 0] word_unat_eq_iff [of "s AND 0x7f" "0x7f"]
    by simp_all
  have "?n \<in> set [0..<128]" using bound by simp
  from bspec [OF WIFSIGNALED_table this] show ?thesis
    unfolding t [symmetric] z m WIFSIGNALED_def WTERMSIG_def .
qed

end
