(* ===== verification/Bit_Flags.thy ===== *)
theory Bit_Flags
  imports Posix_Api
begin

text \<open>
  The interface of the library's bit-flag enumerations (\<open>StandardStream\<close>, \<open>wait::Flags\<close>,
  \<open>ForkAndRunResult\<close>): values are joined with \<open>operator|\<close> and a flag is tested by masking.
  What a client may rely on is proved once here; each enumeration is an interpretation in
  its own theory.
\<close>

locale bit_flags =
  fixes join :: "'f \<Rightarrow> 'f \<Rightarrow> 'f" and isset :: "'f \<Rightarrow> 'f \<Rightarrow> bool" and none :: 'f
    and flags :: "'f list"
  assumes isset_none: "\<not> isset none f"
    and isset_join: "isset (join a b) f \<longleftrightarrow> isset a f \<or> isset b f"
    and flags_independent: "f \<in> set flags \<Longrightarrow> g \<in> set flags \<Longrightarrow> isset f g \<longleftrightarrow> f = g"
begin

text \<open>Joining a list of flags sets exactly the flags of the list.\<close>

lemma isset_joined: "isset (foldr join fs none) f \<longleftrightarrow> (\<exists>g \<in> set fs. isset g f)"
  by (induction fs) (simp_all add: isset_none isset_join)

lemma joined_exact:
  "set fs \<subseteq> set flags \<Longrightarrow> f \<in> set flags \<Longrightarrow> isset (foldr join fs none) f \<longleftrightarrow> f \<in> set fs"
  by (auto simp: isset_joined flags_independent subset_iff)

lemma join_commute_isset: "isset (join a b) f \<longleftrightarrow> isset (join b a) f"
  by (auto simp: isset_join)

lemma join_again: "isset a f \<Longrightarrow> isset (join a b) f"
  by (simp add: isset_join)

end

text \<open>The laws for words: joining is \<open>OR\<close>, testing is a non-zero \<open>AND\<close>.\<close>

lemma or_and_zero:
  "((a OR b) AND f = 0) \<longleftrightarrow> a AND f = 0 \<and> b AND f = (0 :: 'w :: len word)"
proof -
  have "(a OR b) AND f = (a AND f) OR (b AND f)" by (rule bit.conj_disj_distrib2)
  then show ?thesis by (simp add: bit_eq_iff bit_or_iff) blast
qed

end
