(* ===== verification/Standard_Stream.thy ===== *)
theory Standard_Stream
  imports Bit_Flags
begin

text \<open>
  \<open>include/core/posix/standard_stream.h\<close> and \<open>src/core/posix/standard_stream.cpp\<close>: the
  flags that say which standard streams of a child are redirected. The enumeration's
  underlying type is \<open>std::uint8_t\<close>, and joined values need not be enumerators.
\<close>

type_synonym StandardStream = "8 word"

definition stream_empty :: StandardStream where "stream_empty = 0"
definition stream_stdin :: StandardStream where "stream_stdin = push_bit 0 1"
definition stream_stdout :: StandardStream where "stream_stdout = push_bit 1 1"
definition stream_stderr :: StandardStream where "stream_stderr = push_bit 2 1"

definition stream_or :: "StandardStream \<Rightarrow> StandardStream \<Rightarrow> StandardStream" where
  "stream_or l r = l OR r"

definition stream_and :: "StandardStream \<Rightarrow> StandardStream \<Rightarrow> StandardStream" where
  "stream_and l r = l AND r"

text \<open>The test \<open>(flags & s) != StandardStream::empty\<close>, as every client writes it.\<close>

definition stream_set :: "StandardStream \<Rightarrow> StandardStream \<Rightarrow> bool" where
  "stream_set flags s \<longleftrightarrow> stream_and flags s \<noteq> stream_empty"

lemmas stream_defs = stream_empty_def stream_stdin_def stream_stdout_def stream_stderr_def
  stream_or_def stream_and_def stream_set_def

interpretation ss: bit_flags stream_or stream_set stream_empty
  "[stream_stdin, stream_stdout, stream_stderr]"
  by unfold_locales (auto simp: stream_defs or_and_zero)

text \<open>
  Joining any list of standard streams with \<open>operator|\<close> and testing with \<open>operator&\<close>
  against \<open>empty\<close> finds exactly the streams of the list: no flag is lost and none leaks
  into another.
\<close>

theorem stream_flags_exact:
  assumes "set fs \<subseteq> {stream_stdin, stream_stdout, stream_stderr}"
    and "f \<in> {stream_stdin, stream_stdout, stream_stderr}"
  shows "stream_set (foldr stream_or fs stream_empty) f \<longleftrightarrow> f \<in> set fs"
  using assms ss.joined_exact [of fs f] by simp

theorem stream_flags_exact_witness:
  "stream_set (foldr stream_or [stream_stdin, stream_stderr] stream_empty) stream_stderr \<and>
   \<not> stream_set (foldr stream_or [stream_stdin, stream_stderr] stream_empty) stream_stdout"
proof -
  have "stream_stdout \<notin> set [stream_stdin, stream_stderr]"
    by (simp add: stream_defs)
  then show ?thesis
    using stream_flags_exact [of "[stream_stdin, stream_stderr]" stream_stderr]
      stream_flags_exact [of "[stream_stdin, stream_stderr]" stream_stdout]
    by simp
qed

end
