(* ===== verification/Signals.thy ===== *)
theory Signals
  imports Posix_Api
begin

text \<open>
  \<open>enum class Signal\<close> of \<open>include/core/posix/signal.h\<close>. Its underlying type is \<open>int\<close> and
  the sources cast arbitrary integers to it, so a value is an integer; the enumerators are
  constants. \<open>Signalable\<close> (\<open>signalable.h\<close>, \<open>signalable.cpp\<close>) is the base class of
  \<open>Process\<close> and \<open>ProcessGroup\<close>: an integer handed to kill(2).
\<close>

section \<open>enum class Signal\<close>

datatype Signal = Signal (signo: int)

definition sig_unknown :: Signal where "sig_unknown = Signal 0"
definition sig_hup :: Signal where "sig_hup = Signal 1"
definition sig_int :: Signal where "sig_int = Signal 2"
definition sig_quit :: Signal where "sig_quit = Signal 3"
definition sig_ill :: Signal where "sig_ill = Signal 4"
definition sig_abrt :: Signal where "sig_abrt = Signal 6"
definition sig_fpe :: Signal where "sig_fpe = Signal 8"
definition sig_kill :: Signal where "sig_kill = Signal 9"
definition sig_segv :: Signal where "sig_segv = Signal 11"
definition sig_pipe :: Signal where "sig_pipe = Signal 13"
definition sig_alrm :: Signal where "sig_alrm = Signal 14"
definition sig_term :: Signal where "sig_term = Signal 15"
definition sig_usr1 :: Signal where "sig_usr1 = Signal 10"
definition sig_usr2 :: Signal where "sig_usr2 = Signal 12"
definition sig_chld :: Signal where "sig_chld = Signal 17"
definition sig_cont :: Signal where "sig_cont = Signal 18"
definition sig_stop :: Signal where "sig_stop = Signal 19"
definition sig_tstp :: Signal where "sig_tstp = Signal 20"
definition sig_ttin :: Signal where "sig_ttin = Signal 21"
definition sig_ttou :: Signal where "sig_ttou = Signal 22"

lemmas signal_consts = sig_unknown_def sig_hup_def sig_int_def sig_quit_def sig_ill_def
  sig_abrt_def sig_fpe_def sig_kill_def sig_segv_def sig_pipe_def sig_alrm_def sig_term_def
  sig_usr1_def sig_usr2_def sig_chld_def sig_cont_def sig_stop_def sig_tstp_def sig_ttin_def
  sig_ttou_def

instantiation Signal :: linorder
begin

definition less_eq_Signal :: "Signal \<Rightarrow> Signal \<Rightarrow> bool" where
  "less_eq_Signal a b \<longleftrightarrow> signo a \<le> signo b"

definition less_Signal :: "Signal \<Rightarrow> Signal \<Rightarrow> bool" where
  "less_Signal a b \<longleftrightarrow> signo a < signo b"

instance
  by standard (auto simp: less_eq_Signal_def less_Signal_def intro: Signal.expand)

end

text \<open>The default actions of signal(7) that end the process, and those that stop it.\<close>

definition SIGKILL :: int where "SIGKILL = 9"

section \<open>Signalable\<close>

record Signalable =
  sig_pid :: int

definition Signalable_ctor :: "int \<Rightarrow> Signalable" where
  "Signalable_ctor pid = \<lparr>sig_pid = pid\<rparr>"

definition send_signal_or_throw ::
  "'k api \<Rightarrow> 'a Signalable_scheme \<Rightarrow> Signal \<Rightarrow> (exn, unit, 'k) call" where
  "send_signal_or_throw K d signal k =
     (case sys_kill K (sig_pid d) (signo signal) k of
        (Inl errno, k') \<Rightarrow> (Inl (System_Error errno), k')
      | (Inr _, k') \<Rightarrow> (Inr (), k'))"

text \<open>The variant with an out-parameter leaves it alone unless the call failed.\<close>

definition send_signal ::
  "'k api \<Rightarrow> 'a Signalable_scheme \<Rightarrow> Signal \<Rightarrow> error_code \<Rightarrow> 'k \<Rightarrow> error_code \<times> 'k" where
  "send_signal K d signal e k =
     (case sys_kill K (sig_pid d) (signo signal) k of
        (Inl errno, k') \<Rightarrow> (Some errno, k')
      | (Inr _, k') \<Rightarrow> (e, k'))"

text \<open>
  The throwing and the non-throwing way to send a signal make the same call and leave
  the same kernel state; one throws \<open>std::system_error\<close> exactly when the other, called with
  a clear \<open>error_code\<close>, reports the same error.
\<close>

theorem send_signal_variants_agree:
  "snd (send_signal_or_throw K d s k) = snd (send_signal K d s e k) \<and>
   (\<forall>err. fst (send_signal_or_throw K d s k) = Inl (System_Error err) \<longleftrightarrow>
          fst (send_signal K d s None k) = Some err) \<and>
   (fst (send_signal_or_throw K d s k) = Inr () \<longleftrightarrow> fst (send_signal K d s None k) = None) \<and>
   fst (send_signal K d s e k) \<in>
     (case fst (sys_kill K (sig_pid d) (signo s) k) of Inl err \<Rightarrow> {Some err} | Inr _ \<Rightarrow> {e})"
  by (simp add: send_signal_or_throw_def send_signal_def split: prod.splits sum.splits)

end
