(* ===== verification/Ref_Kernel.thy ===== *)
theory Ref_Kernel
  imports Posix_Api
begin

text \<open>
  A kernel that satisfies the laws of \<open>Posix_Api\<close>: a descriptor table of fixed size
  (\<open>RLIMIT_NOFILE\<close>), lowest free descriptor first; a table of children with their process
  groups and exit states, a limit on their number, and a log of the calls of kill(2). It shows
  that the laws can hold together, and the witnesses of the properties run on it.
\<close>

section \<open>State\<close>

datatype child_state = Alive | Zombie child_event

record ref_kernel =
  rk_fds :: "desc option list"
  rk_pipes :: nat
  rk_pid :: int
  rk_ppid :: int
  rk_pgid :: int
  rk_children :: "(int \<times> int \<times> child_state) list"
  rk_nproc :: nat
  rk_log :: "(int \<times> int) list"

definition rk_fdt :: "ref_kernel \<Rightarrow> int \<rightharpoonup> desc" where
  "rk_fdt k fd = (if 0 \<le> fd \<and> nat fd < length (rk_fds k) then rk_fds k ! nat fd else None)"

text \<open>The lowest free descriptor, and a pipe number no descriptor of the table uses.\<close>

definition rk_free :: "ref_kernel \<Rightarrow> nat option" where
  "rk_free k = find (\<lambda>i. rk_fds k ! i = None) [0..<length (rk_fds k)]"

fun desc_pipe :: "desc option \<Rightarrow> nat" where
  "desc_pipe (Some (Pipe_Read n)) = n"
| "desc_pipe (Some (Pipe_Write n)) = n"
| "desc_pipe _ = 0"

definition rk_fresh_pipe :: "ref_kernel \<Rightarrow> nat" where
  "rk_fresh_pipe k = Suc (foldr max (map desc_pipe (rk_fds k)) (rk_pipes k))"

section \<open>Calls\<close>

definition rk_set :: "int \<Rightarrow> desc option \<Rightarrow> ref_kernel \<Rightarrow> ref_kernel" where
  "rk_set fd d k = (if 0 \<le> fd then k\<lparr>rk_fds := (rk_fds k)[nat fd := d]\<rparr> else k)"

definition rk_dup :: "int \<Rightarrow> (errno, int, ref_kernel) call" where
  "rk_dup fd k =
     (case rk_fdt k fd of
        None \<Rightarrow> (Inl EBADF, k)
      | Some d \<Rightarrow> (case rk_free k of
            None \<Rightarrow> (Inl EMFILE, k)
          | Some n \<Rightarrow> (Inr (int n), rk_set (int n) (Some d) k)))"

definition rk_dup2 :: "int \<Rightarrow> int \<Rightarrow> (errno, int, ref_kernel) call" where
  "rk_dup2 fd s k =
     (case rk_fdt k fd of
        None \<Rightarrow> (Inl EBADF, k)
      | Some d \<Rightarrow>
          if 0 \<le> s \<and> nat s < length (rk_fds k) then (Inr s, rk_set s (Some d) k)
          else (Inl EBADF, k))"

definition rk_close :: "int \<Rightarrow> (errno, unit, ref_kernel) call" where
  "rk_close fd k =
     (case rk_fdt k fd of None \<Rightarrow> (Inl EBADF, k) | Some d \<Rightarrow> (Inr (), rk_set fd None k))"

definition rk_pipe :: "(errno, int \<times> int, ref_kernel) call" where
  "rk_pipe k =
     (case rk_free k of
        None \<Rightarrow> (Inl EMFILE, k)
      | Some r \<Rightarrow>
          (let n = rk_fresh_pipe k;
               k1 = (rk_set (int r) (Some (Pipe_Read n)) k)\<lparr>rk_pipes := n\<rparr>
           in case rk_free k1 of
                None \<Rightarrow> (Inl EMFILE, k)
              | Some w \<Rightarrow> (Inr (int r, int w), rk_set (int w) (Some (Pipe_Write n)) k1)))"

text \<open>New pids are above the caller's and above those of all its children.\<close>

definition rk_new_pid :: "ref_kernel \<Rightarrow> int" where
  "rk_new_pid k = 1 + foldr max (map fst (rk_children k)) (max 1 (rk_pid k))"

definition rk_fork :: "(errno, int \<times> ref_kernel, ref_kernel) call" where
  "rk_fork k =
     (if length (rk_children k) < rk_nproc k
      then (let pid = rk_new_pid k
            in (Inr (pid, k\<lparr>rk_pid := pid, rk_ppid := rk_pid k, rk_children := [], rk_log := []\<rparr>),
                k\<lparr>rk_children := rk_children k @ [(pid, rk_pgid k, Alive)]\<rparr>))
      else (Inl EAGAIN, k))"

text \<open>The processes a call of kill(2) addresses: one, the caller's group, all, a group.\<close>

definition rk_addressed :: "int \<Rightarrow> int \<Rightarrow> int \<times> int \<times> child_state \<Rightarrow> bool" where
  "rk_addressed own pid = (\<lambda>(p, g, _).
     if pid > 0 then p = pid else if pid = 0 then g = own else if pid = - 1 then True else g = - pid)"

definition rk_hit :: "int \<Rightarrow> child_state \<Rightarrow> child_state" where
  "rk_hit sig st =
     (case st of Alive \<Rightarrow> if sig \<in> {1, 2, 3, 4, 6, 8, 9, 10, 11, 12, 13, 14, 15}
                          then Zombie (Ev_Signaled (word_of_int sig) False) else Alive
      | Zombie e \<Rightarrow> Zombie e)"

definition rk_kill :: "int \<Rightarrow> int \<Rightarrow> (errno, unit, ref_kernel) call" where
  "rk_kill pid sig k =
     (if (\<exists>c \<in> set (rk_children k). rk_addressed (rk_pgid k) pid c) \<or> pid = rk_pid k \<or> pid = 0
      then (Inr (), k\<lparr>rk_children := map (\<lambda>(p, g, st).
              (p, g, if rk_addressed (rk_pgid k) pid (p, g, st) then rk_hit sig st else st))
              (rk_children k), rk_log := rk_log k @ [(pid, sig)]\<rparr>)
      else (Inl ESRCH, k\<lparr>rk_log := rk_log k @ [(pid, sig)]\<rparr>))"

definition rk_getpgid :: "int \<Rightarrow> ref_kernel \<Rightarrow> errno + int" where
  "rk_getpgid pid k =
     (if pid = 0 \<or> pid = rk_pid k then Inr (rk_pgid k)
      else case map_of (rk_children k) pid of None \<Rightarrow> Inl ESRCH | Some (g, _) \<Rightarrow> Inr g)"

text \<open>waitpid(2): the first terminated child the call asks for is reported and forgotten.\<close>

definition rk_waitable :: "int \<Rightarrow> int \<Rightarrow> int \<times> int \<times> child_state \<Rightarrow> bool" where
  "rk_waitable own pid = (\<lambda>(p, g, st). 0 < p \<and> rk_addressed own pid (p, g, st))"

fun zombie_event :: "child_state \<Rightarrow> child_event option" where
  "zombie_event (Zombie (Ev_Exited c)) = Some (Ev_Exited c)"
| "zombie_event (Zombie (Ev_Signaled s core)) =
     (if s = 0 \<or> s = 0x7f then None else Some (Ev_Signaled s core))"
| "zombie_event _ = None"

definition rk_dead_of :: "int \<Rightarrow> int \<Rightarrow> int \<times> int \<times> child_state \<Rightarrow> (int \<times> 32 word) list" where
  "rk_dead_of own pid c =
     (if rk_waitable own pid c
      then case zombie_event (snd (snd c)) of None \<Rightarrow> [] | Some e \<Rightarrow> [(fst c, encode_status e)]
      else [])"

definition rk_dead_list :: "int \<Rightarrow> ref_kernel \<Rightarrow> (int \<times> 32 word) list" where
  "rk_dead_list pid k = concat (map (rk_dead_of (rk_pgid k) pid) (rk_children k))"

definition rk_waitpid :: "int \<Rightarrow> int \<Rightarrow> (errno, int \<times> 32 word, ref_kernel) call" where
  "rk_waitpid pid opts k =
     (case rk_dead_list pid k of
        (p, st) # _ \<Rightarrow> (Inr (p, st), k\<lparr>rk_children := filter (\<lambda>c. fst c \<noteq> p) (rk_children k)\<rparr>)
      | [] \<Rightarrow> if \<not> list_ex (rk_waitable (rk_pgid k) pid) (rk_children k) then (Inl ECHILD, k)
              else if odd opts then (Inr (0, 0), k) else (Inl EINTR, k))"

definition ref_api :: "ref_kernel api" where
  "ref_api =
     \<lparr>sys_pipe = rk_pipe, sys_dup = rk_dup, sys_dup2 = rk_dup2, sys_close = rk_close,
      sys_getpid = rk_pid, sys_getppid = rk_ppid, sys_getpgid = rk_getpgid,
      sys_fork = rk_fork, sys_kill = rk_kill, sys_waitpid = rk_waitpid\<rparr>"

lemma ref_api_simps [simp]:
  "sys_pipe ref_api = rk_pipe" "sys_dup ref_api = rk_dup" "sys_dup2 ref_api = rk_dup2"
  "sys_close ref_api = rk_close" "sys_getpid ref_api = rk_pid" "sys_getppid ref_api = rk_ppid"
  "sys_getpgid ref_api = rk_getpgid" "sys_fork ref_api = rk_fork" "sys_kill ref_api = rk_kill"
  "sys_waitpid ref_api = rk_waitpid"
  by (simp_all add: ref_api_def)

section \<open>The laws hold\<close>

lemma rk_free_Some: "rk_free k = Some n \<Longrightarrow> n < length (rk_fds k) \<and> rk_fds k ! n = None"
  by (auto simp: rk_free_def find_Some_iff)

lemma rk_fdt_set:
  "rk_fdt (rk_set fd d k) =
     (if 0 \<le> fd \<and> nat fd < length (rk_fds k) then (rk_fdt k)(fd := d) else rk_fdt k)"
  by (rule ext) (auto simp: rk_fdt_def rk_set_def nth_list_update list_update_beyond)

lemma rk_fdt_update [simp]:
  "rk_fdt (k\<lparr>rk_pipes := a\<rparr>) = rk_fdt k" "rk_fdt (k\<lparr>rk_children := c\<rparr>) = rk_fdt k"
  "rk_fdt (k\<lparr>rk_pid := p\<rparr>) = rk_fdt k" "rk_fdt (k\<lparr>rk_ppid := p\<rparr>) = rk_fdt k"
  "rk_fdt (k\<lparr>rk_log := l\<rparr>) = rk_fdt k"
  by (auto simp: rk_fdt_def)

lemma rk_set_other [simp]:
  "length (rk_fds (rk_set fd d k)) = length (rk_fds k)" "rk_pid (rk_set fd d k) = rk_pid k"
  by (auto simp: rk_set_def)

lemma foldr_max_ge: "x \<in> set xs \<Longrightarrow> (x :: 'a :: linorder) \<le> foldr max xs a"
  by (induction xs) (auto simp: max.coboundedI2)

lemma foldr_max_ge_init: "(a :: 'a :: linorder) \<le> foldr max xs a"
  by (induction xs) (auto simp: max.coboundedI2)

lemma rk_fresh_pipe:
  assumes "rk_fdt k fd = Some d"
  shows "d \<noteq> Pipe_Read (rk_fresh_pipe k) \<and> d \<noteq> Pipe_Write (rk_fresh_pipe k)"
proof -
  from assms have "Some d \<in> set (rk_fds k)"
    by (auto simp: rk_fdt_def in_set_conv_nth split: if_splits)
  then have "desc_pipe (Some d) \<le> foldr max (map desc_pipe (rk_fds k)) (rk_pipes k)"
    by (intro foldr_max_ge) auto
  then have "desc_pipe (Some d) < rk_fresh_pipe k" by (simp add: rk_fresh_pipe_def)
  then show ?thesis by auto
qed

lemma rk_pipe_ok:
  assumes "rk_pipe k = (Inr (r, w), k')"
  shows "0 \<le> r \<and> 0 \<le> w \<and> r \<noteq> w \<and> rk_fdt k r = None \<and> rk_fdt k w = None \<and>
      (\<exists>n. Pipe_Read n \<notin> ran (rk_fdt k) \<and> Pipe_Write n \<notin> ran (rk_fdt k) \<and>
           rk_fdt k' = (rk_fdt k)(r \<mapsto> Pipe_Read n, w \<mapsto> Pipe_Write n))"
proof -
  let ?n = "rk_fresh_pipe k"
  from assms obtain r' w' where rw: "r = int r'" "w = int w'" and r': "rk_free k = Some r'"
    and w': "rk_free ((rk_set (int r') (Some (Pipe_Read ?n)) k)\<lparr>rk_pipes := ?n\<rparr>) = Some w'"
    and k': "k' = rk_set w (Some (Pipe_Write ?n)) ((rk_set r (Some (Pipe_Read ?n)) k)\<lparr>rk_pipes := ?n\<rparr>)"
    by (auto simp: rk_pipe_def Let_def split: option.splits)
  note fr = rk_free_Some [OF r'] and fw = rk_free_Some [OF w']
  from fw have w_len: "w' < length (rk_fds k)" by simp
  from fr fw have neq: "r' \<noteq> w'" by (auto simp: rk_set_def)
  with fw have "rk_fds k ! w' = None" by (auto simp: rk_set_def)
  moreover from fr w_len k' have "rk_fdt k' = (rk_fdt k)(r \<mapsto> Pipe_Read ?n, w \<mapsto> Pipe_Write ?n)"
    by (simp add: rw rk_fdt_set)
  moreover have "Pipe_Read ?n \<notin> ran (rk_fdt k)" and "Pipe_Write ?n \<notin> ran (rk_fdt k)"
    using rk_fresh_pipe by (auto simp: ran_def)
  ultimately show ?thesis using fr neq rw by (auto simp: rk_fdt_def)
qed

lemma rk_dup_ok:
  "rk_dup fd k = (Inr n, k') \<Longrightarrow>
     0 \<le> n \<and> rk_fdt k n = None \<and> fd \<in> dom (rk_fdt k) \<and> rk_fdt k' = (rk_fdt k)(n := rk_fdt k fd)"
  by (auto simp: rk_dup_def rk_fdt_set split: option.splits dest!: rk_free_Some)
    (auto simp: rk_fdt_def)

lemma rk_close_fdt: "rk_fdt (snd (rk_close fd k)) = (rk_fdt k)(fd := None)"
proof (cases "rk_fdt k fd")
  case None
  then show ?thesis by (simp add: rk_close_def) (metis fun_upd_triv)
next
  case (Some d)
  then have "0 \<le> fd \<and> nat fd < length (rk_fds k)" by (auto simp: rk_fdt_def split: if_splits)
  with Some show ?thesis by (simp add: rk_close_def rk_fdt_set)
qed

lemma rk_new_pid: "0 < rk_new_pid k \<and> rk_new_pid k \<noteq> rk_pid k"
  using foldr_max_ge_init [of "max 1 (rk_pid k)" "map fst (rk_children k)"]
  by (simp add: rk_new_pid_def)

interpretation rk: proc_kernel ref_api rk_fdt
proof
  fix k k' kc :: ref_kernel and fd s n r w pid :: int and e d sig opts
  show "rk_fdt k fd = Some d \<Longrightarrow> 0 \<le> fd" by (simp add: rk_fdt_def split: if_splits)
  show "sys_pipe ref_api k = (Inl e, k') \<Longrightarrow> rk_fdt k' = rk_fdt k"
    by (auto simp: rk_pipe_def Let_def split: option.splits)
  show "sys_dup ref_api fd k = (Inl e, k') \<Longrightarrow> rk_fdt k' = rk_fdt k"
    by (auto simp: rk_dup_def split: option.splits)
  show "sys_dup2 ref_api fd s k = (Inr n, k') \<Longrightarrow>
      n = s \<and> fd \<in> dom (rk_fdt k) \<and> rk_fdt k' = (rk_fdt k)(s := rk_fdt k fd)"
    by (auto simp: rk_dup2_def rk_fdt_set split: option.splits if_splits)
  show "sys_dup2 ref_api fd s k = (Inl e, k') \<Longrightarrow> rk_fdt k' = rk_fdt k"
    by (auto simp: rk_dup2_def split: option.splits if_splits)
  show "sys_fork ref_api k = (Inr (pid, kc), k') \<Longrightarrow>
      0 < pid \<and> rk_fdt kc = rk_fdt k \<and> rk_fdt k' = rk_fdt k"
    using rk_new_pid [of k] by (auto simp: rk_fork_def Let_def split: if_splits)
  show "sys_fork ref_api k = (Inl e, k') \<Longrightarrow> rk_fdt k' = rk_fdt k"
    by (auto simp: rk_fork_def Let_def split: if_splits)
  show "rk_fdt (snd (sys_kill ref_api pid sig k)) = rk_fdt k" by (simp add: rk_kill_def)
  show "rk_fdt (snd (sys_waitpid ref_api pid opts k)) = rk_fdt k"
    by (simp add: rk_waitpid_def split: list.splits)
  show "sys_getpid ref_api (snd (sys_dup ref_api fd k)) = sys_getpid ref_api k"
    by (simp add: rk_dup_def split: option.splits)
  show "sys_getpid ref_api (snd (sys_close ref_api fd k)) = sys_getpid ref_api k"
    by (simp add: rk_close_def split: option.splits)
  show "sys_getpid ref_api (snd (sys_kill ref_api pid sig k)) = sys_getpid ref_api k"
    by (simp add: rk_kill_def)
  show "sys_getpid ref_api (snd (sys_waitpid ref_api pid opts k)) = sys_getpid ref_api k"
    by (simp add: rk_waitpid_def split: list.splits)
  show "sys_fork ref_api k = (Inr (pid, kc), k') \<Longrightarrow>
      sys_getpid ref_api k' = sys_getpid ref_api k \<and> sys_getpid ref_api kc = pid \<and>
      pid \<noteq> sys_getpid ref_api k"
    using rk_new_pid [of k] by (auto simp: rk_fork_def Let_def split: if_splits)
qed (simp_all add: rk_pipe_ok rk_dup_ok rk_close_fdt)

text \<open>The table's size is the limit on descriptors; a table with fewer entries has a free one.\<close>

lemma rk_fdt_dom: "dom (rk_fdt k) = int ` {i. i < length (rk_fds k) \<and> rk_fds k ! i \<noteq> None}"
proof (intro set_eqI iffI)
  fix fd assume "fd \<in> dom (rk_fdt k)"
  then have "0 \<le> fd \<and> nat fd < length (rk_fds k) \<and> rk_fds k ! nat fd \<noteq> None"
    by (auto simp: rk_fdt_def split: if_splits)
  then show "fd \<in> int ` {i. i < length (rk_fds k) \<and> rk_fds k ! i \<noteq> None}"
    by (intro image_eqI [of _ _ "nat fd"]) auto
qed (auto simp: rk_fdt_def)

lemma rk_free_room: "card (dom (rk_fdt k)) < length (rk_fds k) \<Longrightarrow> rk_free k \<noteq> None"
proof
  assume less: "card (dom (rk_fdt k)) < length (rk_fds k)" and "rk_free k = None"
  then have "{i. i < length (rk_fds k) \<and> rk_fds k ! i \<noteq> None} = {..<length (rk_fds k)}"
    by (auto simp: rk_free_def find_None_iff)
  then have "card (dom (rk_fdt k)) = length (rk_fds k)"
    by (simp add: rk_fdt_dom card_image)
  with less show False by simp
qed

interpretation rk: fd_limit ref_api rk_fdt "\<lambda>k. length (rk_fds k)"
proof
  fix k :: ref_kernel and fd :: int
  show "finite (dom (rk_fdt k))" by (simp add: rk_fdt_dom)
  show "fd \<in> dom (rk_fdt k) \<Longrightarrow> card (dom (rk_fdt k)) < length (rk_fds k) \<Longrightarrow> \<not> isl (fst (sys_dup ref_api fd k))"
    using rk_free_room [of k] by (auto simp: rk_dup_def split: option.splits)
qed (auto simp: rk_pipe_def rk_dup_def rk_close_def rk_fork_def Let_def split: option.splits)

interpretation rk: kill_log ref_api rk_fdt rk_log
  by unfold_locales
    (auto simp: rk_pipe_def rk_dup_def rk_close_def rk_fork_def rk_kill_def rk_waitpid_def rk_set_def Let_def
      split: option.splits list.splits)

section \<open>Reaping\<close>

definition rk_dead :: "ref_kernel \<Rightarrow> int \<rightharpoonup> 32 word" where
  "rk_dead k = map_of (rk_dead_list 0 k)"

lemma zombie_event_terminated:
  assumes "zombie_event st = Some e"
  shows "terminated (encode_status e)"
proof (cases st rule: zombie_event.cases)
  case (1 c)
  with assms show ?thesis by (auto simp: terminated_def WIFEXITED_def WTERMSIG_encode simp del: encode_status.simps)
next
  case (2 s core)
  with assms have s: "s \<noteq> 0" "s \<noteq> 0x7f" and e: "e = Ev_Signaled s core"
    by (auto split: if_splits)
  have inj: "s = t" if eq: "(ucast s :: 32 word) = ucast t" for t
  proof (rule bit_word_eqI)
    fix n assume "n < LENGTH(7)"
    moreover from eq have "bit (ucast s :: 32 word) n = bit (ucast t :: 32 word) n" by simp
    ultimately show "bit s n = bit t n" by (simp add: bit_simps)
  qed
  have "WTERMSIG (encode_status e) \<noteq> 0" and "WTERMSIG (encode_status e) \<noteq> 0x7f"
    using s inj [of 0] inj [of "0x7f"] by (auto simp: e WTERMSIG_encode simp del: encode_status.simps)
  then show ?thesis by (simp add: terminated_def WIFSIGNALED_iff)
qed (use assms in auto)

lemma in_rk_dead_list:
  "(p, st) \<in> set (rk_dead_list pid k) \<Longrightarrow> 0 < p \<and> terminated st"
  by (auto simp: rk_dead_list_def rk_dead_of_def rk_waitable_def zombie_event_terminated
      split: option.splits if_splits)

lemma filter_rk_dead_of:
  "filter (\<lambda>x. fst x \<noteq> p) (rk_dead_of own pid c) = (if fst c = p then [] else rk_dead_of own pid c)"
  by (unfold rk_dead_of_def) (cases "rk_waitable own pid c"; cases "zombie_event (snd (snd c))"; simp)

lemma rk_dead_list_reaped:
  "rk_dead_list pid (k\<lparr>rk_children := filter (\<lambda>c. fst c \<noteq> p) (rk_children k)\<rparr>) =
     filter (\<lambda>x. fst x \<noteq> p) (rk_dead_list pid k)"
proof -
  have "concat (map (rk_dead_of own pid) (filter (\<lambda>c. fst c \<noteq> p) cs)) =
      filter (\<lambda>x. fst x \<noteq> p) (concat (map (rk_dead_of own pid) cs))" for own cs
    by (induction cs) (simp_all add: filter_rk_dead_of)
  then show ?thesis by (simp add: rk_dead_list_def)
qed

lemma map_of_filter_neq: "map_of (filter (\<lambda>x. fst x \<noteq> p) xs) = (map_of xs)(p := None)"
  by (induction xs) (auto simp: fun_eq_iff)

interpretation rk: wait_kernel ref_api rk_dead
proof
  fix k k' :: ref_kernel and pid st e
  show "finite (dom (rk_dead k))" by (simp add: rk_dead_def finite_dom_map_of)
  show "rk_dead k pid = Some st \<Longrightarrow> terminated st \<and> 0 < pid"
    by (auto simp: rk_dead_def dest!: map_of_SomeD in_rk_dead_list)
  show "sys_waitpid ref_api 0 WNOHANG k = (Inr (pid, st), k') \<Longrightarrow> pid \<noteq> 0 \<Longrightarrow>
      rk_dead k pid = Some st \<and> rk_dead k' = (rk_dead k)(pid := None)"
    by (auto simp: rk_waitpid_def rk_dead_def rk_dead_list_reaped map_of_filter_neq
        split: list.splits if_splits)
  show "sys_waitpid ref_api 0 WNOHANG k = (Inr (0, st), k') \<Longrightarrow>
      rk_dead k = Map.empty \<and> rk_dead k' = Map.empty"
    using in_rk_dead_list [of 0 st 0 k]
    by (auto simp: rk_waitpid_def rk_dead_def split: list.splits if_splits)
  show "sys_waitpid ref_api 0 WNOHANG k = (Inl e, k') \<Longrightarrow>
      e = ECHILD \<and> rk_dead k = Map.empty \<and> rk_dead k' = Map.empty"
    by (auto simp: rk_waitpid_def rk_dead_def WNOHANG_def split: list.splits if_splits)
qed

text \<open>What is known of one pid.\<close>

definition rk_kid :: "ref_kernel \<Rightarrow> int \<rightharpoonup> 32 word option" where
  "rk_kid k pid =
     (if pid \<le> 0 then None
      else case rk_dead_list pid k of
        (p, st) # _ \<Rightarrow> Some (Some st)
      | [] \<Rightarrow> if list_ex (rk_waitable (rk_pgid k) pid) (rk_children k) then Some None else None)"

lemma rk_dead_list_pid: "0 < pid \<Longrightarrow> (p, st) \<in> set (rk_dead_list pid k) \<Longrightarrow> p = pid"
  by (auto simp: rk_dead_list_def rk_dead_of_def rk_waitable_def rk_addressed_def split: option.splits if_splits)

lemma rk_kid_reaped:
  assumes "0 < pid"
  shows "rk_kid (k\<lparr>rk_children := filter (\<lambda>c. fst c \<noteq> pid) (rk_children k)\<rparr>) = (rk_kid k)(pid := None)" (is "rk_kid ?k = _")
proof
  fix q
  show "rk_kid ?k q = ((rk_kid k)(pid := None)) q"
  proof (cases "q \<le> 0")
    case False
    have keep: "filter (\<lambda>x. fst x \<noteq> pid) (rk_dead_list q k) = (if q = pid then [] else rk_dead_list q k)"
    proof -
      have "fst x = q" if "x \<in> set (rk_dead_list q k)" for x
        using rk_dead_list_pid [of q "fst x" "snd x" k] False that by simp
      then show ?thesis by (auto simp: filter_id_conv filter_empty_conv)
    qed
    have "list_ex (rk_waitable (rk_pgid k) q) (filter (\<lambda>c. fst c \<noteq> pid) (rk_children k)) \<longleftrightarrow>
        q \<noteq> pid \<and> list_ex (rk_waitable (rk_pgid k) q) (rk_children k)"
    proof -
      have w: "rk_waitable (rk_pgid k) q = (\<lambda>c. fst c = q)"
        using False by (auto simp: fun_eq_iff rk_waitable_def rk_addressed_def)
      show ?thesis unfolding w list_ex_iff set_filter by blast
    qed
    with False keep show ?thesis
      by (cases "q = pid") (simp_all add: rk_kid_def rk_dead_list_reaped split: list.split)
  qed (use assms in \<open>auto simp: rk_kid_def\<close>)
qed

interpretation rk: wait_one_kernel ref_api rk_kid
proof
  fix k :: ref_kernel and pid :: int and st
  assume pid: "0 < pid"
  show "rk_kid k pid = Some None \<Longrightarrow> \<exists>st k'. sys_waitpid ref_api pid WNOHANG k = (Inr (0, st), k') \<and> rk_kid k' = rk_kid k"
    and "rk_kid k pid = None \<Longrightarrow> \<exists>k'. sys_waitpid ref_api pid WNOHANG k = (Inl ECHILD, k') \<and> rk_kid k' = rk_kid k"
    using pid by (auto simp: rk_kid_def [of k pid] rk_waitpid_def WNOHANG_def split: list.splits if_splits)
  assume dead: "rk_kid k pid = Some (Some st)"
  then obtain p ps where l: "rk_dead_list pid k = (p, st) # ps"
    using pid by (auto simp: rk_kid_def split: list.splits if_splits)
  with rk_dead_list_pid [OF pid, of p st k] have "p = pid" by simp
  with l rk_kid_reaped [OF pid]
  show "\<exists>k'. sys_waitpid ref_api pid WNOHANG k = (Inr (pid, st), k') \<and> rk_kid k' = (rk_kid k)(pid := None)"
    by (simp add: rk_waitpid_def)
qed

section \<open>A concrete process\<close>

text \<open>
  Process 100, child of 50, in group 100, with the three standard descriptors open and
  room for \<open>n\<close> descriptors and eight children.
\<close>

definition ref_boot :: "nat \<Rightarrow> ref_kernel" where
  "ref_boot n =
     \<lparr>rk_fds = map (\<lambda>i. if i < 3 then Some (Other_Desc i) else None) [0..<n], rk_pipes = 0,
      rk_pid = 100, rk_ppid = 50, rk_pgid = 100, rk_children = [], rk_nproc = 8, rk_log = []\<rparr>"

end
