(* ===== verification/Process_Model.thy ===== *)
theory Process_Model
  imports Signals Ref_Kernel
begin

text \<open>
  \<open>Process\<close> and \<open>ProcessGroup\<close> (\<open>process.h\<close>, \<open>process.cpp\<close>, \<open>process_group.h\<close>,
  \<open>process_group.cpp\<close>) and the process accessors of \<open>this_process.cpp\<close>. Both classes
  derive from \<open>Signalable\<close>, so both records extend its record. What a call of kill(2)
  addresses is the specification \<open>kill_addressee\<close> of the manual page, against which the
  integer each class hands to kill is checked.
\<close>

section \<open>Process and ProcessGroup\<close>

record Process = Signalable +
  proc_pid :: int

record ProcessGroup = Signalable +
  group_id :: int

definition Process_ctor :: "int \<Rightarrow> exn + Process" where
  "Process_ctor pid =
     (if pid < 0 then Inl (Runtime_Error ''Cannot construct instance for invalid pid.'')
      else Inr (Signalable.extend (Signalable_ctor pid) (Process.fields pid)))"

text \<open>\<open>Process::invalid\<close> builds a process for pid 0 and then overwrites its own copy of it.\<close>

definition Process_invalid :: "exn + Process" where
  "Process_invalid =
     (case Process_ctor 0 of Inl e \<Rightarrow> Inl e | Inr p \<Rightarrow> Inr (p\<lparr>proc_pid := - 1\<rparr>))"

definition Process_pid :: "'a Process_scheme \<Rightarrow> int" where
  "Process_pid p = proc_pid p"

text \<open>kill(2) takes a negated group id.\<close>

definition ProcessGroup_ctor :: "int \<Rightarrow> ProcessGroup" where
  "ProcessGroup_ctor gid = Signalable.extend (Signalable_ctor (- gid)) (ProcessGroup.fields gid)"

definition process_group_or_throw :: "'k api \<Rightarrow> 'a Process_scheme \<Rightarrow> 'k \<Rightarrow> exn + ProcessGroup" where
  "process_group_or_throw K p k =
     (case sys_getpgid K (Process_pid p) k of
        Inl errno \<Rightarrow> Inl (System_Error errno)
      | Inr pgid \<Rightarrow> Inr (ProcessGroup_ctor pgid))"

text \<open>On failure getpgid(2) returns -1, and the non-throwing variant goes on with it.\<close>

definition process_group ::
  "'k api \<Rightarrow> 'a Process_scheme \<Rightarrow> error_code \<Rightarrow> 'k \<Rightarrow> ProcessGroup \<times> error_code" where
  "process_group K p se k =
     (case sys_getpgid K (Process_pid p) k of
        Inl errno \<Rightarrow> (ProcessGroup_ctor (- 1), Some errno)
      | Inr pgid \<Rightarrow> (ProcessGroup_ctor pgid, se))"

section \<open>this_process\<close>

text \<open>
  \<open>instance()\<close> keeps its result in a function-local static: the first call stores it, every
  later call, in this process or in one forked from it, returns the stored value.
\<close>

definition this_process_instance ::
  "'k api \<Rightarrow> Process option \<Rightarrow> 'k \<Rightarrow> (exn + Process) \<times> Process option" where
  "this_process_instance K self k =
     (case self of
        Some p \<Rightarrow> (Inr p, self)
      | None \<Rightarrow> (case Process_ctor (sys_getpid K k) of
            Inl e \<Rightarrow> (Inl e, None)
          | Inr p \<Rightarrow> (Inr p, Some p)))"

definition this_process_parent :: "'k api \<Rightarrow> 'k \<Rightarrow> exn + Process" where
  "this_process_parent K k = Process_ctor (sys_getppid K k)"

section \<open>What is addressed\<close>

lemma Process_ctor_simps [simp]:
  "pid < 0 \<Longrightarrow> Process_ctor pid = Inl (Runtime_Error ''Cannot construct instance for invalid pid.'')"
  "0 \<le> pid \<Longrightarrow> Process_ctor pid = Inr \<lparr>sig_pid = pid, proc_pid = pid\<rparr>"
  by (simp_all add: Process_ctor_def Signalable_ctor_def Signalable.defs Process.defs)

lemma ProcessGroup_ctor_simps [simp]:
  "sig_pid (ProcessGroup_ctor g) = - g" "group_id (ProcessGroup_ctor g) = g"
  by (simp_all add: ProcessGroup_ctor_def Signalable_ctor_def Signalable.defs ProcessGroup.defs)

datatype addressee = To_Process int | To_Own_Group | To_Everyone | To_Group int

definition kill_addressee :: "int \<Rightarrow> addressee" where
  "kill_addressee n =
     (if 0 < n then To_Process n else if n = 0 then To_Own_Group
      else if n = - 1 then To_Everyone else To_Group (- n))"

lemma Process_ctor_iff [run_iff]:
  "Process_ctor n = Inr p \<longleftrightarrow> 0 \<le> n \<and> p = \<lparr>sig_pid = n, proc_pid = n\<rparr>"
  by (cases "n < 0") auto

text \<open>
  A \<open>Process\<close> is built exactly for a non-negative pid, and otherwise the constructor
  throws \<open>std::runtime_error\<close>; it reports the pid it was built for, and for a positive pid
  its signals address that process and no other.
\<close>

theorem process_ctor_addresses_itself:
  "case Process_ctor n of
     Inl e \<Rightarrow> n < 0 \<and> e = Runtime_Error ''Cannot construct instance for invalid pid.''
   | Inr p \<Rightarrow> 0 \<le> n \<and> Process_pid p = n \<and>
       kill_addressee (sig_pid p) = (if n = 0 then To_Own_Group else To_Process n)"
  by (cases "n < 0") (simp_all add: Process_pid_def kill_addressee_def)

text \<open>
  Looking up the process group of a process. When getpgid(2) succeeds with a group id
  above 1, both variants return that group and its signals address the group. When it
  fails, one variant throws and the other reports the error, but returns a group whose
  signals address process 1.
\<close>

theorem process_group_lookup:
  "case sys_getpgid K (Process_pid p) k of
     Inr g \<Rightarrow> process_group_or_throw K p k = Inr (fst (process_group K p se k)) \<and>
       group_id (fst (process_group K p se k)) = g \<and> snd (process_group K p se k) = se \<and>
       kill_addressee (sig_pid (fst (process_group K p se k))) =
         (if g > 1 then To_Group g else if g = 1 then To_Everyone
          else if g = 0 then To_Own_Group else To_Process (- g))
   | Inl err \<Rightarrow> process_group_or_throw K p k = Inl (System_Error err) \<and>
       snd (process_group K p se k) = Some err \<and>
       kill_addressee (sig_pid (fst (process_group K p se k))) = To_Process 1"
  by (simp add: process_group_or_throw_def process_group_def kill_addressee_def split: sum.split)

text \<open>
  The instance \<open>Process::invalid()\<close> returns reports pid -1, so that every group lookup
  for it asks about pid -1; a signal sent to it goes to the caller's whole process group.
\<close>

theorem process_invalid_addresses_own_group:
  "\<exists>p. Process_invalid = Inr p \<and> Process_pid p = - 1 \<and> kill_addressee (sig_pid p) = To_Own_Group \<and>
     fst (send_signal_or_throw K p s k) =
       (case fst (sys_kill K 0 (signo s) k) of Inl e \<Rightarrow> Inl (System_Error e) | Inr _ \<Rightarrow> Inr ())"
  by (simp add: Process_invalid_def Process_pid_def kill_addressee_def
      send_signal_or_throw_def split: prod.split sum.split)

text \<open>
  \<open>this_process::instance()\<close> reports the pid of the process that called it first. In a
  child forked after that call it still returns the parent, not the process it is called
  in.
\<close>

theorem this_process_instance_stale_after_fork:
  assumes "proc_kernel K fdt"
    and "this_process_instance K None k = (Inr p, self)"
    and "sys_fork K k = (Inr (cpid, kc), k')"
  shows "Process_pid p = sys_getpid K k \<and> this_process_instance K self k' = (Inr p, self) \<and>
    Process_pid p = sys_getpid K k' \<and>
    this_process_instance K self kc = (Inr p, self) \<and> Process_pid p \<noteq> sys_getpid K kc"
proof -
  from assms(2) have "self = Some p" and "Process_pid p = sys_getpid K k"
    by (auto simp: this_process_instance_def Process_pid_def run_iff split: sum.splits)
  moreover from proc_kernel.getpid_fork [OF assms(1,3)]
  have "sys_getpid K k' = sys_getpid K k" and "sys_getpid K kc \<noteq> sys_getpid K k" by auto
  ultimately show ?thesis by (simp add: this_process_instance_def)
qed

theorem this_process_instance_stale_after_fork_witness:
  "\<exists>p self cpid kc k'. this_process_instance ref_api None (ref_boot 8) = (Inr p, self) \<and>
     sys_fork ref_api (ref_boot 8) = (Inr (cpid, kc), k') \<and>
     this_process_instance ref_api self kc = (Inr p, self) \<and> Process_pid p = 100 \<and> sys_getpid ref_api kc = 101"
proof -
  let ?p = "\<lparr>sig_pid = 100, proc_pid = 100\<rparr> :: Process"
  have i: "this_process_instance ref_api None (ref_boot 8) = (Inr ?p, Some ?p)"
    by (simp add: this_process_instance_def ref_boot_def)
  obtain cpid kc k' where f: "sys_fork ref_api (ref_boot 8) = (Inr (cpid, kc), k')"
    and "sys_getpid ref_api kc = 101"
    by (simp add: rk_fork_def rk_new_pid_def ref_boot_def Let_def)
  with this_process_instance_stale_after_fork [OF rk.proc_kernel_axioms i f] i show ?thesis
    by (auto simp: Process_pid_def)
qed

end
