(* ===== verification/Wait.thy ===== *)
theory Wait
  imports Process_Model Bit_Flags
begin

text \<open>
  \<open>wait.h\<close>, \<open>wait.cpp\<close>, \<open>exit.h\<close> and \<open>ChildProcess::wait_for\<close> of \<open>child_process.cpp\<close>:
  the flags of a wait, the result it reports, and the decoding of the status word
  waitpid(2) delivers.
\<close>

section \<open>Flags, exit status, results\<close>

type_synonym wait_Flags = "8 word"

definition wait_continued :: wait_Flags where "wait_continued = 8"
definition wait_untraced :: wait_Flags where "wait_untraced = 2"
definition wait_no_hang :: wait_Flags where "wait_no_hang = 1"

definition wait_or :: "wait_Flags \<Rightarrow> wait_Flags \<Rightarrow> wait_Flags" where
  "wait_or l r = l OR r"

text \<open>Casts between \<open>int\<close> and the enumeration are the identity on the underlying integer.\<close>

datatype exit_Status = Exit_Status (exit_int: int)

definition exit_success :: exit_Status where "exit_success = Exit_Status 0"
definition exit_failure :: exit_Status where "exit_failure = Exit_Status 1"

datatype wait_Status = undefined_status | no_state_change | exited | signaled | stopped | continued

text \<open>The union of result details, by the member that was written last.\<close>

datatype wait_detail =
    No_Detail
  | If_Exited exit_Status
  | If_Signaled Signal bool
  | If_Stopped Signal

record wait_Result =
  wr_status :: wait_Status
  wr_detail :: wait_detail

definition wait_Result_default :: wait_Result where
  "wait_Result_default = \<lparr>wr_status = undefined_status, wr_detail = No_Detail\<rparr>"

section \<open>ChildProcess::wait_for\<close>

definition wait_decode :: "32 word \<Rightarrow> wait_Result" where
  "wait_decode status =
     (if WIFEXITED status
      then \<lparr>wr_status = exited, wr_detail = If_Exited (Exit_Status (sint (WEXITSTATUS status)))\<rparr>
      else if WIFSIGNALED status
      then \<lparr>wr_status = signaled,
            wr_detail = If_Signaled (Signal (sint (WTERMSIG status))) (WCOREDUMP status \<noteq> 0)\<rparr>
      else if WIFSTOPPED status
      then \<lparr>wr_status = stopped, wr_detail = If_Stopped (Signal (sint (WSTOPSIG status)))\<rparr>
      else if WIFCONTINUED status
      then wait_Result_default\<lparr>wr_status := continued\<rparr>
      else wait_Result_default)"

definition wait_for :: "'k api \<Rightarrow> 'a Process_scheme \<Rightarrow> wait_Flags \<Rightarrow> (exn, wait_Result, 'k) call" where
  "wait_for K p flags k =
     (case sys_waitpid K (Process_pid p) (uint flags) k of
        (Inl errno, k') \<Rightarrow> (Inl (System_Error errno), k')
      | (Inr (result_pid, status), k') \<Rightarrow>
          if result_pid = 0
          then (Inr (wait_Result_default\<lparr>wr_status := no_state_change\<rparr>), k')
          else (Inr (wait_decode status), k'))"

section \<open>Properties\<close>

interpretation wf: bit_flags wait_or "\<lambda>a f. a AND f \<noteq> 0" 0
  "[wait_continued, wait_untraced, wait_no_hang]"
  by unfold_locales
    (auto simp: wait_or_def or_and_zero wait_continued_def wait_untraced_def wait_no_hang_def)

text \<open>What an event of a child should be reported as.\<close>

fun report :: "child_event \<Rightarrow> wait_Result" where
  "report (Ev_Exited c) = \<lparr>wr_status = exited, wr_detail = If_Exited (Exit_Status (uint c))\<rparr>"
| "report (Ev_Signaled s core) =
     \<lparr>wr_status = signaled, wr_detail = If_Signaled (Signal (uint s)) core\<rparr>"
| "report (Ev_Stopped s) = \<lparr>wr_status = stopped, wr_detail = If_Stopped (Signal (uint s))\<rparr>"
| "report Ev_Continued = \<lparr>wr_status = continued, wr_detail = No_Detail\<rparr>"

text \<open>The events that have a status word: a terminating signal is one of 1 to 126.\<close>

fun event_ok :: "child_event \<Rightarrow> bool" where
  "event_ok (Ev_Signaled s core) \<longleftrightarrow> s \<noteq> 0 \<and> s \<noteq> 0x7f"
| "event_ok _ \<longleftrightarrow> True"

lemma sint_ucast_small [simp]:
  "sint (ucast (c :: 8 word) :: 32 word) = uint c" "sint (ucast (s :: 7 word) :: 32 word) = uint s"
proof -
  have "uint c < 2 ^ 31" and "uint s < 2 ^ 31"
    using uint_lt2p [of c] uint_lt2p [of s] by simp_all
  moreover have "- (2 ^ 31) \<le> uint c" and "- (2 ^ 31) \<le> uint s"
    by (rule order_trans [OF _ unsigned_greater_eq], simp)+
  ultimately show "sint (ucast c :: 32 word) = uint c" and "sint (ucast s :: 32 word) = uint s"
    by (simp_all add: sint_uint unsigned_ucast_eq take_bit_int_eq_self signed_take_bit_int_eq_self)
qed

lemma ucast_7_inj: "(ucast (s :: 7 word) :: 32 word) = ucast t \<longleftrightarrow> s = t"
  by (metis sint_ucast_small(2) unsigned_word_eqI)

lemma WTERMSIG_not_stopped:
  assumes "event_ok (Ev_Signaled s core)"
  shows "WTERMSIG (encode_status (Ev_Signaled s core)) \<noteq> 0"
    and "WTERMSIG (encode_status (Ev_Signaled s core)) \<noteq> 0x7f"
  using assms ucast_7_inj [of s 0] ucast_7_inj [of s "0x7f"]
  by (auto simp: WTERMSIG_encode simp del: encode_status.simps)

lemma wait_decode_encode:
  assumes "event_ok ev"
  shows "wait_decode (encode_status ev) = report ev"
proof (cases ev)
  case (Ev_Exited c)
  then show ?thesis
    by (simp add: wait_decode_def WIFEXITED_def WTERMSIG_encode WEXITSTATUS_encode
        del: encode_status.simps)
next
  case (Ev_Signaled s core)
  with assms WTERMSIG_not_stopped [of s core]
  show ?thesis
    by (simp add: wait_decode_def WIFEXITED_def WIFSIGNALED_iff WCOREDUMP_encode
        del: encode_status.simps) (simp add: WTERMSIG_encode del: encode_status.simps)
next
  case (Ev_Stopped s)
  then show ?thesis
    by (simp add: wait_decode_def WIFEXITED_def WIFSIGNALED_iff WTERMSIG_encode
        WIFSTOPPED_encode WSTOPSIG_def WEXITSTATUS_encode del: encode_status.simps)
next
  case Ev_Continued
  then show ?thesis
    by (simp add: wait_decode_def WIFEXITED_def WIFSIGNALED_iff WTERMSIG_def WIFSTOPPED_def
        WIFCONTINUED_def wait_Result_default_def)
qed

text \<open>
  C6: \<open>wait_for\<close> on every outcome of waitpid(2). An error is thrown as \<open>std::system_error\<close>;
  0 is reported as no state change; otherwise the child's exit code, its terminating signal
  and core dump, its stopping signal or its resumption is reported exactly as the kernel
  encoded it in the status word: the four tests are tried in an order in which no event is
  mistaken for another. The kernel state is the one waitpid left.
\<close>

theorem wait_for_reports:
  assumes "sys_waitpid K (Process_pid p) (uint flags) k = (r, k')"
    and "case r of Inl _ \<Rightarrow> True
      | Inr (n, status) \<Rightarrow> n \<noteq> 0 \<longrightarrow> event_ok ev \<and> status = encode_status ev"
  shows "wait_for K p flags k =
    (case r of
       Inl e \<Rightarrow> (Inl (System_Error e), k')
     | Inr (n, _) \<Rightarrow>
         (Inr (if n = 0 then \<lparr>wr_status = no_state_change, wr_detail = No_Detail\<rparr> else report ev), k'))"
  using assms
  by (auto simp: wait_for_def wait_Result_default_def wait_decode_encode split: sum.splits)

theorem wait_for_reports_witness:
  "fst (wait_for ref_api \<lparr>sig_pid = 101, proc_pid = 101\<rparr> wait_untraced
     ((ref_boot 8)\<lparr>rk_children := [(101, 100, Zombie (Ev_Signaled 11 True))]\<rparr>)) =
   Inr \<lparr>wr_status = signaled, wr_detail = If_Signaled sig_segv True\<rparr>"
proof -
  let ?k = "(ref_boot 8)\<lparr>rk_children := [(101, 100, Zombie (Ev_Signaled 11 True))]\<rparr>"
  let ?p = "\<lparr>sig_pid = 101, proc_pid = 101\<rparr> :: Process"
  have "sys_waitpid ref_api (Process_pid ?p) (uint wait_untraced) ?k =
      (Inr (101, encode_status (Ev_Signaled 11 True)), ?k\<lparr>rk_children := []\<rparr>)"
    by (simp add: Process_pid_def rk_waitpid_def rk_dead_list_def rk_dead_of_def rk_waitable_def
        rk_addressed_def ref_boot_def)
  from wait_for_reports [OF this, of "Ev_Signaled 11 True"] show ?thesis
    by (simp add: sig_segv_def)
qed

text \<open>
  A result is well-typed when the member of the union that was written is the one its status
  names, and what it holds is in the range of the bits it was taken from.
\<close>

fun result_typed :: "wait_Status \<Rightarrow> wait_detail \<Rightarrow> bool" where
  "result_typed exited (If_Exited st) \<longleftrightarrow> exit_int st \<in> {0..255}"
| "result_typed signaled (If_Signaled sig core) \<longleftrightarrow> signo sig \<in> {1..126}"
| "result_typed stopped (If_Stopped sig) \<longleftrightarrow> signo sig \<in> {0..255}"
| "result_typed continued No_Detail \<longleftrightarrow> True"
| "result_typed no_state_change No_Detail \<longleftrightarrow> True"
| "result_typed undefined_status No_Detail \<longleftrightarrow> True"
| "result_typed _ _ \<longleftrightarrow> False"

lemma sint_small: "(w :: 32 word) \<le> 255 \<Longrightarrow> sint w = uint w \<and> sint w \<in> {0..255}"
proof -
  assume "w \<le> 255"
  then have small: "uint w \<le> 255" by (simp add: word_le_def)
  then have "sint w = uint w"
    by (subst sint_uint, intro signed_take_bit_int_eq_self order_trans [OF _ unsigned_greater_eq]) simp_all
  with small show ?thesis by simp
qed

lemma WEXITSTATUS_range: "sint (WEXITSTATUS s) \<in> {0..255}"
proof -
  have "WEXITSTATUS s = drop_bit 8 s AND 0xff" by (simp add: WEXITSTATUS_def drop_bit_and)
  then have "WEXITSTATUS s \<le> 0xff" by (simp add: word_and_le1)
  then show ?thesis using sint_small by blast
qed

lemma WTERMSIG_range: "sint (WTERMSIG s) \<in> {0..127}"
proof -
  have le: "WTERMSIG s \<le> 0x7f" by (simp add: WTERMSIG_def word_and_le1)
  then have "uint (WTERMSIG s) \<le> 127" and "WTERMSIG s \<le> 255"
    by (simp add: word_le_def) (rule order_trans [OF le], simp)
  with sint_small [of "WTERMSIG s"] show ?thesis by simp
qed

lemma low_byte_ff:
  assumes "s AND 0x7f = (0x7f :: 32 word)" and "s AND 0xff \<noteq> 0x7f"
  shows "s AND 0xff = 0xff"
proof -
  have "s AND 0xff = (s AND 0x7f) OR (s AND 0x80)"
    by (simp flip: bit.conj_disj_distrib)
  moreover have "s AND 0x80 = 0 \<or> s AND 0x80 = 0x80" 
  proof -
    have "s AND 0x80 = (if bit s 7 then 0x80 else 0)"
    proof (rule bit_word_eqI)
      fix n
      have "bit (0x80 :: 32 word) n \<longleftrightarrow> n = 7" using bit_exp_iff [of 7 n, where ?'a = "32 word"] by auto
      then show "bit (s AND 0x80) n = bit (if bit s 7 then 0x80 else 0 :: 32 word) n" by (auto simp: bit_and_iff)
    qed
    then show ?thesis by simp
  qed
  ultimately show ?thesis using assms by auto
qed

lemma wait_decode_typed: "result_typed (wr_status (wait_decode s)) (wr_detail (wait_decode s))"
proof (cases "WIFSIGNALED s")
  case True
  then have ne: "WTERMSIG s \<noteq> 0" "WTERMSIG s \<noteq> 0x7f" by (simp_all add: WIFSIGNALED_iff)
  then have "sint (WTERMSIG s) \<noteq> sint (0 :: 32 word)" "sint (WTERMSIG s) \<noteq> sint (0x7f :: 32 word)"
    by (metis signed_word_eqI)+
  with WTERMSIG_range [of s] True ne show ?thesis by (simp add: wait_decode_def WIFEXITED_def)
qed (use WEXITSTATUS_range [of s] in \<open>auto simp: wait_decode_def wait_Result_default_def WSTOPSIG_def\<close>)

text \<open>
  C24: type safety of the result's union. Whatever kernel and status word, a result that
  \<open>wait_for\<close> returns has written exactly the member of the union that its status names: an exit
  status of eight bits, a terminating signal from 1 to 126, a stopping signal of eight bits, or
  none; and the status is left undefined only for a word whose low byte is \<open>0xff\<close>.
\<close>

theorem wait_for_typed:
  assumes "wait_for K p flags k = (Inr r, k')"
  shows "result_typed (wr_status r) (wr_detail r) \<and>
    (wr_status r = undefined_status \<longrightarrow>
      (\<exists>n status. sys_waitpid K (Process_pid p) (uint flags) k = (Inr (n, status), k') \<and> status AND 0xff = 0xff))"
proof -
  from assms obtain n s where w: "sys_waitpid K (Process_pid p) (uint flags) k = (Inr (n, s), k')"
    and r: "r = (if n = 0 then wait_Result_default\<lparr>wr_status := no_state_change\<rparr> else wait_decode s)"
    by (auto simp: wait_for_def split: prod.splits sum.splits if_splits)
  have "s AND 0xff = 0xff" if "wr_status (wait_decode s) = undefined_status"
    using that low_byte_ff [of s]
    by (auto simp: wait_decode_def WIFEXITED_def WIFSIGNALED_iff WIFSTOPPED_def WTERMSIG_def split: if_splits)
  with w r wait_decode_typed [of s] show ?thesis by (auto simp: wait_Result_default_def)
qed

theorem wait_for_typed_witness:
  "\<exists>r k'. wait_for (ref_api\<lparr>sys_waitpid := (\<lambda>pid opts k. (Inr (pid, 0x12ff), k))\<rparr>) \<lparr>sig_pid = 101, proc_pid = 101\<rparr>
      wait_untraced (ref_boot 8) = (Inr r, k') \<and> wr_status r = undefined_status \<and> result_typed (wr_status r) (wr_detail r)"
proof -
  let ?K = "ref_api\<lparr>sys_waitpid := (\<lambda>pid opts k. (Inr (pid, 0x12ff), k))\<rparr>"
  have w: "wait_for ?K \<lparr>sig_pid = 101, proc_pid = 101\<rparr> wait_untraced (ref_boot 8) =
      (Inr wait_Result_default, ref_boot 8)"
    by (simp add: wait_for_def Process_pid_def wait_decode_def WIFEXITED_def WIFSIGNALED_iff WTERMSIG_def
        WIFSTOPPED_def WIFCONTINUED_def)
  from wait_for_typed [OF w] w show ?thesis by (simp add: wait_Result_default_def)
qed

end
