(* ===== verification/Pipe.thy ===== *)
theory Pipe
  imports Ref_Kernel
begin

text \<open>
  \<open>ChildProcess::Pipe\<close> (\<open>child_process.h\<close>, \<open>child_process.cpp\<close>): two descriptors, -1 for a
  closed end. Copying duplicates the descriptors, destruction closes them. The interface
  \<open>fd_owner\<close> is what such a class promises its users: a copy holds descriptors of its own,
  and destroying it gives back exactly those; it is shared with \<open>CrossProcessSync\<close>.
\<close>

section \<open>Owners of descriptors\<close>

locale fd_owner =
  fixes fdt :: "'k \<Rightarrow> int \<rightharpoonup> desc" and copy :: "'o \<Rightarrow> 'k \<Rightarrow> 'o \<times> 'k"
    and destroy :: "'o \<Rightarrow> 'k \<Rightarrow> 'k" and held :: "'o \<Rightarrow> int set"
  assumes copy_fresh: "copy ob k = (ob', k') \<Longrightarrow> held ob' \<inter> dom (fdt k) = {}"
    and copy_frame: "copy ob k = (ob', k') \<Longrightarrow> fdt k' |` (- held ob') = fdt k"
    and destroy_fdt: "fdt (destroy ob k) = fdt k |` (- held ob)"
begin

lemma copy_destroy: "copy ob k = (ob', k') \<Longrightarrow> fdt (destroy ob' k') = fdt k"
  by (simp add: destroy_fdt copy_frame)

lemma destroy_commute: "fdt (destroy a (destroy b k)) = fdt (destroy b (destroy a k))"
  by (simp add: destroy_fdt Int_commute)

lemma destroy_other: "fd \<notin> held ob \<Longrightarrow> fdt (destroy ob k) fd = fdt k fd"
  by (simp add: destroy_fdt)

lemma copy_other:
  assumes "copy ob k = (ob', k')" and "fd \<in> dom (fdt k)"
  shows "fdt k' fd = fdt k fd"
proof -
  from copy_fresh [OF assms(1)] assms(2) have "fd \<notin> held ob'" by auto
  with copy_frame [OF assms(1)] show ?thesis by (metis ComplI restrict_in)
qed

text \<open>Copies made one after the other and destroyed in the opposite order leave no trace.\<close>

lemma copy_twice_destroy:
  assumes "copy ob k = (a, k1)" and "copy ob k1 = (b, k2)"
  shows "fdt (destroy a (destroy b k2)) = fdt k"
  using assms by (simp add: destroy_fdt copy_frame)

end

section \<open>The class\<close>

record Pipe =
  read_fd :: int
  write_fd :: int

text \<open>\<open>::dup\<close> returns -1 on failure; the class stores what it returns.\<close>

definition dup_or_minus_one :: "'k api \<Rightarrow> int \<Rightarrow> 'k \<Rightarrow> int \<times> 'k" where
  "dup_or_minus_one K fd k =
     (case sys_dup K fd k of (Inl _, k') \<Rightarrow> (- 1, k') | (Inr n, k') \<Rightarrow> (n, k'))"

definition dup_if_open :: "'k api \<Rightarrow> int \<Rightarrow> 'k \<Rightarrow> int \<times> 'k" where
  "dup_if_open K fd k = (if fd \<noteq> - 1 then dup_or_minus_one K fd k else (- 1, k))"

definition close_if_open :: "'k api \<Rightarrow> int \<Rightarrow> 'k \<Rightarrow> 'k" where
  "close_if_open K fd k = (if fd \<noteq> - 1 then snd (sys_close K fd k) else k)"

definition Pipe_ctor :: "'k api \<Rightarrow> (exn, Pipe, 'k) call" where
  "Pipe_ctor K k =
     (case sys_pipe K k of
        (Inl errno, k') \<Rightarrow> (Inl (System_Error errno), k')
      | (Inr (r, w), k') \<Rightarrow> (Inr \<lparr>read_fd = r, write_fd = w\<rparr>, k'))"

definition Pipe_copy :: "'k api \<Rightarrow> Pipe \<Rightarrow> 'k \<Rightarrow> Pipe \<times> 'k" where
  "Pipe_copy K rhs k =
     (let (r, k1) = dup_if_open K (read_fd rhs) k;
          (w, k2) = dup_if_open K (write_fd rhs) k1
      in (\<lparr>read_fd = r, write_fd = w\<rparr>, k2))"

definition Pipe_dtor :: "'k api \<Rightarrow> Pipe \<Rightarrow> 'k \<Rightarrow> 'k" where
  "Pipe_dtor K p k = close_if_open K (write_fd p) (close_if_open K (read_fd p) k)"

definition close_read_fd :: "'k api \<Rightarrow> Pipe \<Rightarrow> 'k \<Rightarrow> Pipe \<times> 'k" where
  "close_read_fd K p k =
     (if read_fd p \<noteq> - 1 then (p\<lparr>read_fd := - 1\<rparr>, snd (sys_close K (read_fd p) k)) else (p, k))"

definition close_write_fd :: "'k api \<Rightarrow> Pipe \<Rightarrow> 'k \<Rightarrow> Pipe \<times> 'k" where
  "close_write_fd K p k =
     (if write_fd p \<noteq> - 1 then (p\<lparr>write_fd := - 1\<rparr>, snd (sys_close K (write_fd p) k)) else (p, k))"

text \<open>
  Assignment closes both ends first and then duplicates those of the right-hand side; there
  is no test for self-assignment, which is this function with \<open>rhs\<close> the same object.
\<close>

definition Pipe_assign :: "'k api \<Rightarrow> Pipe \<Rightarrow> Pipe \<Rightarrow> 'k \<Rightarrow> Pipe \<times> 'k" where
  "Pipe_assign K this rhs k =
     (let k1 = close_if_open K (read_fd this) k;
          k2 = close_if_open K (write_fd this) k1;
          (r, k3) = dup_if_open K (read_fd rhs) k2;
          (w, k4) = dup_if_open K (write_fd rhs) k3
      in (\<lparr>read_fd = r, write_fd = w\<rparr>, k4))"

text \<open>
  \<open>Pipe::invalid()\<close>: a function-local static pipe, created at the first call and closed
  once (\<open>std::call_once\<close>), of which a copy is returned. The static is \<open>None\<close> before its
  construction has succeeded.
\<close>

definition Pipe_invalid :: "'k api \<Rightarrow> Pipe option \<Rightarrow> 'k \<Rightarrow> (exn + Pipe) \<times> Pipe option \<times> 'k" where
  "Pipe_invalid K p k =
     (case p of
        Some q \<Rightarrow> (let (c, k') = Pipe_copy K q k in (Inr c, p, k'))
      | None \<Rightarrow> (case Pipe_ctor K k of
            (Inl e, k1) \<Rightarrow> (Inl e, None, k1)
          | (Inr q, k1) \<Rightarrow>
              (let (q1, k2) = close_read_fd K q k1;
                   (q2, k3) = close_write_fd K q1 k2;
                   (c, k4) = Pipe_copy K q2 k3
               in (Inr c, Some q2, k4))))"

section \<open>What a pipe holds\<close>

definition pipe_fds :: "Pipe \<Rightarrow> int set" where
  "pipe_fds p = {read_fd p, write_fd p} - {- 1}"

definition closed_pipe :: Pipe where
  "closed_pipe = \<lparr>read_fd = - 1, write_fd = - 1\<rparr>"

lemma pipe_fds_closed [simp]: "pipe_fds closed_pipe = {}"
  by (simp add: pipe_fds_def closed_pipe_def)

lemma Pipe_copy_closed [simp]: "Pipe_copy K closed_pipe k = (closed_pipe, k)"
  by (simp add: Pipe_copy_def dup_if_open_def closed_pipe_def)

lemma Pipe_dtor_closed [simp]: "Pipe_dtor K closed_pipe k = k"
  by (simp add: Pipe_dtor_def close_if_open_def closed_pipe_def)

context fd_kernel
begin

lemma dup_if_open_spec:
  assumes "dup_if_open K fd k = (n, k')"
  shows "n = - 1 \<and> fdt k' = fdt k \<or>
    0 \<le> n \<and> fdt k n = None \<and> fd \<in> dom (fdt k) \<and> fdt k' = (fdt k)(n := fdt k fd)"
proof (cases "fd = - 1")
  case True
  with assms show ?thesis by (simp add: dup_if_open_def)
next
  case False
  then show ?thesis
    using assms dup_ok [of fd k] dup_fail [of fd k]
    by (auto simp: dup_if_open_def dup_or_minus_one_def split: prod.splits sum.splits)
qed

lemma close_if_open_fdt [simp]: "fdt (close_if_open K fd k) = (fdt k)(fd := None)"
  by (simp add: close_if_open_def close_fdt fun_upd_idem)

lemma Pipe_dtor_fdt [simp]: "fdt (Pipe_dtor K p k) = fdt k |` (- pipe_fds p)"
  by (auto simp: Pipe_dtor_def pipe_fds_def restrict_map_def fun_eq_iff)

text \<open>The two ends of a copy: closed, or a fresh descriptor for the same description.\<close>

lemma Pipe_copy_spec:
  assumes "Pipe_copy K p k = (q, k')"
  shows "pipe_fds q \<inter> dom (fdt k) = {}" and "fdt k' |` (- pipe_fds q) = fdt k"
    and "read_fd q \<noteq> - 1 \<Longrightarrow> fdt k' (read_fd q) = fdt k (read_fd p)"
    and "write_fd q \<noteq> - 1 \<Longrightarrow> pipe_fds p \<subseteq> dom (fdt k) \<Longrightarrow> fdt k' (write_fd q) = fdt k (write_fd p)"
    and "pipe_fds q \<subseteq> dom (fdt k')" and "read_fd q = - 1 \<or> read_fd q \<noteq> write_fd q"
proof -
  from assms obtain r w k1 where r: "dup_if_open K (read_fd p) k = (r, k1)"
    and w: "dup_if_open K (write_fd p) k1 = (w, k')" and q: "q = \<lparr>read_fd = r, write_fd = w\<rparr>"
    by (auto simp: Pipe_copy_def Let_def split: prod.splits)
  note sr = dup_if_open_spec [OF r] and sw = dup_if_open_spec [OF w]
  show "pipe_fds q \<inter> dom (fdt k) = {}" and "pipe_fds q \<subseteq> dom (fdt k')"
    and "read_fd q = - 1 \<or> read_fd q \<noteq> write_fd q"
    using sr sw by (auto simp: q pipe_fds_def split: if_splits)
  show "fdt k' |` (- pipe_fds q) = fdt k"
    using sr sw by (intro ext) (auto simp: q pipe_fds_def restrict_map_def split: if_splits)
  show "read_fd q \<noteq> - 1 \<Longrightarrow> fdt k' (read_fd q) = fdt k (read_fd p)"
    and "write_fd q \<noteq> - 1 \<Longrightarrow> pipe_fds p \<subseteq> dom (fdt k) \<Longrightarrow> fdt k' (write_fd q) = fdt k (write_fd p)"
    using sr sw by (auto simp: q pipe_fds_def split: if_splits)
qed

end

text \<open>
  A pipe object that was just added to a descriptor table: its descriptors are new and
  open, and nothing else has changed. If it is a new kernel pipe, number \<open>n\<close>, its open ends
  are the two ends of that pipe, and no descriptor referred to it before.
\<close>

definition added_pipe :: "(int \<rightharpoonup> desc) \<Rightarrow> Pipe \<Rightarrow> (int \<rightharpoonup> desc) \<Rightarrow> bool" where
  "added_pipe t p t' \<longleftrightarrow> pipe_fds p \<inter> dom t = {} \<and> t' |` (- pipe_fds p) = t \<and>
     pipe_fds p \<subseteq> dom t' \<and> (read_fd p = - 1 \<or> read_fd p \<noteq> write_fd p)"

definition ends_of :: "(int \<rightharpoonup> desc) \<Rightarrow> Pipe \<Rightarrow> nat \<Rightarrow> bool" where
  "ends_of t p n \<longleftrightarrow> (read_fd p \<noteq> - 1 \<longrightarrow> t (read_fd p) = Some (Pipe_Read n)) \<and>
     (write_fd p \<noteq> - 1 \<longrightarrow> t (write_fd p) = Some (Pipe_Write n))"

definition new_pipe_number :: "(int \<rightharpoonup> desc) \<Rightarrow> nat \<Rightarrow> bool" where
  "new_pipe_number t n \<longleftrightarrow> Pipe_Read n \<notin> ran t \<and> Pipe_Write n \<notin> ran t"

lemma added_closed [simp]: "added_pipe t closed_pipe t"
  by (simp add: added_pipe_def closed_pipe_def pipe_fds_def)

context fd_kernel
begin

lemma Pipe_ctor_spec:
  assumes "Pipe_ctor K k = (Inr p, k')"
  shows "read_fd p \<noteq> - 1" and "write_fd p \<noteq> - 1" and "added_pipe (fdt k) p (fdt k')"
    and "\<exists>n. new_pipe_number (fdt k) n \<and> ends_of (fdt k') p n"
proof -
  from assms have "sys_pipe K k = (Inr (read_fd p, write_fd p), k')"
    by (auto simp: Pipe_ctor_def split: prod.splits sum.splits)
  note sp = pipe_ok [OF this]
  from sp show neg: "read_fd p \<noteq> - 1" "write_fd p \<noteq> - 1" by auto
  from sp neg show "added_pipe (fdt k) p (fdt k')"
    by (auto simp: added_pipe_def pipe_fds_def restrict_map_def fun_eq_iff)
  from sp show "\<exists>n. new_pipe_number (fdt k) n \<and> ends_of (fdt k') p n"
    by (auto simp: ends_of_def new_pipe_number_def)
qed

lemma Pipe_ctor_fail: "Pipe_ctor K k = (Inl e, k') \<Longrightarrow> fdt k' = fdt k"
  by (auto simp: Pipe_ctor_def dest: pipe_fail split: prod.splits sum.splits)

lemma Pipe_copy_added: "Pipe_copy K p k = (q, k') \<Longrightarrow> added_pipe (fdt k) q (fdt k')"
  by (simp add: added_pipe_def Pipe_copy_spec)

lemma Pipe_copy_ends:
  assumes "Pipe_copy K p k = (q, k')" and "pipe_fds p \<subseteq> dom (fdt k)" and "ends_of (fdt k) p n"
  shows "ends_of (fdt k') q n"
proof -
  have open_end: "fd = - 1 \<or> fdt k' fd \<noteq> None" if "fd \<in> {read_fd q, write_fd q}" for fd
    using Pipe_copy_spec(5) [OF assms(1)] that by (auto simp: pipe_fds_def)
  have "read_fd q \<noteq> - 1 \<Longrightarrow> read_fd p \<noteq> - 1" and "write_fd q \<noteq> - 1 \<Longrightarrow> write_fd p \<noteq> - 1"
    using open_end Pipe_copy_spec(3,4) [OF assms(1)] assms(2) by fastforce+
  then show ?thesis
    using Pipe_copy_spec(3,4) [OF assms(1)] assms(2,3) by (auto simp: ends_of_def)
qed

lemma Pipe_assign_eq: "Pipe_assign K this rhs k = Pipe_copy K rhs (Pipe_dtor K this k)"
  by (simp add: Pipe_assign_def Pipe_copy_def Pipe_dtor_def)

lemma close_read_fd_spec:
  "close_read_fd K p k = (q, k') \<Longrightarrow> q = p\<lparr>read_fd := - 1\<rparr> \<and> fdt k' = (fdt k)(read_fd p := None)"
  by (cases "read_fd p = - 1") (auto simp: close_read_fd_def close_fdt fun_upd_idem)

lemma close_write_fd_spec:
  "close_write_fd K p k = (q, k') \<Longrightarrow> q = p\<lparr>write_fd := - 1\<rparr> \<and> fdt k' = (fdt k)(write_fd p := None)"
  by (cases "write_fd p = - 1") (auto simp: close_write_fd_def close_fdt fun_upd_idem)

lemma Pipe_copy_dangling:
  assumes "Pipe_copy K p k = (q, k')" and "pipe_fds p \<inter> dom (fdt k) = {}"
  shows "q = closed_pipe \<and> fdt k' = fdt k"
proof -
  from assms(1) obtain r w k1 where r: "dup_if_open K (read_fd p) k = (r, k1)"
    and w: "dup_if_open K (write_fd p) k1 = (w, k')" and q: "q = \<lparr>read_fd = r, write_fd = w\<rparr>"
    by (auto simp: Pipe_copy_def Let_def split: prod.splits)
  have gone: "fdt k (read_fd p) = None" "fdt k (write_fd p) = None"
    using assms(2) by (auto simp: pipe_fds_def dom_def)
  with dup_if_open_spec [OF r] have "r = - 1" and "fdt k1 = fdt k" by auto
  with gone dup_if_open_spec [OF w] q show ?thesis by (auto simp: closed_pipe_def)
qed

text \<open>The first call of \<open>Pipe::invalid\<close> or a later one: a closed pipe, an unchanged table.\<close>

lemma Pipe_invalid_spec:
  assumes "Pipe_invalid K s k = (r, s', k')" and "s = None \<or> s = Some closed_pipe"
  shows "fdt k' = fdt k" and "s' = None \<or> s' = Some closed_pipe"
    and "r = Inr c \<Longrightarrow> c = closed_pipe \<and> s' = Some closed_pipe"
proof -
  have closed: "p\<lparr>read_fd := - 1, write_fd := - 1\<rparr> = closed_pipe" for p :: Pipe
    by (simp add: closed_pipe_def)
  have "fdt k' = fdt k \<and> (s' = None \<or> s' = Some closed_pipe) \<and>
      (\<forall>c. r = Inr c \<longrightarrow> c = closed_pipe \<and> s' = Some closed_pipe)"
  proof (cases "s = None")
    case True
    show ?thesis
    proof (cases "Pipe_ctor K k")
      case (Pair res k1)
      show ?thesis
      proof (cases res)
        case (Inl e)
        with assms True Pair show ?thesis
          by (auto simp: Pipe_invalid_def dest: Pipe_ctor_fail)
      next
        case (Inr q)
        obtain q1 k2 where c1: "close_read_fd K q k1 = (q1, k2)" by fastforce
        obtain q2 k3 where c2: "close_write_fd K q1 k2 = (q2, k3)" by fastforce
        note sp1 = close_read_fd_spec [OF c1] and sp2 = close_write_fd_spec [OF c2]
        from sp1 sp2 have q2: "q2 = closed_pipe" by (simp add: closed)
        from Pipe_ctor_spec(3) [OF Pair [unfolded Inr]]
        have "fdt k1 |` (- pipe_fds q) = fdt k" by (simp add: added_pipe_def)
        with sp1 sp2 have "fdt k3 = fdt k"
          by (auto simp: fun_eq_iff restrict_map_def pipe_fds_def split: if_splits)
        with assms True Pair Inr c1 c2 q2 show ?thesis by (auto simp: Pipe_invalid_def)
      qed
    qed
  next
    case False
    with assms show ?thesis by (auto simp: Pipe_invalid_def)
  qed
  then show "fdt k' = fdt k" and "s' = None \<or> s' = Some closed_pipe"
    and "r = Inr c \<Longrightarrow> c = closed_pipe \<and> s' = Some closed_pipe" by auto
qed

end

sublocale fd_kernel \<subseteq> pipes: fd_owner fdt "Pipe_copy K" "Pipe_dtor K" pipe_fds
  by unfold_locales (simp_all add: Pipe_copy_spec)

section \<open>Properties\<close>

text \<open>
  A pipe object through its life, on any kernel that obeys the descriptor laws. The
  constructor yields the two ends of a new pipe or leaves the descriptor table as it was;
  a copy refers to the same two ends through descriptors of its own (an end that could not
  be duplicated is closed in the copy); when the copy and the original are destroyed, in
  either order, the table is the one before the construction.
\<close>

theorem pipe_life_cycle:
  assumes "fd_kernel K fdt" and "Pipe_ctor K k = (r, k1)"
  shows "case r of Inl _ \<Rightarrow> fdt k1 = fdt k
    | Inr p \<Rightarrow> (\<exists>n. new_pipe_number (fdt k) n \<and> fdt k1 (read_fd p) = Some (Pipe_Read n) \<and>
        fdt k1 (write_fd p) = Some (Pipe_Write n) \<and>
        (case Pipe_copy K p k1 of (q, k2) \<Rightarrow>
           pipe_fds q \<inter> dom (fdt k1) = {} \<and> ends_of (fdt k2) q n \<and>
           fdt (Pipe_dtor K q (Pipe_dtor K p k2)) = fdt k \<and>
           fdt (Pipe_dtor K p (Pipe_dtor K q k2)) = fdt k))"
proof (cases r)
  case (Inl e)
  with assms fd_kernel.Pipe_ctor_fail [OF assms(1)] show ?thesis by auto
next
  case (Inr p)
  note ctor = fd_kernel.Pipe_ctor_spec [OF assms(1) assms(2) [unfolded Inr]]
  from ctor(4) obtain n where n: "new_pipe_number (fdt k) n" "ends_of (fdt k1) p n" by auto
  obtain q k2 where q: "Pipe_copy K p k1 = (q, k2)" by fastforce
  note copy = fd_kernel.Pipe_copy_spec [OF assms(1) q]
  from ctor(3) have p: "pipe_fds p \<subseteq> dom (fdt k1)" and k: "fdt k1 |` (- pipe_fds p) = fdt k"
    by (auto simp: added_pipe_def)
  have "ends_of (fdt k2) q n"
    by (rule fd_kernel.Pipe_copy_ends [OF assms(1) q p n(2)])
  moreover from copy(2) k have "fdt k2 |` (- pipe_fds q) |` (- pipe_fds p) = fdt k" by simp
  ultimately show ?thesis
    using n copy(1) ctor(1,2)
    by (auto simp: Inr q ends_of_def Int_commute fd_kernel.Pipe_dtor_fdt [OF assms(1)])
qed

theorem pipe_life_cycle_witness:
  "\<exists>p k1. Pipe_ctor ref_api (ref_boot 8) = (Inr p, k1) \<and> p = \<lparr>read_fd = 3, write_fd = 4\<rparr> \<and>
     (\<exists>n. rk_fdt k1 3 = Some (Pipe_Read n) \<and> rk_fdt k1 4 = Some (Pipe_Write n))"
proof -
  let ?p = "\<lparr>read_fd = 3, write_fd = 4\<rparr>"
  obtain k1 where "Pipe_ctor ref_api (ref_boot 8) = (Inr ?p, k1)"
    by (simp add: Pipe_ctor_def rk_pipe_def ref_boot_def rk_free_def rk_set_def Let_def upt_rec)
  with pipe_life_cycle [OF rk.fd_kernel_axioms this] show ?thesis by auto
qed

text \<open>
  Assignment between two different pipe objects closes what the left one held,
  duplicates what the right one holds, and touches no other descriptor; the right-hand
  side keeps its descriptors.
\<close>

theorem pipe_assign_semantics:
  assumes "fd_kernel K fdt" and "pipe_fds b \<subseteq> dom (fdt k)" and "pipe_fds a \<inter> pipe_fds b = {}"
    and "ends_of (fdt k) b n" and "Pipe_assign K a b k = (a', k')"
  shows "ends_of (fdt k') a' n \<and> ends_of (fdt k') b n \<and>
    fdt k' |` (- pipe_fds a') = fdt k |` (- pipe_fds a)"
proof -
  let ?k = "Pipe_dtor K a k"
  have fdt_k: "fdt ?k = fdt k |` (- pipe_fds a)"
    by (rule fd_kernel.Pipe_dtor_fdt [OF assms(1)])
  from assms(5) have copy: "Pipe_copy K b ?k = (a', k')"
    by (simp add: fd_kernel.Pipe_assign_eq [OF assms(1)])
  have b: "pipe_fds b \<subseteq> dom (fdt ?k)" using assms(2,3) by (auto simp: fdt_k)
  have "read_fd b \<noteq> - 1 \<Longrightarrow> read_fd b \<notin> pipe_fds a" and "write_fd b \<noteq> - 1 \<Longrightarrow> write_fd b \<notin> pipe_fds a"
    using assms(3) by (auto simp: pipe_fds_def [of b])
  with assms(4) have bn: "ends_of (fdt ?k) b n" by (simp add: ends_of_def fdt_k)
  note spec = fd_kernel.Pipe_copy_spec [OF assms(1) copy]
  have "fdt k' fd = Some d" if "fdt ?k fd = Some d" for fd d
    using spec(1,2) that by (metis ComplI disjoint_iff domI restrict_in)
  with bn have "ends_of (fdt k') b n" by (auto simp: ends_of_def)
  then show ?thesis
    using fd_kernel.Pipe_copy_ends [OF assms(1) copy b bn] spec(2) fdt_k by simp
qed

lemma ref_pipe_3_4:
  "Pipe_ctor ref_api (ref_boot 8) =
     (Inr \<lparr>read_fd = 3, write_fd = 4\<rparr>,
      (ref_boot 8)\<lparr>rk_fds := [Some (Other_Desc 0), Some (Other_Desc 1), Some (Other_Desc 2),
         Some (Pipe_Read 1), Some (Pipe_Write 1), None, None, None], rk_pipes := 1\<rparr>)"
  by (simp add: Pipe_ctor_def rk_pipe_def ref_boot_def rk_free_def rk_set_def rk_fresh_pipe_def
      Let_def upt_rec)

theorem pipe_assign_semantics_witness:
  "\<exists>a' k'. Pipe_assign ref_api closed_pipe \<lparr>read_fd = 3, write_fd = 4\<rparr>
      (snd (Pipe_ctor ref_api (ref_boot 8))) = (a', k') \<and> ends_of (rk_fdt k') a' 1"
proof -
  let ?p = "\<lparr>read_fd = 3, write_fd = 4\<rparr>" and ?k = "snd (Pipe_ctor ref_api (ref_boot 8))"
  obtain a' k' where a: "Pipe_assign ref_api closed_pipe ?p ?k = (a', k')" by fastforce
  have "pipe_fds ?p \<subseteq> dom (rk_fdt ?k)" and "ends_of (rk_fdt ?k) ?p 1"
    by (auto simp: ref_pipe_3_4 pipe_fds_def rk_fdt_def ends_of_def)
  from pipe_assign_semantics [OF rk.fd_kernel_axioms this(1) _ this(2) a] a show ?thesis by simp
qed

text \<open>
  Assigning a pipe object to itself loses the pipe: both descriptors are closed before
  they are duplicated, so the object ends up with no open end.
\<close>

theorem pipe_self_assignment_loses_ends:
  assumes "fd_kernel K fdt" and "Pipe_assign K p p k = (p', k')"
  shows "p' = closed_pipe \<and> fdt k' = fdt k |` (- pipe_fds p)"
proof -
  let ?k = "Pipe_dtor K p k"
  have fdt_k: "fdt ?k = fdt k |` (- pipe_fds p)"
    by (rule fd_kernel.Pipe_dtor_fdt [OF assms(1)])
  from assms(2) have "Pipe_copy K p ?k = (p', k')"
    by (simp add: fd_kernel.Pipe_assign_eq [OF assms(1)])
  from fd_kernel.Pipe_copy_dangling [OF assms(1) this] show ?thesis by (auto simp: fdt_k)
qed

theorem pipe_self_assignment_loses_ends_witness:
  "\<exists>k'. Pipe_assign ref_api \<lparr>read_fd = 3, write_fd = 4\<rparr> \<lparr>read_fd = 3, write_fd = 4\<rparr>
      (snd (Pipe_ctor ref_api (ref_boot 8))) = (closed_pipe, k') \<and> rk_fdt k' 3 = None"
proof -
  let ?p = "\<lparr>read_fd = 3, write_fd = 4\<rparr>" and ?k = "snd (Pipe_ctor ref_api (ref_boot 8))"
  obtain a' k' where a: "Pipe_assign ref_api ?p ?p ?k = (a', k')" by fastforce
  from pipe_self_assignment_loses_ends [OF rk.fd_kernel_axioms a] a show ?thesis
    by (auto simp: pipe_fds_def)
qed

end
