(* ===== verification/Child_Process.thy ===== *)
theory Child_Process
  imports Wait Pipe
begin

text \<open>
  \<open>ChildProcess\<close> and its \<open>Private\<close> part (\<open>child_process.h\<close>, \<open>child_process.cpp\<close>): the
  pipes to the child's standard streams, the streams over them (boost stream buffers that
  never close their descriptor, so a stream is the descriptor it was opened with), and the
  destructor that kills the child. \<open>ChildProcess::wait_for\<close> is in theory \<open>Wait\<close>.
\<close>

section \<open>The class\<close>

record Private =
  pipes_stdin :: Pipe
  pipes_stdout :: Pipe
  pipes_stderr :: Pipe
  serr :: int
  sin :: int
  sout :: int
  original_parent_pid :: int
  original_child_pid :: int

text \<open>
  The constructor's parameters are named \<open>stderr\<close>, \<open>stdin\<close>, \<open>stdout\<close> in that order, and its
  member \<open>pipes\<close>, declared as \<open>stdin\<close>, \<open>stdout\<close>, \<open>stderr\<close>, is initialised with them in
  that order.
\<close>

definition Private_ctor :: "'k api \<Rightarrow> int \<Rightarrow> Pipe \<Rightarrow> Pipe \<Rightarrow> Pipe \<Rightarrow> 'k \<Rightarrow> Private \<times> 'k" where
  "Private_ctor K pid p_stderr p_stdin p_stdout k =
     (let (m_stdin, k1) = Pipe_copy K p_stderr k;
          (m_stdout, k2) = Pipe_copy K p_stdin k1;
          (m_stderr, k3) = Pipe_copy K p_stdout k2
      in (\<lparr>pipes_stdin = m_stdin, pipes_stdout = m_stdout, pipes_stderr = m_stderr,
           serr = read_fd m_stderr, sin = write_fd m_stdin, sout = read_fd m_stdout,
           original_parent_pid = sys_getpid K k3, original_child_pid = pid\<rparr>, k3))"

text \<open>The destructor's body, then the members in the opposite order of their declaration.\<close>

definition Private_dtor :: "'k api \<Rightarrow> Private \<Rightarrow> 'k \<Rightarrow> 'k" where
  "Private_dtor K d k =
     (let k1 = (if original_parent_pid d = sys_getpid K k \<and> original_child_pid d \<noteq> - 1
                then snd (sys_kill K (original_child_pid d) SIGKILL k) else k)
      in Pipe_dtor K (pipes_stdin d) (Pipe_dtor K (pipes_stdout d) (Pipe_dtor K (pipes_stderr d) k1)))"

record ChildProcess = Process +
  child_d :: Private

definition ChildProcess_ctor ::
  "'k api \<Rightarrow> int \<Rightarrow> Pipe \<Rightarrow> Pipe \<Rightarrow> Pipe \<Rightarrow> (exn, ChildProcess, 'k) call" where
  "ChildProcess_ctor K pid stdin_pipe stdout_pipe stderr_pipe k =
     (case Process_ctor pid of
        Inl e \<Rightarrow> (Inl e, k)
      | Inr p \<Rightarrow> (let (d, k') = Private_ctor K pid stdin_pipe stdout_pipe stderr_pipe k
                 in (Inr (Process.extend p (ChildProcess.fields d)), k')))"

definition ChildProcess_cerr :: "ChildProcess \<Rightarrow> int" where "ChildProcess_cerr c = serr (child_d c)"
definition ChildProcess_cin :: "ChildProcess \<Rightarrow> int" where "ChildProcess_cin c = sin (child_d c)"
definition ChildProcess_cout :: "ChildProcess \<Rightarrow> int" where "ChildProcess_cout c = sout (child_d c)"

text \<open>
  \<open>ChildProcess::invalid()\<close> takes process 1 as the child. The three temporary copies of
  the invalid pipe are destroyed after the object has been built, or when one cannot be.
\<close>

definition ChildProcess_invalid ::
  "'k api \<Rightarrow> Pipe option \<Rightarrow> 'k \<Rightarrow> (exn + ChildProcess) \<times> Pipe option \<times> 'k" where
  "ChildProcess_invalid K s k =
     (case Pipe_invalid K s k of
        (Inl e, s1, k1) \<Rightarrow> (Inl e, s1, k1)
      | (Inr a, s1, k1) \<Rightarrow> (case Pipe_invalid K s1 k1 of
          (Inl e, s2, k2) \<Rightarrow> (Inl e, s2, Pipe_dtor K a k2)
        | (Inr b, s2, k2) \<Rightarrow> (case Pipe_invalid K s2 k2 of
            (Inl e, s3, k3) \<Rightarrow> (Inl e, s3, Pipe_dtor K a (Pipe_dtor K b k3))
          | (Inr c, s3, k3) \<Rightarrow>
              (let (r, k4) = ChildProcess_ctor K 1 a b c k3
               in (r, s3, Pipe_dtor K a (Pipe_dtor K b (Pipe_dtor K c k4)))))))"

section \<open>Descriptors held by a child process object\<close>

definition private_fds :: "Private \<Rightarrow> int set" where
  "private_fds d = pipe_fds (pipes_stdin d) \<union> pipe_fds (pipes_stdout d) \<union> pipe_fds (pipes_stderr d)"

lemma ChildProcess_ctor_iff [run_iff]:
  "ChildProcess_ctor K pid pin pout perr k = (Inr c, k') \<longleftrightarrow>
     0 \<le> pid \<and> sig_pid c = pid \<and> proc_pid c = pid \<and> ChildProcess.more c = () \<and>
     Private_ctor K pid pin pout perr k = (child_d c, k')"
proof (cases "pid < 0")
  case False
  obtain d k1 where "Private_ctor K pid pin pout perr k = (d, k1)" by fastforce
  with False show ?thesis
    by (cases c) (auto simp: ChildProcess_ctor_def Process.defs ChildProcess.defs)
qed (simp add: ChildProcess_ctor_def)

context fd_kernel
begin

lemma Private_ctor_spec:
  assumes "Private_ctor K pid a b c k = (d, k')"
  shows "\<exists>k1 k2. Pipe_copy K a k = (pipes_stdin d, k1) \<and> Pipe_copy K b k1 = (pipes_stdout d, k2) \<and>
      Pipe_copy K c k2 = (pipes_stderr d, k')"
    and "sin d = write_fd (pipes_stdin d)" and "sout d = read_fd (pipes_stdout d)"
    and "serr d = read_fd (pipes_stderr d)" and "original_parent_pid d = sys_getpid K k'"
    and "original_child_pid d = pid"
  using assms by (auto simp: Private_ctor_def Let_def split: prod.splits)

lemma Private_ctor_frame:
  assumes "Private_ctor K pid a b c k = (d, k')"
  shows "fdt k' |` (- private_fds d) = fdt k" and "private_fds d \<inter> dom (fdt k) = {}"
proof -
  from Private_ctor_spec(1) [OF assms] obtain k1 k2 where
    c1: "Pipe_copy K a k = (pipes_stdin d, k1)" and c2: "Pipe_copy K b k1 = (pipes_stdout d, k2)"
    and c3: "Pipe_copy K c k2 = (pipes_stderr d, k')" by auto
  note s1 = Pipe_copy_spec(1,2) [OF c1] and s2 = Pipe_copy_spec(1,2) [OF c2]
    and s3 = Pipe_copy_spec(1,2) [OF c3]
  have "fdt k' |` (- private_fds d) =
      fdt k' |` (- pipe_fds (pipes_stderr d)) |` (- pipe_fds (pipes_stdout d)) |` (- pipe_fds (pipes_stdin d))"
    by (simp add: private_fds_def Int_ac)
  then show "fdt k' |` (- private_fds d) = fdt k" using s1(2) s2(2) s3(2) by simp
  have "dom (fdt k) \<subseteq> dom (fdt k1)" and "dom (fdt k1) \<subseteq> dom (fdt k2)"
    using s1(2) s2(2) by (metis dom_restrict inf_le1)+
  then show "private_fds d \<inter> dom (fdt k) = {}"
    unfolding private_fds_def using s1(1) s2(1) s3(1) by blast
qed

lemma Private_dtor_fdt: "fdt (Private_dtor K d k) = fdt k |` (- private_fds d)"
  by (simp add: Private_dtor_def Let_def kill_fdt private_fds_def Int_ac)

text \<open>The copies refer to the ends their originals refer to.\<close>

lemma Private_ctor_ends:
  assumes "Private_ctor K pid a b c k = (d, k')"
    and "pipe_fds a \<union> pipe_fds b \<union> pipe_fds c \<subseteq> dom (fdt k)"
  shows "ends_of (fdt k) a n \<Longrightarrow> ends_of (fdt k') (pipes_stdin d) n"
    and "ends_of (fdt k) b n \<Longrightarrow> ends_of (fdt k') (pipes_stdout d) n"
    and "ends_of (fdt k) c n \<Longrightarrow> ends_of (fdt k') (pipes_stderr d) n"
proof -
  from Private_ctor_spec(1) [OF assms(1)] obtain k1 k2 where
    c1: "Pipe_copy K a k = (pipes_stdin d, k1)" and c2: "Pipe_copy K b k1 = (pipes_stdout d, k2)"
    and c3: "Pipe_copy K c k2 = (pipes_stderr d, k')" by auto
  have keep1: "fdt k1 fd = Some x" if "fdt k fd = Some x" for fd x
    using pipes.copy_other [OF c1] that by (auto simp: dom_def)
  have keep2: "fdt k2 fd = Some x" if "fdt k1 fd = Some x" for fd x
    using pipes.copy_other [OF c2] that by (auto simp: dom_def)
  have keep3: "fdt k' fd = Some x" if "fdt k2 fd = Some x" for fd x
    using pipes.copy_other [OF c3] that by (auto simp: dom_def)
  note keep = keep1 keep2 keep3
  show "ends_of (fdt k') (pipes_stdin d) n" if "ends_of (fdt k) a n"
    using Pipe_copy_ends [OF c1 _ that] assms(2) keep by (auto simp: ends_of_def)
  show "ends_of (fdt k') (pipes_stdout d) n" if "ends_of (fdt k) b n"
  proof -
    have "pipe_fds b \<subseteq> dom (fdt k1)" and "ends_of (fdt k1) b n"
      using assms(2) that keep by (auto simp: ends_of_def dom_def)
    from Pipe_copy_ends [OF c2 this] show ?thesis using keep by (auto simp: ends_of_def)
  qed
  show "ends_of (fdt k') (pipes_stderr d) n" if "ends_of (fdt k) c n"
  proof -
    have "pipe_fds c \<subseteq> dom (fdt k2)" and "ends_of (fdt k2) c n"
      using assms(2) that keep by (auto simp: ends_of_def dom_def)
    from Pipe_copy_ends [OF c3 this] show ?thesis .
  qed
qed

end

section \<open>Properties\<close>

text \<open>
  The streams of a child process object are connected to the right pipes: writing to
  \<open>cin()\<close> goes to the pipe given as stdin, \<open>cout()\<close> reads the pipe given as stdout and
  \<open>cerr()\<close> the one given as stderr, although the parameters of \<open>Private\<close> are named in
  another order than the arguments come: the two permutations cancel. Construction only
  adds descriptors, all of them held by the object.
\<close>

theorem child_streams_wired:
  assumes "fd_kernel K fdt" and "ChildProcess_ctor K pid pin pout perr k = (Inr c, k')"
    and "pipe_fds pin \<union> pipe_fds pout \<union> pipe_fds perr \<subseteq> dom (fdt k)"
    and "ends_of (fdt k) pin i" and "ends_of (fdt k) pout j" and "ends_of (fdt k) perr l"
  shows "(ChildProcess_cin c \<noteq> - 1 \<longrightarrow> fdt k' (ChildProcess_cin c) = Some (Pipe_Write i)) \<and>
    (ChildProcess_cout c \<noteq> - 1 \<longrightarrow> fdt k' (ChildProcess_cout c) = Some (Pipe_Read j)) \<and>
    (ChildProcess_cerr c \<noteq> - 1 \<longrightarrow> fdt k' (ChildProcess_cerr c) = Some (Pipe_Read l)) \<and>
    fdt k' |` (- private_fds (child_d c)) = fdt k \<and> Process_pid c = pid"
proof -
  from assms(2) have p: "Private_ctor K pid pin pout perr k = (child_d c, k')"
    and pid: "proc_pid c = pid" by (simp_all add: run_iff)
  note e = fd_kernel.Private_ctor_ends [OF assms(1) p assms(3)]
    and s = fd_kernel.Private_ctor_spec [OF assms(1) p]
  show ?thesis
    using e(1) [OF assms(4)] e(2) [OF assms(5)] e(3) [OF assms(6)] pid
      fd_kernel.Private_ctor_frame(1) [OF assms(1) p]
    by (simp add: ends_of_def ChildProcess_cin_def ChildProcess_cout_def ChildProcess_cerr_def
        s Process_pid_def)
qed

theorem child_streams_wired_witness:
  "\<exists>c k'. ChildProcess_ctor ref_api 101 \<lparr>read_fd = - 1, write_fd = 4\<rparr> closed_pipe closed_pipe
     (snd (Pipe_ctor ref_api (ref_boot 8))) = (Inr c, k') \<and> ChildProcess_cin c = 5 \<and>
     rk_fdt k' 5 = Some (Pipe_Write 1)"
proof -
  let ?p = "\<lparr>read_fd = - 1, write_fd = 4\<rparr>" and ?k = "snd (Pipe_ctor ref_api (ref_boot 8))"
  have d: "dup_or_minus_one ref_api 4 ?k = (5, rk_set 5 (Some (Pipe_Write 1)) ?k)"
    by (simp add: ref_pipe_3_4 dup_or_minus_one_def rk_dup_def rk_fdt_def rk_free_def upt_rec)
  obtain c k' where c: "ChildProcess_ctor ref_api 101 ?p closed_pipe closed_pipe ?k = (Inr c, k')"
    and five: "ChildProcess_cin c = 5"
    by (simp add: ChildProcess_ctor_def Private_ctor_def Pipe_copy_def [of _ ?p] dup_if_open_def d
        ChildProcess_cin_def Process.defs ChildProcess.defs)
  have "pipe_fds ?p \<union> pipe_fds closed_pipe \<union> pipe_fds closed_pipe \<subseteq> dom (rk_fdt ?k)"
    and "ends_of (rk_fdt ?k) ?p 1" and "ends_of (rk_fdt ?k) closed_pipe 1"
    by (auto simp: ref_pipe_3_4 pipe_fds_def rk_fdt_def ends_of_def closed_pipe_def)
  from child_streams_wired [OF rk.fd_kernel_axioms c this this(3)] c five show ?thesis by auto
qed

text \<open>
  C3: when the last handle of a child goes away, the object closes exactly the descriptors
  it holds, so the table is the one before its construction. In the process that created
  it, the child is sent \<open>SIGKILL\<close> first; in a process forked from that one, where the
  object exists as a copy, no signal is sent.
\<close>

theorem child_dtor_kills_only_in_parent:
  assumes "proc_kernel K fdt" and "ChildProcess_ctor K pid pin pout perr k = (Inr c, k1)"
    and "sys_fork K k1 = (Inr (fpid, kc), k2)"
  shows "let d = child_d c;
      close_all = (\<lambda>x. Pipe_dtor K (pipes_stdin d) (Pipe_dtor K (pipes_stdout d) (Pipe_dtor K (pipes_stderr d) x)))
    in Private_dtor K d k2 = close_all (snd (sys_kill K pid SIGKILL k2)) \<and>
       Private_dtor K d kc = close_all kc \<and>
       fdt (Private_dtor K d k2) = fdt k \<and> fdt (Private_dtor K d kc) = fdt k"
proof -
  have fk: "fd_kernel K fdt" using assms(1) by (simp add: proc_kernel_def)
  from assms(2) have p: "Private_ctor K pid pin pout perr k = (child_d c, k1)" and "0 \<le> pid"
    by (simp_all add: run_iff)
  note s = fd_kernel.Private_ctor_spec(5,6) [OF fk p]
  note f = proc_kernel.getpid_fork [OF assms(1,3)] fd_kernel.fork_fdt [OF fk assms(3)]
  have "fdt (Private_dtor K (child_d c) x) = fdt k" if "fdt x = fdt k1" for x
    using that fd_kernel.Private_ctor_frame(1) [OF fk p]
    by (simp add: fd_kernel.Private_dtor_fdt [OF fk])
  with f have "fdt (Private_dtor K (child_d c) k2) = fdt k" "fdt (Private_dtor K (child_d c) kc) = fdt k"
    by auto
  moreover from f s \<open>0 \<le> pid\<close> have
    "Private_dtor K (child_d c) k2 = Pipe_dtor K (pipes_stdin (child_d c)) (Pipe_dtor K (pipes_stdout (child_d c))
       (Pipe_dtor K (pipes_stderr (child_d c)) (snd (sys_kill K pid SIGKILL k2))))"
    "Private_dtor K (child_d c) kc = Pipe_dtor K (pipes_stdin (child_d c)) (Pipe_dtor K (pipes_stdout (child_d c))
       (Pipe_dtor K (pipes_stderr (child_d c)) kc))"
    by (auto simp: Private_dtor_def)
  ultimately show ?thesis by (simp add: Let_def)
qed

theorem child_dtor_kills_only_in_parent_witness:
  "\<exists>c k1 fpid kc k2. ChildProcess_ctor ref_api 101 closed_pipe closed_pipe closed_pipe (ref_boot 8) = (Inr c, k1) \<and>
     sys_fork ref_api k1 = (Inr (fpid, kc), k2) \<and>
     Private_dtor ref_api (child_d c) kc = kc \<and>
     Private_dtor ref_api (child_d c) k2 = snd (sys_kill ref_api 101 SIGKILL k2)"
proof -
  obtain c where c: "ChildProcess_ctor ref_api 101 closed_pipe closed_pipe closed_pipe (ref_boot 8) = (Inr c, ref_boot 8)"
    and p: "pipes_stdin (child_d c) = closed_pipe" "pipes_stdout (child_d c) = closed_pipe"
      "pipes_stderr (child_d c) = closed_pipe"
    by (simp add: ChildProcess_ctor_def Private_ctor_def Process.defs ChildProcess.defs)
  obtain fpid kc k2 where f: "sys_fork ref_api (ref_boot 8) = (Inr (fpid, kc), k2)"
    by (simp add: rk_fork_def ref_boot_def Let_def)
  from child_dtor_kills_only_in_parent [OF rk.proc_kernel_axioms c f] c f p show ?thesis
    by (auto simp: Let_def)
qed

text \<open>
  The object \<open>ChildProcess::invalid()\<close> returns has no streams and no descriptors, but it
  names process 1: destroying it in the process that made it sends \<open>SIGKILL\<close> to process 1.
\<close>

theorem child_invalid_kills_init:
  assumes "proc_kernel K fdt" and "ChildProcess_invalid K s k = (Inr c, s', k')"
    and "s = None \<or> s = Some closed_pipe"
  shows "Process_pid c = 1 \<and> ChildProcess_cin c = - 1 \<and> ChildProcess_cout c = - 1 \<and>
    ChildProcess_cerr c = - 1 \<and> fdt k' = fdt k \<and>
    Private_dtor K (child_d c) k' = snd (sys_kill K 1 SIGKILL k')"
proof -
  have fk: "fd_kernel K fdt" using assms(1) by (simp add: proc_kernel_def)
  note inv = fd_kernel.Pipe_invalid_spec [OF fk]
  from assms(2) obtain p1 s1 k1 where 1: "Pipe_invalid K s k = (Inr p1, s1, k1)"
    by (auto simp: ChildProcess_invalid_def split: prod.splits sum.splits)
  note i1 = inv(1) [OF 1 assms(3)] inv(3) [OF 1 assms(3) refl]
  with assms(2) 1 obtain p2 s2 k2 where 2: "Pipe_invalid K s1 k1 = (Inr p2, s2, k2)"
    by (auto simp: ChildProcess_invalid_def split: prod.splits sum.splits)
  from i1 have "s1 = None \<or> s1 = Some closed_pipe" by simp
  note i2 = inv(1) [OF 2 this] inv(3) [OF 2 this refl]
  with assms(2) 1 2 i1 obtain p3 s3 k3 where 3: "Pipe_invalid K s2 k2 = (Inr p3, s3, k3)"
    by (auto simp: ChildProcess_invalid_def split: prod.splits sum.splits)
  from i2 have "s2 = None \<or> s2 = Some closed_pipe" by simp
  note i3 = inv(1) [OF 3 this] inv(3) [OF 3 this refl]
  from assms(2) 1 2 3 i1 i2 i3 have c: "ChildProcess_ctor K 1 closed_pipe closed_pipe closed_pipe k3 = (Inr c, k')"
    by (simp add: ChildProcess_invalid_def split: prod.splits)
  then have "k' = k3" and "proc_pid c = 1" and "child_d c =
      \<lparr>pipes_stdin = closed_pipe, pipes_stdout = closed_pipe, pipes_stderr = closed_pipe,
       serr = - 1, sin = - 1, sout = - 1, original_parent_pid = sys_getpid K k3, original_child_pid = 1\<rparr>"
    by (auto simp: run_iff Private_ctor_def) (simp_all add: closed_pipe_def)
  with i1 i2 i3 show ?thesis
    by (simp add: Process_pid_def ChildProcess_cin_def ChildProcess_cout_def ChildProcess_cerr_def
        Private_dtor_def)
qed

theorem child_invalid_kills_init_witness:
  "\<exists>c k'. ChildProcess_invalid ref_api (Some closed_pipe) (ref_boot 8) = (Inr c, Some closed_pipe, k') \<and>
     Private_dtor ref_api (child_d c) k' = snd (sys_kill ref_api 1 SIGKILL k')"
proof -
  obtain c where c: "ChildProcess_invalid ref_api (Some closed_pipe) (ref_boot 8) = (Inr c, Some closed_pipe, ref_boot 8)"
    by (simp add: ChildProcess_invalid_def Pipe_invalid_def ChildProcess_ctor_def Private_ctor_def)
  from child_invalid_kills_init [OF rk.proc_kernel_axioms c] c show ?thesis by auto
qed

text \<open>
  Reaping a child does not disarm its handle. A process forks child 101, which exits and is
  reaped through \<open>wait_for\<close>; it forks again, and the new child gets the number that has become
  free; when the handle of the first child is destroyed, the second child is killed.
\<close>

theorem child_dtor_kills_reused_pid:
  "\<exists>c k1 k2 r k3 kc k4. fst (sys_fork ref_api (ref_boot 8)) = Inr (101, kc) \<and>
     ChildProcess_ctor ref_api 101 closed_pipe closed_pipe closed_pipe (snd (sys_fork ref_api (ref_boot 8))) = (Inr c, k1) \<and>
     rk_children k1 = [(101, rk_pgid k1, Alive)] \<and>
     k2 = k1\<lparr>rk_children := [(101, rk_pgid k1, Zombie (Ev_Exited 0))]\<rparr> \<and>
     wait_for ref_api c wait_untraced k2 = (Inr r, k3) \<and> wr_status r = exited \<and> rk_children k3 = [] \<and>
     snd (sys_fork ref_api k3) = k4 \<and> rk_children k4 = [(101, rk_pgid k1, Alive)] \<and>
     rk_children (Private_dtor ref_api (child_d c) k4) = [(101, rk_pgid k1, Zombie (Ev_Signaled 9 False))]"
proof -
  let ?f = "sys_fork ref_api (ref_boot 8)"
  let ?n = "ChildProcess_ctor ref_api 101 closed_pipe closed_pipe closed_pipe (snd ?f)"
  let ?c = "projr (fst ?n)" and ?k1 = "snd ?n"
  let ?k2 = "?k1\<lparr>rk_children := [(101, rk_pgid ?k1, Zombie (Ev_Exited 0))]\<rparr>"
  let ?w = "wait_for ref_api ?c wait_untraced ?k2"
  let ?k4 = "snd (sys_fork ref_api (snd ?w))"
  have "\<not> isl (fst ?f)" and "fst (projr (fst ?f)) = 101" by code_simp+
  then have f: "fst ?f = Inr (101, snd (projr (fst ?f)))" by (metis prod.collapse sum.collapse(2))
  have "\<not> isl (fst ?n)" by code_simp
  then have n: "?n = (Inr ?c, ?k1)" by (metis prod.collapse sum.collapse(2))
  have "\<not> isl (fst ?w)" by code_simp
  then have w: "?w = (Inr (projr (fst ?w)), snd ?w)" by (metis prod.collapse sum.collapse(2))
  have one: "rk_children ?k1 = [(101, rk_pgid ?k1, Alive)]" by code_simp
  have reaped: "wr_status (projr (fst ?w)) = exited" "rk_children (snd ?w) = []" by code_simp+
  have two: "rk_children ?k4 = [(101, rk_pgid ?k1, Alive)]" by code_simp
  have killed: "rk_children (Private_dtor ref_api (child_d ?c) ?k4) = [(101, rk_pgid ?k1, Zombie (Ev_Signaled 9 False))]"
    by code_simp
  show ?thesis
    by (intro exI conjI) (rule f, rule n, rule one, rule refl, rule w, rule reaped, rule reaped, rule refl, rule two, rule killed)
qed

end
