(* ===== verification/Backtrace.thy ===== *)
theory Backtrace
  imports Prelude
begin

text \<open>
  \<open>src/core/posix/backtrace.h\<close>, \<open>backtrace.cpp\<close> and \<open>print_backtrace\<close> of \<open>fork.cpp\<close>:
  splitting the symbol string of a stack frame, demangling it, walking the frames. The
  demangler \<open>abi::__cxa_demangle\<close> is a parameter \<open>cxa\<close> that returns the name it found, if
  any, and a status; the stack is a parameter too, as the list of return addresses and
  symbol strings \<open>::backtrace\<close> and \<open>::backtrace_symbols\<close> deliver.
\<close>

section \<open>Symbols\<close>

type_synonym demangler = "string \<Rightarrow> string option \<times> int"

definition demangle :: "demangler \<Rightarrow> string \<Rightarrow> string \<times> bool" where
  "demangle cxa symbol =
     (case cxa (c_str symbol) of
        (None, status) \<Rightarrow> ([], False)
      | (Some result, status) \<Rightarrow> if status \<noteq> 0 then ([], False) else (c_str result, True))"

record Symbol =
  raw_sym :: string
  demangled_sym :: string
  is_cxx :: bool

text \<open>
  The constructor. The subtractions are on \<open>size_t\<close>; the extracted text is
  \<open>raw_.substr(first+1, (last-1) - (first+1))\<close>.
\<close>

definition mangled_part :: "string \<Rightarrow> exn + string" where
  "mangled_part raw =
     (let first = find_first_of CHR ''('' raw; last = find_last_of CHR '')'' raw
      in case substr raw (first + 1) ((last - 1) - (first + 1)) of
           Inl e \<Rightarrow> Inl e
         | Inr m \<Rightarrow> (let plus = find_first_of CHR ''+'' m
                    in if plus \<noteq> npos then erase_from m plus else Inr m))"

definition Symbol_ctor :: "demangler \<Rightarrow> string \<Rightarrow> exn + Symbol" where
  "Symbol_ctor cxa symbol =
     (let raw = symbol; first = find_first_of CHR ''('' raw; last = find_last_of CHR '')'' raw
      in if first \<noteq> npos \<and> last \<noteq> npos
         then (case mangled_part raw of
             Inl e \<Rightarrow> Inl e
           | Inr m \<Rightarrow> (let (dem, cxx) = demangle cxa m
                in Inr \<lparr>raw_sym = raw, demangled_sym = (if cxx then dem else raw), is_cxx = cxx\<rparr>))
         else Inr \<lparr>raw_sym = raw, demangled_sym = [], is_cxx = False\<rparr>)"

section \<open>Frames\<close>

record Frame =
  frame_depth :: size_t
  frame_pointer :: "64 word"
  frame_symbol :: Symbol

definition Frame_ctor :: "demangler \<Rightarrow> nat \<Rightarrow> 64 word \<Rightarrow> string \<Rightarrow> exn + Frame" where
  "Frame_ctor cxa depth ptr symbol =
     (case Symbol_ctor cxa symbol of
        Inl e \<Rightarrow> Inl e
      | Inr s \<Rightarrow> Inr \<lparr>frame_depth = of_nat depth, frame_pointer = ptr, frame_symbol = s\<rparr>)"

definition max_frames :: nat where "max_frames = 64"

text \<open>The loop over the frames, from index \<open>i\<close>; the handler returns whether to go on.\<close>

fun visit_loop ::
  "demangler \<Rightarrow> (Frame \<Rightarrow> 's \<Rightarrow> bool \<times> 's) \<Rightarrow> nat \<Rightarrow> (64 word \<times> string) list \<Rightarrow> 's \<Rightarrow> (exn + unit) \<times> 's" where
  "visit_loop cxa handler i [] s = (Inr (), s)"
| "visit_loop cxa handler i ((ptr, symbol) # fs) s =
     (case Frame_ctor cxa i ptr symbol of
        Inl e \<Rightarrow> (Inl e, s)
      | Inr frame \<Rightarrow> (case handler frame s of
            (go_on, s') \<Rightarrow> if go_on then visit_loop cxa handler (Suc i) fs s' else (Inr (), s')))"

definition visit_with_handler ::
  "demangler \<Rightarrow> (64 word \<times> string) list \<Rightarrow> (Frame \<Rightarrow> 's \<Rightarrow> bool \<times> 's) \<Rightarrow> 's \<Rightarrow> (exn + unit) \<times> 's" where
  "visit_with_handler cxa stack handler s = visit_loop cxa handler 0 (take max_frames stack) s"

section \<open>Printing a backtrace\<close>

text \<open>\<open>std::setw\<close> pads on the left with blanks; a pointer is shown in hexadecimal.\<close>

definition setw :: "nat \<Rightarrow> string \<Rightarrow> string" where
  "setw n s = replicate (n - length s) CHR '' '' @ s"

definition hex_char :: "nat \<Rightarrow> char" where
  "hex_char d = (if d < 10 then char_of (48 + d) else char_of (87 + d))"

fun show_hex :: "nat \<Rightarrow> string" where
  "show_hex n = (if n < 16 then [hex_char n] else show_hex (n div 16) @ [hex_char (n mod 16)])"

declare show_hex.simps [simp del]

definition show_pointer :: "64 word \<Rightarrow> string" where
  "show_pointer p = (if p = 0 then ''0'' else ''0x'' @ show_hex (unat p))"


definition frame_line :: "string \<Rightarrow> Frame \<Rightarrow> string" where
  "frame_line line_prefix frame =
     line_prefix @ setw 2 (show_nat (unat (frame_depth frame))) @ ''@'' @
     setw 14 (show_pointer (frame_pointer frame)) @ '': '' @
     (if is_cxx (frame_symbol frame) then demangled_sym (frame_symbol frame) else raw_sym (frame_symbol frame)) @ [newline]"

definition print_backtrace ::
  "demangler \<Rightarrow> (64 word \<times> string) list \<Rightarrow> string \<Rightarrow> string \<Rightarrow> (exn + unit) \<times> string" where
  "print_backtrace cxa stack line_prefix out =
     visit_with_handler cxa stack (\<lambda>frame text. (True, text @ frame_line line_prefix frame)) out"

section \<open>Splitting the symbol string\<close>

lemma size_t_minus:
  assumes "b \<le> a" and "(a :: nat) < 2 ^ 64"
  shows "unat ((of_nat a :: size_t) - of_nat b) = a - b"
proof -
  have "(of_nat a :: size_t) - of_nat b = of_nat (a - b)" using assms(1) by simp
  moreover have "a - b < 2 ^ 64" using assms(2) by simp
  ultimately show ?thesis by (simp add: unat_of_nat take_bit_nat_eq_self)
qed

text \<open>Whatever follows the first parenthesis, the start position is inside the string.\<close>

lemma mangled_part_returns:
  assumes "representable raw" and "CHR ''('' \<in> set raw"
  shows "\<exists>m. mangled_part raw = Inr m"
proof -
  obtain a b where raw: "raw = a @ CHR ''('' # b" and a: "CHR ''('' \<notin> set a"
    using assms(2) by (meson split_list_first)
  have "unat ((of_nat (length a) :: size_t) + 1) = Suc (length a)"
    using unat_Suc_of_nat [OF assms(1), of "length a"] by (simp add: raw)
  then obtain m where m: "substr raw (find_first_of CHR ''('' raw + 1)
      (find_last_of CHR '')'' raw - 1 - (find_first_of CHR ''('' raw + 1)) = Inr m"
    and "length m \<le> length raw"
    using a by (auto simp: raw substr_def)
  then have "representable m" using assms(1) by (simp add: representable_def)
  then have "unat (find_first_of CHR ''+'' m) \<le> length m" if "find_first_of CHR ''+'' m \<noteq> npos"
    using that by (auto simp: find_first_of_def length_takeWhile_le split: if_splits)
  with m show ?thesis by (auto simp: mangled_part_def Let_def erase_from_def)
qed

lemma mangled_part_between:
  assumes "representable (a @ CHR ''('' # m @ CHR '')'' # b)"
    and "CHR ''('' \<notin> set a" and "CHR '')'' \<notin> set b" and "m \<noteq> []"
  shows "mangled_part (a @ CHR ''('' # m @ CHR '')'' # b) =
    Inr (takeWhile (\<lambda>c. c \<noteq> CHR ''+'') (butlast m))"
proof -
  let ?raw = "a @ CHR ''('' # m @ CHR '')'' # b"
  let ?f = "of_nat (length a) :: size_t" and ?l = "of_nat (Suc (length a + length m)) :: size_t"
  have first: "find_first_of CHR ''('' ?raw = ?f" using assms(2) by simp
  have last: "find_last_of CHR '')'' ?raw = ?l"
    using find_last_of_split [OF assms(3), of "a @ CHR ''('' # m"] by simp
  have "unat (?f + 1) = Suc (length a)"
    using unat_Suc_of_nat [OF assms(1), of "length a"] by simp
  moreover have "unat (?l - 1 - (?f + 1)) = length m - 1"
  proof -
    have "?l - 1 - (?f + 1) = (of_nat (length m) :: size_t) - of_nat 1" by simp
    then show ?thesis
      using assms(1,4) size_t_minus [of 1 "length m"] by (cases m) (simp_all add: representable_def)
  qed
  ultimately have sub: "substr ?raw (?f + 1) (?l - 1 - (?f + 1)) = Inr (butlast m)"
    by (simp add: substr_def butlast_conv_take)
  have rep: "representable (butlast m)" using assms(1) by (simp add: representable_def)
  show ?thesis
  proof (cases "CHR ''+'' \<in> set (butlast m)")
    case True
    then obtain u v where "butlast m = u @ CHR ''+'' # v" and "CHR ''+'' \<notin> set u"
      by (meson split_list_first)
    with rep sub first last show ?thesis
      by (simp add: mangled_part_def Let_def erase_from_def del: of_nat_Suc)
  next
    case False
    with sub first last show ?thesis by (simp add: mangled_part_def Let_def del: of_nat_Suc)
  qed
qed

lemma Symbol_ctor_returns:
  assumes "representable raw"
  shows "\<exists>s. Symbol_ctor cxa raw = Inr s \<and> raw_sym s = raw"
proof (cases "CHR ''('' \<in> set raw")
  case True
  then obtain m where "mangled_part raw = Inr m" using mangled_part_returns [OF assms] by blast
  then show ?thesis by (auto simp: Symbol_ctor_def Let_def split: prod.split)
next
  case False
  then show ?thesis by (simp add: Symbol_ctor_def)
qed

lemma Symbol_ctor_cases:
  assumes "Symbol_ctor cxa raw = Inr s"
  shows "\<not> is_cxx s \<or> (\<exists>m. is_cxx s = snd (demangle cxa m) \<and> demangled_sym s = fst (demangle cxa m))"
proof (cases "mangled_part raw")
  case (Inr m)
  with assms show ?thesis
    by (cases "snd (demangle cxa m)") (auto simp: Symbol_ctor_def Let_def split_beta split: if_splits)
qed (use assms in \<open>auto simp: Symbol_ctor_def Let_def split: if_splits\<close>)

lemma Symbol_ctor_between:
  assumes "representable (a @ CHR ''('' # m @ CHR '')'' # b)"
    and "CHR ''('' \<notin> set a" and "CHR '')'' \<notin> set b" and "m \<noteq> []"
  shows "Symbol_ctor cxa (a @ CHR ''('' # m @ CHR '')'' # b) =
    (let (dem, cxx) = demangle cxa (takeWhile (\<lambda>c. c \<noteq> CHR ''+'') (butlast m))
     in Inr \<lparr>raw_sym = a @ CHR ''('' # m @ CHR '')'' # b,
             demangled_sym = (if cxx then dem else a @ CHR ''('' # m @ CHR '')'' # b), is_cxx = cxx\<rparr>)"
proof -
  let ?raw = "a @ CHR ''('' # m @ CHR '')'' # b"
  have "find_first_of CHR ''('' ?raw \<noteq> npos" and "find_last_of CHR '')'' ?raw \<noteq> npos"
    using assms(1) by (simp_all add: find_first_of_npos find_last_of_npos)
  then show ?thesis
    by (simp add: Symbol_ctor_def Let_def mangled_part_between [OF assms])
qed

section \<open>Properties\<close>

text \<open>
  Building the symbol of a frame never throws, whatever the string: the position handed
  to \<open>substr\<close> is always inside the string, even where the length computed for it wraps
  around, and the raw string is kept.
\<close>

theorem symbol_ctor_never_throws:
  assumes "representable raw"
  shows "\<exists>s. Symbol_ctor cxa raw = Inr s \<and> raw_sym s = raw \<and> (is_cxx s \<longrightarrow>
    (\<exists>m. demangle cxa m = (demangled_sym s, True)))"
proof -
  from Symbol_ctor_returns [OF assms] obtain s where s: "Symbol_ctor cxa raw = Inr s" "raw_sym s = raw"
    by blast
  then have "is_cxx s \<longrightarrow> (\<exists>m. demangle cxa m = (demangled_sym s, True))"
    using Symbol_ctor_cases [OF s(1)] by (auto simp: prod_eq_iff)
  with s show ?thesis by blast
qed

theorem symbol_ctor_never_throws_witness:
  "\<exists>s. Symbol_ctor (\<lambda>_. (None, - 2)) '')('' = Inr s \<and> raw_sym s = '')(''"
  using symbol_ctor_never_throws [of "'')(''" "\<lambda>_. (None, - 2)"] by (auto simp: representable_def)

text \<open>
  C33: for a symbol string of the usual form \<open>module(name+offset) rest\<close>, the demangler is
  asked about exactly \<open>name\<close>; the symbol is C++ exactly when the demangler succeeds, and
  its demangled form is the demangler's answer, or the raw string otherwise.
\<close>

theorem symbol_demangles_name:
  assumes "raw = a @ ''('' @ name @ ''+'' @ offset @ '')'' @ rest" and "representable raw"
    and "CHR ''('' \<notin> set a" and "CHR ''+'' \<notin> set name" and "CHR '')'' \<notin> set rest"
  shows "Symbol_ctor cxa raw = Inr \<lparr>raw_sym = raw,
    demangled_sym = (if snd (demangle cxa name) then fst (demangle cxa name) else raw),
    is_cxx = snd (demangle cxa name)\<rparr>"
proof -
  let ?m = "name @ ''+'' @ offset"
  have raw: "raw = a @ CHR ''('' # ?m @ CHR '')'' # rest" by (simp add: assms(1))
  have "butlast ?m = (if offset = [] then name else name @ CHR ''+'' # butlast offset)"
    by (simp add: butlast_append)
  then have "takeWhile (\<lambda>c. c \<noteq> CHR ''+'') (butlast ?m) = name"
    using assms(4) by simp
  with Symbol_ctor_between [of a ?m rest cxa] assms(2,3,5) show ?thesis
    by (simp add: raw split_beta)
qed

theorem symbol_demangles_name_witness:
  "Symbol_ctor (\<lambda>s. if s = ''_Z1fv'' then (Some ''f()'', 0) else (None, - 2)) ''t(_Z1fv+0x4b) [0x45]'' =
     Inr \<lparr>raw_sym = ''t(_Z1fv+0x4b) [0x45]'', demangled_sym = ''f()'', is_cxx = True\<rparr>"
  using symbol_demangles_name [of "''t(_Z1fv+0x4b) [0x45]''" "''t''" "''_Z1fv''" "''0x4b''" "'' [0x45]''"
      "\<lambda>s. if s = ''_Z1fv'' then (Some ''f()'', 0) else (None, - 2)"]
  by (simp add: representable_def demangle_def c_str_def NUL_def)

text \<open>
  For a symbol string without an offset, \<open>module(name) rest\<close>, the last character of the
  name is dropped before the demangler is asked.
\<close>

theorem symbol_without_offset_drops_last:
  assumes "raw = a @ ''('' @ name @ '')'' @ rest" and "representable raw" and "name \<noteq> []"
    and "CHR ''('' \<notin> set a" and "CHR ''+'' \<notin> set name" and "CHR '')'' \<notin> set rest"
  shows "Symbol_ctor cxa raw = Inr \<lparr>raw_sym = raw,
    demangled_sym = (if snd (demangle cxa (butlast name)) then fst (demangle cxa (butlast name)) else raw),
    is_cxx = snd (demangle cxa (butlast name))\<rparr>"
proof -
  have raw: "raw = a @ CHR ''('' # name @ CHR '')'' # rest" by (simp add: assms(1))
  have "CHR ''+'' \<notin> set (butlast name)" using assms(5) by (meson in_set_butlastD)
  with Symbol_ctor_between [of a name rest cxa] assms(2,3,4,6) show ?thesis
    by (simp add: raw split_beta)
qed

theorem symbol_without_offset_drops_last_witness:
  "Symbol_ctor (\<lambda>s. if s = ''_Z1fv'' then (Some ''f()'', 0) else (None, - 2)) ''t(_Z1fv) [0x45]'' =
     Inr \<lparr>raw_sym = ''t(_Z1fv) [0x45]'', demangled_sym = ''t(_Z1fv) [0x45]'', is_cxx = False\<rparr>"
  using symbol_without_offset_drops_last [of "''t(_Z1fv) [0x45]''" "''t''" "''_Z1fv''" "'' [0x45]''"
      "\<lambda>s. if s = ''_Z1fv'' then (Some ''f()'', 0) else (None, - 2)"]
  by (simp add: representable_def demangle_def c_str_def NUL_def)

text \<open>The frames a stack gives rise to, numbered from \<open>i\<close>, and what a handler does with them.\<close>

definition frame_of :: "demangler \<Rightarrow> nat \<Rightarrow> 64 word \<times> string \<Rightarrow> Frame" where
  "frame_of cxa i f =
     (case Frame_ctor cxa i (fst f) (snd f) of Inr fr \<Rightarrow> fr
      | Inl _ \<Rightarrow> \<lparr>frame_depth = 0, frame_pointer = 0, frame_symbol = \<lparr>raw_sym = [], demangled_sym = [], is_cxx = False\<rparr>\<rparr>)"

fun handle_frames :: "(Frame \<Rightarrow> 's \<Rightarrow> bool \<times> 's) \<Rightarrow> Frame list \<Rightarrow> 's \<Rightarrow> 's" where
  "handle_frames h [] s = s"
| "handle_frames h (f # fs) s = (if fst (h f s) then handle_frames h fs (snd (h f s)) else snd (h f s))"

definition frames_from :: "demangler \<Rightarrow> nat \<Rightarrow> (64 word \<times> string) list \<Rightarrow> Frame list" where
  "frames_from cxa i fs = map (\<lambda>(j, f). frame_of cxa j f) (zip [i..<i + length fs] fs)"

lemma frames_from_Cons: "frames_from cxa i (f # fs) = frame_of cxa i f # frames_from cxa (Suc i) fs"
proof -
  have "[i..<i + length (f # fs)] = i # [Suc i..<Suc i + length fs]"
    by (simp add: upt_conv_Cons del: upt_Suc)
  then show ?thesis by (simp only: frames_from_def zip_Cons_Cons list.map) simp
qed

lemma visit_loop_handles:
  "\<forall>f \<in> set fs. representable (snd f) \<Longrightarrow>
     visit_loop cxa h i fs s = (Inr (), handle_frames h (frames_from cxa i fs) s)"
proof (induction fs arbitrary: i s)
  case Nil
  then show ?case by (simp add: frames_from_def)
next
  case (Cons f fs)
  obtain ptr sym where f: "f = (ptr, sym)" by fastforce
  with Cons.prems obtain s' where "Symbol_ctor cxa sym = Inr s'"
    using Symbol_ctor_returns [of sym cxa] by auto
  then have "Frame_ctor cxa i ptr sym = Inr (frame_of cxa i f)"
    by (simp add: f frame_of_def Frame_ctor_def)
  with Cons show ?case
    by (auto simp: f frames_from_Cons split: prod.split)
qed

text \<open>
  Walking the stack. The handler sees the innermost 64 frames at most, in order, each
  with its depth, address and symbol, until it asks to stop; the walk never throws. In
  particular \<open>print_backtrace\<close> appends one line per visited frame.
\<close>

theorem visit_with_handler_walks:
  assumes "\<forall>f \<in> set stack. representable (snd f)"
  shows "visit_with_handler cxa stack h s =
      (Inr (), handle_frames h (frames_from cxa 0 (take 64 stack)) s) \<and>
    print_backtrace cxa stack pre out =
      (Inr (), out @ concat (map (frame_line pre) (frames_from cxa 0 (take 64 stack)))) \<and>
    (\<forall>i < length (frames_from cxa 0 (take 64 stack)).
       frame_depth (frames_from cxa 0 (take 64 stack) ! i) = of_nat i \<and>
       frame_pointer (frames_from cxa 0 (take 64 stack) ! i) = fst (stack ! i) \<and>
       raw_sym (frame_symbol (frames_from cxa 0 (take 64 stack) ! i)) = snd (stack ! i))"
proof -
  let ?fs = "frames_from cxa 0 (take 64 stack)"
  have t: "\<forall>f \<in> set (take 64 stack). representable (snd f)"
    using assms in_set_takeD by fastforce
  have pr: "handle_frames (\<lambda>frame text. (True, text @ frame_line pre frame)) fs out =
      out @ concat (map (frame_line pre) fs)" for fs out
    by (induction fs arbitrary: out) simp_all
  have nth: "frame_depth (?fs ! i) = of_nat i \<and> frame_pointer (?fs ! i) = fst (stack ! i) \<and>
      raw_sym (frame_symbol (?fs ! i)) = snd (stack ! i)" if "i < length ?fs" for i
  proof -
    from that have i: "i < length (take 64 stack)" by (simp add: frames_from_def)
    then have eq: "?fs ! i = frame_of cxa i (stack ! i)" by (simp add: frames_from_def)
    have "representable (snd (stack ! i))" using assms i by simp
    then obtain s' where "Symbol_ctor cxa (snd (stack ! i)) = Inr s'" "raw_sym s' = snd (stack ! i)"
      using Symbol_ctor_returns by blast
    then show ?thesis by (simp add: eq frame_of_def Frame_ctor_def)
  qed
  show ?thesis
    using nth
    by (simp add: visit_with_handler_def print_backtrace_def max_frames_def pr visit_loop_handles [OF t])
qed

theorem visit_with_handler_walks_witness:
  "fst (visit_with_handler (\<lambda>_. (None, - 2)) [(16, ''a(f+0x1)'')] (\<lambda>f n. (True, Suc n)) (0 :: nat)) = Inr () \<and>
   snd (visit_with_handler (\<lambda>_. (None, - 2)) [(16, ''a(f+0x1)'')] (\<lambda>f n. (True, Suc n)) 0) = 1"
  using visit_with_handler_walks [of "[(16, ''a(f+0x1)'')]" "\<lambda>_. (None, - 2)" "\<lambda>f n. (True, Suc n)" 0 "[]" "[]"]
  by (simp add: representable_def frames_from_def)

end
