(* ===== verification/Fork.thy ===== *)
theory Fork
  imports Child_Process Standard_Stream Backtrace
begin

text \<open>
  \<open>fork.h\<close> and \<open>fork.cpp\<close>: creating a child process with some of its standard streams
  redirected to pipes. A call has two continuations, the child's, where
  fork(2) returns 0 and \<open>is_child\<close> holds, and the parent's; the model returns both: the result and kernel state in the parent, and how the child ends.
  The function run in the child is a parameter: it returns a status, throws, is
  killed by a signal, or replaces the process image.
\<close>

section \<open>Redirection\<close>

definition redirect_stream_to_fd :: "'k api \<Rightarrow> int \<Rightarrow> int \<Rightarrow> (exn, unit, 'k) call" where
  "redirect_stream_to_fd K fd stream k =
     (case sys_dup2 K fd stream k of
        (Inl errno, k') \<Rightarrow> (Inl (System_Error errno), k')
      | (Inr _, k') \<Rightarrow> (Inr (), k'))"

definition redirect_if :: "'k api \<Rightarrow> bool \<Rightarrow> int \<Rightarrow> int \<Rightarrow> (exn, unit, 'k) call" where
  "redirect_if K want fd stream k = (if want then redirect_stream_to_fd K fd stream k else (Inr (), k))"

text \<open>The child closes the parent's ends of the pipes and redirects the streams asked for.\<close>

definition child_streams ::
  "'k api \<Rightarrow> StandardStream \<Rightarrow> Pipe \<Rightarrow> Pipe \<Rightarrow> Pipe \<Rightarrow> 'k \<Rightarrow> (exn + unit) \<times> (Pipe \<times> Pipe \<times> Pipe) \<times> 'k" where
  "child_streams K flags stdin_pipe stdout_pipe stderr_pipe k =
     (let (pin, k1) = close_write_fd K stdin_pipe k;
          (pout, k2) = close_read_fd K stdout_pipe k1;
          (perr, k3) = close_read_fd K stderr_pipe k2
      in case redirect_if K (stream_set flags stream_stdin) (read_fd pin) 0 k3 of
           (Inl e, k4) \<Rightarrow> (Inl e, (pin, pout, perr), k4)
         | (Inr _, k4) \<Rightarrow> (case redirect_if K (stream_set flags stream_stdout) (write_fd pout) 1 k4 of
               (Inl e, k5) \<Rightarrow> (Inl e, (pin, pout, perr), k5)
             | (Inr _, k5) \<Rightarrow> (case redirect_if K (stream_set flags stream_stderr) (write_fd perr) 2 k5 of
                   (Inl e, k6) \<Rightarrow> (Inl e, (pin, pout, perr), k6)
                 | (Inr _, k6) \<Rightarrow> (Inr (), (pin, pout, perr), k6))))"

section \<open>The child\<close>

datatype 'i main_outcome = Main_Returned exit_Status | Main_Threw exn | Main_Killed Signal | Main_Replaced 'i

datatype 'i child_end = Child_Exits int string | Child_Killed Signal | Child_Replaced 'i

text \<open>
  What the handlers print and where it comes from: the text of \<open>what()\<close> and the stack at
  the time of the report, with the demangler, are parameters.
\<close>

record report_env =
  re_what :: "exn \<Rightarrow> string"
  re_cxa :: demangler
  re_stack :: "(64 word \<times> string) list"

definition report_exception :: "report_env \<Rightarrow> exn \<Rightarrow> string" where
  "report_exception env e =
     (if e = Foreign_Exception
      then snd (print_backtrace (re_cxa env) (re_stack env) ''  ''
        (''core::posix::fork(): An unhandled exception occured in the child process.'' @ [newline]))
      else snd (print_backtrace (re_cxa env) (re_stack env) ''  ''
        (''core::posix::fork(): An unhandled std::exception occured in the child process:'' @ [newline] @
         ''  what(): '' @ re_what env e @ [newline])))"

fun child_finish :: "report_env \<Rightarrow> 'i main_outcome \<Rightarrow> 'i child_end" where
  "child_finish env (Main_Returned result) = Child_Exits (exit_int result) []"
| "child_finish env (Main_Threw e) = Child_Exits (exit_int exit_failure) (report_exception env e)"
| "child_finish env (Main_Killed sig) = Child_Killed sig"
| "child_finish env (Main_Replaced img) = Child_Replaced img"

record ('k, 'i) child_run =
  cr_main :: "'k option"
  cr_end :: "'i child_end"
  cr_kernel :: 'k
  cr_pipes :: "Pipe \<times> Pipe \<times> Pipe"

text \<open>
  The branch taken in the child, up to \<open>::exit\<close>. \<open>cr_main\<close> is the kernel state in which
  \<open>main\<close> is entered, if it is, and \<open>cr_pipes\<close> the pipe objects the child leaves in memory.
\<close>

definition fork_child ::
  "'k api \<Rightarrow> report_env \<Rightarrow> ('k \<Rightarrow> 'i main_outcome \<times> 'k) \<Rightarrow> StandardStream \<Rightarrow>
   Pipe \<Rightarrow> Pipe \<Rightarrow> Pipe \<Rightarrow> 'k \<Rightarrow> ('k, 'i) child_run" where
  "fork_child K env main flags stdin_pipe stdout_pipe stderr_pipe k =
     (case child_streams K flags stdin_pipe stdout_pipe stderr_pipe k of
        (Inl e, ps, k1) \<Rightarrow>
          \<lparr>cr_main = None, cr_end = child_finish env (Main_Threw e), cr_kernel = k1, cr_pipes = ps\<rparr>
      | (Inr _, ps, k1) \<Rightarrow> (case main k1 of (out, k2) \<Rightarrow>
          \<lparr>cr_main = Some k1, cr_end = child_finish env out, cr_kernel = k2, cr_pipes = ps\<rparr>))"

section \<open>fork\<close>

record ('k, 'i) fork_result =
  fr_parent :: "exn + ChildProcess"
  fr_static :: "Pipe option"
  fr_kernel :: 'k
  fr_child :: "('k, 'i) child_run option"

definition destroy_pipes :: "'k api \<Rightarrow> Pipe \<Rightarrow> Pipe \<Rightarrow> Pipe \<Rightarrow> 'k \<Rightarrow> 'k" where
  "destroy_pipes K stdin_pipe stdout_pipe stderr_pipe k =
     Pipe_dtor K stdin_pipe (Pipe_dtor K stdout_pipe (Pipe_dtor K stderr_pipe k))"

text \<open>\<open>p = ChildProcess::Pipe();\<close> with the temporary destroyed at the end of the statement.\<close>

definition fork_pipe :: "'k api \<Rightarrow> bool \<Rightarrow> Pipe \<Rightarrow> (exn, Pipe, 'k) call" where
  "fork_pipe K want p k =
     (if want
      then (case Pipe_ctor K k of
          (Inl e, k1) \<Rightarrow> (Inl e, k1)
        | (Inr t, k1) \<Rightarrow> (let (q, k2) = Pipe_assign K p t k1 in (Inr q, Pipe_dtor K t k2)))
      else (Inr p, k))"

text \<open>The three local pipes, and the unwinding when one of them cannot be created.\<close>

definition invalid_pipes ::
  "'k api \<Rightarrow> Pipe option \<Rightarrow> 'k \<Rightarrow> (exn + Pipe \<times> Pipe \<times> Pipe) \<times> Pipe option \<times> 'k" where
  "invalid_pipes K s k =
     (case Pipe_invalid K s k of
        (Inl e, s1, k1) \<Rightarrow> (Inl e, s1, k1)
      | (Inr a, s1, k1) \<Rightarrow> (case Pipe_invalid K s1 k1 of
          (Inl e, s2, k2) \<Rightarrow> (Inl e, s2, Pipe_dtor K a k2)
        | (Inr b, s2, k2) \<Rightarrow> (case Pipe_invalid K s2 k2 of
            (Inl e, s3, k3) \<Rightarrow> (Inl e, s3, Pipe_dtor K a (Pipe_dtor K b k3))
          | (Inr c, s3, k3) \<Rightarrow> (Inr (a, b, c), s3, k3))))"

definition open_pipes ::
  "'k api \<Rightarrow> StandardStream \<Rightarrow> Pipe \<Rightarrow> Pipe \<Rightarrow> Pipe \<Rightarrow> (exn, Pipe \<times> Pipe \<times> Pipe, 'k) call" where
  "open_pipes K flags a b c k =
     (case fork_pipe K (stream_set flags stream_stdin) a k of
        (Inl e, k1) \<Rightarrow> (Inl e, destroy_pipes K a b c k1)
      | (Inr pin, k1) \<Rightarrow> (case fork_pipe K (stream_set flags stream_stdout) b k1 of
          (Inl e, k2) \<Rightarrow> (Inl e, destroy_pipes K pin b c k2)
        | (Inr pout, k2) \<Rightarrow> (case fork_pipe K (stream_set flags stream_stderr) c k2 of
            (Inl e, k3) \<Rightarrow> (Inl e, destroy_pipes K pin pout c k3)
          | (Inr perr, k3) \<Rightarrow> (Inr (pin, pout, perr), k3))))"

text \<open>The parent's branch: close the child's ends, build the object, destroy the locals.\<close>

definition fork_parent :: "'k api \<Rightarrow> int \<Rightarrow> Pipe \<Rightarrow> Pipe \<Rightarrow> Pipe \<Rightarrow> (exn, ChildProcess, 'k) call" where
  "fork_parent K pid stdin_pipe stdout_pipe stderr_pipe k =
     (let (pin, k1) = close_read_fd K stdin_pipe k;
          (pout, k2) = close_write_fd K stdout_pipe k1;
          (perr, k3) = close_write_fd K stderr_pipe k2;
          (r, k4) = ChildProcess_ctor K pid pin pout perr k3
      in (r, destroy_pipes K pin pout perr k4))"

definition posix_fork ::
  "'k api \<Rightarrow> report_env \<Rightarrow> ('k \<Rightarrow> 'i main_outcome \<times> 'k) \<Rightarrow> StandardStream \<Rightarrow> Pipe option \<Rightarrow> 'k \<Rightarrow>
   ('k, 'i) fork_result" where
  "posix_fork K env main flags s k =
     (case invalid_pipes K s k of
        (Inl e, s1, k1) \<Rightarrow> \<lparr>fr_parent = Inl e, fr_static = s1, fr_kernel = k1, fr_child = None\<rparr>
      | (Inr (a, b, c), s1, k1) \<Rightarrow> (case open_pipes K flags a b c k1 of
          (Inl e, k2) \<Rightarrow> \<lparr>fr_parent = Inl e, fr_static = s1, fr_kernel = k2, fr_child = None\<rparr>
        | (Inr (pin, pout, perr), k2) \<Rightarrow> (case sys_fork K k2 of
            (Inl errno, k3) \<Rightarrow>
              \<lparr>fr_parent = Inl (System_Error errno), fr_static = s1,
               fr_kernel = destroy_pipes K pin pout perr k3, fr_child = None\<rparr>
          | (Inr (pid, kc), k3) \<Rightarrow> (case fork_parent K pid pin pout perr k3 of
              (r, k4) \<Rightarrow>
                \<lparr>fr_parent = r, fr_static = s1, fr_kernel = k4,
                 fr_child = Some (fork_child K env main flags pin pout perr kc)\<rparr>))))"

section \<open>vfork\<close>

text \<open>
  vfork(2): the child runs first and in the parent's memory, so the pipe objects the parent
  goes on with are those the child left; the descriptor tables are separate. The three
  pipes are created whatever the flags are; a failure destroys those already created.
\<close>

definition three_pipes :: "'k api \<Rightarrow> (exn, Pipe \<times> Pipe \<times> Pipe, 'k) call" where
  "three_pipes K k =
     (case Pipe_ctor K k of
        (Inl e, k1) \<Rightarrow> (Inl e, k1)
      | (Inr a, k1) \<Rightarrow> (case Pipe_ctor K k1 of
          (Inl e, k2) \<Rightarrow> (Inl e, Pipe_dtor K a k2)
        | (Inr b, k2) \<Rightarrow> (case Pipe_ctor K k2 of
            (Inl e, k3) \<Rightarrow> (Inl e, Pipe_dtor K a (Pipe_dtor K b k3))
          | (Inr c, k3) \<Rightarrow> (Inr (a, b, c), k3))))"

definition posix_vfork ::
  "'k api \<Rightarrow> report_env \<Rightarrow> ('k \<Rightarrow> 'i main_outcome \<times> 'k) \<Rightarrow> StandardStream \<Rightarrow> Pipe option \<Rightarrow> 'k \<Rightarrow>
   ('k, 'i) fork_result" where
  "posix_vfork K env main flags s k =
     (case three_pipes K k of
        (Inl e, k2) \<Rightarrow> \<lparr>fr_parent = Inl e, fr_static = s, fr_kernel = k2, fr_child = None\<rparr>
      | (Inr (pin, pout, perr), k2) \<Rightarrow> (case sys_fork K k2 of
          (Inl errno, k3) \<Rightarrow>
            \<lparr>fr_parent = Inl (System_Error errno), fr_static = s,
             fr_kernel = destroy_pipes K pin pout perr k3, fr_child = None\<rparr>
        | (Inr (pid, kc), k3) \<Rightarrow>
            (let ch = fork_child K env main flags pin pout perr kc;
                 (pin', pout', perr') = cr_pipes ch
             in case fork_parent K pid pin' pout' perr' k3 of
               (r, k4) \<Rightarrow> \<lparr>fr_parent = r, fr_static = s, fr_kernel = k4, fr_child = Some ch\<rparr>)))"

section \<open>Opening the pipes\<close>

text \<open>A stream's pipe, opened or left closed.\<close>

definition opened :: "bool \<Rightarrow> (int \<rightharpoonup> desc) \<Rightarrow> Pipe \<Rightarrow> (int \<rightharpoonup> desc) \<Rightarrow> nat \<Rightarrow> bool" where
  "opened want t p t' n \<longleftrightarrow> added_pipe t p t' \<and>
     (if want then new_pipe_number t n \<and> ends_of t' p n else p = closed_pipe)"

context fd_kernel
begin

lemma fork_pipe_opened:
  assumes "fork_pipe K want closed_pipe k = (Inr p, k')"
  shows "\<exists>n. opened want (fdt k) p (fdt k') n"
proof (cases want)
  case False
  with assms show ?thesis by (simp add: fork_pipe_def opened_def)
next
  case True
  with assms obtain t k1 k2 where t: "Pipe_ctor K k = (Inr t, k1)"
    and p: "Pipe_copy K t k1 = (p, k2)" and k': "k' = Pipe_dtor K t k2"
    by (auto simp: fork_pipe_def Pipe_assign_eq split: prod.splits sum.splits)
  from Pipe_ctor_spec(4) [OF t] obtain n where n: "new_pipe_number (fdt k) n" "ends_of (fdt k1) t n"
    by blast
  from Pipe_ctor_spec(3) [OF t] have t_in: "pipe_fds t \<subseteq> dom (fdt k1)"
    and t_fr: "fdt k1 |` (- pipe_fds t) = fdt k" by (auto simp: added_pipe_def)
  note c = Pipe_copy_spec [OF p]
  have e: "ends_of (fdt k2) p n" by (rule Pipe_copy_ends [OF p t_in n(2)])
  have disj: "pipe_fds p \<inter> pipe_fds t = {}" using c(1) t_in by blast
  have fdt_k': "fdt k' = fdt k2 |` (- pipe_fds t)" by (simp add: k')
  have keep: "fdt k' fd = fdt k2 fd" if "fd \<in> pipe_fds p" for fd
    using disj that by (auto simp: fdt_k' restrict_map_def)
  have "fdt k' |` (- pipe_fds p) = fdt k2 |` (- pipe_fds p) |` (- pipe_fds t)"
    by (simp add: fdt_k' Int_commute)
  then have "fdt k' |` (- pipe_fds p) = fdt k" using c(2) t_fr by simp
  moreover have "pipe_fds p \<inter> dom (fdt k) = {}"
    using c(1) t_fr by (metis disjoint_iff dom_restrict IntD1)
  moreover have "pipe_fds p \<subseteq> dom (fdt k')" using c(5) keep by (auto simp: dom_def subset_iff)
  moreover have "ends_of (fdt k') p n" using e keep by (auto simp: ends_of_def pipe_fds_def)
  ultimately have "opened want (fdt k) p (fdt k') n"
    using c(6) n True by (simp add: opened_def added_pipe_def)
  then show ?thesis by blast
qed

lemma fork_pipe_fail: "fork_pipe K want p k = (Inl e, k') \<Longrightarrow> fdt k' = fdt k"
  by (auto simp: fork_pipe_def dest: Pipe_ctor_fail split: if_splits prod.splits sum.splits)

lemma destroy_pipes_fdt:
  "fdt (destroy_pipes K a b c k) = fdt k |` (- (pipe_fds a \<union> pipe_fds b \<union> pipe_fds c))"
  by (simp add: destroy_pipes_def Int_ac)

lemma open_pipes_opened:
  assumes "open_pipes K flags closed_pipe closed_pipe closed_pipe k = (Inr (a, b, c), k')"
  shows "\<exists>t1 t2 i j l. opened (stream_set flags stream_stdin) (fdt k) a t1 i \<and>
    opened (stream_set flags stream_stdout) t1 b t2 j \<and>
    opened (stream_set flags stream_stderr) t2 c (fdt k') l"
proof -
  from assms obtain k1 k2 where
    "fork_pipe K (stream_set flags stream_stdin) closed_pipe k = (Inr a, k1)"
    "fork_pipe K (stream_set flags stream_stdout) closed_pipe k1 = (Inr b, k2)"
    "fork_pipe K (stream_set flags stream_stderr) closed_pipe k2 = (Inr c, k')"
    by (auto simp: open_pipes_def split: prod.splits sum.splits)
  then show ?thesis using fork_pipe_opened by meson
qed

lemma opened_frame: "opened want t p t' n \<Longrightarrow> t' |` (- pipe_fds p) = t"
  by (simp add: opened_def added_pipe_def)

lemma opened_two: "opened w t p t1 n \<Longrightarrow> opened v t1 q t2 m \<Longrightarrow> t2 |` (- pipe_fds q) |` (- pipe_fds p) = t"
  by (simp add: opened_frame)

lemma open_pipes_fail:
  assumes "open_pipes K flags closed_pipe closed_pipe closed_pipe k = (Inl e, k')"
  shows "fdt k' = fdt k"
proof -
  let ?in = "stream_set flags stream_stdin" and ?out = "stream_set flags stream_stdout"
  from assms consider
      k1 where "fork_pipe K ?in closed_pipe k = (Inl e, k1)" "k' = destroy_pipes K closed_pipe closed_pipe closed_pipe k1"
    | a k1 k2 where "fork_pipe K ?in closed_pipe k = (Inr a, k1)" "fork_pipe K ?out closed_pipe k1 = (Inl e, k2)"
        "k' = destroy_pipes K a closed_pipe closed_pipe k2"
    | a b k1 k2 k3 where "fork_pipe K ?in closed_pipe k = (Inr a, k1)" "fork_pipe K ?out closed_pipe k1 = (Inr b, k2)"
        "fork_pipe K (stream_set flags stream_stderr) closed_pipe k2 = (Inl e, k3)"
        "k' = destroy_pipes K a b closed_pipe k3"
    by (auto simp: open_pipes_def split: prod.splits sum.splits)
  then show ?thesis
  proof cases
    case 1
    then show ?thesis by (simp add: destroy_pipes_fdt fork_pipe_fail)
  next
    case 2
    from fork_pipe_opened [OF 2(1)] opened_frame have "fdt k1 |` (- pipe_fds a) = fdt k" by blast
    then show ?thesis by (simp add: 2(3) destroy_pipes_fdt fork_pipe_fail [OF 2(2)])
  next
    case 3
    from fork_pipe_opened [OF 3(1)] fork_pipe_opened [OF 3(2)] opened_two
    have "fdt k2 |` (- pipe_fds b) |` (- pipe_fds a) = fdt k" by blast
    then show ?thesis by (simp add: 3(4) destroy_pipes_fdt fork_pipe_fail [OF 3(3)] Int_commute)
  qed
qed

lemma invalid_pipes_spec:
  assumes "invalid_pipes K s k = (r, s', k')" and "s = None \<or> s = Some closed_pipe"
  shows "fdt k' = fdt k \<and> (\<forall>ps. r = Inr ps \<longrightarrow> ps = (closed_pipe, closed_pipe, closed_pipe))"
proof (cases "Pipe_invalid K s k")
  case (fields r1 s1 k1)
  note i1 = Pipe_invalid_spec [OF fields assms(2)]
  show ?thesis
  proof (cases r1)
    case (Inl e)
    with assms(1) fields i1(1) show ?thesis by (auto simp: invalid_pipes_def)
  next
    case (Inr a)
    with i1 have a: "a = closed_pipe" "s1 = Some closed_pipe" by auto
    with assms(1) fields Inr have "r = Inr (closed_pipe, closed_pipe, closed_pipe)" and "k' = k1"
      by (simp_all add: invalid_pipes_def Pipe_invalid_def)
    with i1(1) show ?thesis by simp
  qed
qed

lemma invalid_pipes_static:
  assumes "invalid_pipes K s k = (r, s', k')" and "s = None \<or> s = Some closed_pipe"
  shows "s' = None \<or> s' = Some closed_pipe"
proof (cases "Pipe_invalid K s k")
  case (fields r1 s1 k1)
  note i1 = Pipe_invalid_spec [OF fields assms(2)]
  show ?thesis
  proof (cases r1)
    case (Inl e)
    with assms(1) fields i1 show ?thesis by (auto simp: invalid_pipes_def)
  next
    case (Inr a)
    with i1 have "a = closed_pipe" "s1 = Some closed_pipe" by auto
    with assms(1) fields Inr show ?thesis by (simp add: invalid_pipes_def Pipe_invalid_def)
  qed
qed

lemma redirect_if_ok:
  assumes "redirect_if K want fd stream k = (Inr u, k')"
  shows "fdt k' = (if want then (fdt k)(stream := fdt k fd) else fdt k) \<and> (want \<longrightarrow> fd \<in> dom (fdt k))"
  using assms dup2_ok [of fd stream k]
  by (auto simp: redirect_if_def redirect_stream_to_fd_def split: if_splits prod.splits sum.splits)

end

section \<open>The tables of child and parent\<close>

text \<open>The child's table when \<open>main\<close> is entered, from the one it inherits.\<close>

definition child_table ::
  "bool \<Rightarrow> bool \<Rightarrow> bool \<Rightarrow> Pipe \<Rightarrow> Pipe \<Rightarrow> Pipe \<Rightarrow> (int \<rightharpoonup> desc) \<Rightarrow> int \<rightharpoonup> desc" where
  "child_table win wout werr pin pout perr t =
     (let t1 = t(write_fd pin := None, read_fd pout := None, read_fd perr := None);
          t2 = (if win then t1(0 := t1 (read_fd pin)) else t1);
          t3 = (if wout then t2(1 := t2 (write_fd pout)) else t2)
      in if werr then t3(2 := t3 (write_fd perr)) else t3)"

text \<open>What is known of the three pipes when the call of fork(2) is made.\<close>

definition three_opened ::
  "bool \<Rightarrow> bool \<Rightarrow> bool \<Rightarrow> (int \<rightharpoonup> desc) \<Rightarrow> Pipe \<Rightarrow> Pipe \<Rightarrow> Pipe \<Rightarrow> (int \<rightharpoonup> desc) \<Rightarrow> nat \<Rightarrow> nat \<Rightarrow> nat \<Rightarrow> bool" where
  "three_opened win wout werr t pin pout perr t' i j l \<longleftrightarrow>
     (\<exists>t1 t2. opened win t pin t1 i \<and> opened wout t1 pout t2 j \<and> opened werr t2 perr t' l)"

lemma opened_table:
  assumes "opened want t p t' n"
  shows "t' = (\<lambda>x. if x \<in> pipe_fds p then Some (if x = read_fd p then Pipe_Read n else Pipe_Write n) else t x)"
    and "pipe_fds p \<inter> dom t = {}" and "read_fd p = - 1 \<or> read_fd p \<noteq> write_fd p"
    and "\<not> want \<Longrightarrow> pipe_fds p = {}"
    and "want \<Longrightarrow> x \<in> dom t \<Longrightarrow> t x \<noteq> Some (Pipe_Read n) \<and> t x \<noteq> Some (Pipe_Write n)"
proof -
  have "t' x = (if x \<in> pipe_fds p then Some (if x = read_fd p then Pipe_Read n else Pipe_Write n) else t x)" for x
  proof (cases "x \<in> pipe_fds p")
    case True
    with assms have want by (auto simp: opened_def split: if_splits)
    with assms True show ?thesis by (auto simp: opened_def ends_of_def pipe_fds_def)
  next
    case False
    with assms have "t' |` (- pipe_fds p) = t" by (simp add: opened_def added_pipe_def)
    with False show ?thesis by (metis ComplI restrict_in)
  qed
  then show "t' = (\<lambda>x. if x \<in> pipe_fds p then Some (if x = read_fd p then Pipe_Read n else Pipe_Write n) else t x)"
    by blast
qed (use assms in \<open>auto simp: opened_def added_pipe_def new_pipe_number_def ran_def split: if_splits\<close>)

text \<open>The descriptors of the three pipes are different from each other and from those open before.\<close>

lemma three_opened_table:
  assumes "three_opened win wout werr t pin pout perr t' i j l"
  shows "t' = (\<lambda>x. if x \<in> pipe_fds pin then Some (if x = read_fd pin then Pipe_Read i else Pipe_Write i)
      else if x \<in> pipe_fds pout then Some (if x = read_fd pout then Pipe_Read j else Pipe_Write j)
      else if x \<in> pipe_fds perr then Some (if x = read_fd perr then Pipe_Read l else Pipe_Write l)
      else t x)"
    and "pipe_fds pin \<inter> dom t = {}" and "pipe_fds pout \<inter> dom t = {}" and "pipe_fds perr \<inter> dom t = {}"
    and "pipe_fds pin \<inter> pipe_fds pout = {}" and "pipe_fds pin \<inter> pipe_fds perr = {}"
    and "pipe_fds pout \<inter> pipe_fds perr = {}"
proof -
  from assms obtain t1 t2 where o: "opened win t pin t1 i" "opened wout t1 pout t2 j"
    "opened werr t2 perr t' l" by (auto simp: three_opened_def)
  note tab = opened_table(1) [OF o(1)] opened_table(1) [OF o(2)] opened_table(1) [OF o(3)]
  note fresh = opened_table(2) [OF o(1)] opened_table(2) [OF o(2)] opened_table(2) [OF o(3)]
  have d1: "dom t1 = dom t \<union> pipe_fds pin" by (subst tab(1)) auto
  have d2: "dom t2 = dom t1 \<union> pipe_fds pout" by (subst tab(2)) auto
  show dj: "pipe_fds pin \<inter> dom t = {}" "pipe_fds pout \<inter> dom t = {}" "pipe_fds perr \<inter> dom t = {}"
      "pipe_fds pin \<inter> pipe_fds pout = {}" "pipe_fds pin \<inter> pipe_fds perr = {}" "pipe_fds pout \<inter> pipe_fds perr = {}"
    using fresh unfolding d2 d1 by (simp_all add: Int_Un_distrib Int_commute)
  show "t' = (\<lambda>x. if x \<in> pipe_fds pin then Some (if x = read_fd pin then Pipe_Read i else Pipe_Write i)
      else if x \<in> pipe_fds pout then Some (if x = read_fd pout then Pipe_Read j else Pipe_Write j)
      else if x \<in> pipe_fds perr then Some (if x = read_fd perr then Pipe_Read l else Pipe_Write l)
      else t x)"
    unfolding tab using dj by (intro ext) auto
qed

lemma three_opened_std:
  assumes o: "three_opened win wout werr t pin pout perr t' i j l" and "{0, 1, 2} \<subseteq> dom t" and "x \<in> {0, 1, 2}"
  shows "t' x = t x \<and> x \<notin> {write_fd pin, read_fd pout, read_fd perr}"
proof -
  have "x \<notin> pipe_fds pin" "x \<notin> pipe_fds pout" "x \<notin> pipe_fds perr"
    using three_opened_table(2-4) [OF o] assms(2,3) by auto
  then show ?thesis using assms(3) by (auto simp: three_opened_table(1) [OF o]) (auto simp: pipe_fds_def)
qed

lemma three_opened_unwanted:
  assumes "three_opened win wout werr t pin pout perr t' i j l"
  shows "\<not> win \<Longrightarrow> pin = closed_pipe" and "\<not> wout \<Longrightarrow> pout = closed_pipe" and "\<not> werr \<Longrightarrow> perr = closed_pipe"
  using assms by (auto simp: three_opened_def opened_def)

lemma three_opened_numbers:
  assumes "three_opened win wout werr t pin pout perr t' i j l"
  shows "pipe_fds pin \<noteq> {} \<Longrightarrow> pipe_fds pout \<noteq> {} \<Longrightarrow> i \<noteq> j"
    and "pipe_fds pin \<noteq> {} \<Longrightarrow> pipe_fds perr \<noteq> {} \<Longrightarrow> i \<noteq> l"
    and "pipe_fds pout \<noteq> {} \<Longrightarrow> pipe_fds perr \<noteq> {} \<Longrightarrow> j \<noteq> l"
    and "win \<Longrightarrow> new_pipe_number t i" and "wout \<Longrightarrow> new_pipe_number t j" and "werr \<Longrightarrow> new_pipe_number t l"
proof -
  from assms obtain t1 t2 where o: "opened win t pin t1 i" "opened wout t1 pout t2 j"
    "opened werr t2 perr t' l" by (auto simp: three_opened_def)
  have mono: "ran m \<subseteq> ran m'" if "opened w m p m' n" for w m p m' n
  proof
    fix d assume "d \<in> ran m"
    then obtain x where x: "m x = Some d" by (auto simp: ran_def)
    with opened_table(2) [OF that] have "x \<notin> pipe_fds p" by auto
    with x opened_table(1) [OF that] have "m' x = Some d" by simp
    then show "d \<in> ran m'" by (rule ranI)
  qed
  have mine: "\<not> new_pipe_number m' n" if "opened w m p m' n" "pipe_fds p \<noteq> {}" for w m p m' n
  proof -
    from that(2) obtain x where "x \<in> pipe_fds p" by blast
    with opened_table(1) [OF that(1)] have "m' x \<in> {Some (Pipe_Read n), Some (Pipe_Write n)}" by simp
    then show ?thesis by (auto simp: new_pipe_number_def ran_def)
  qed
  have new: "new_pipe_number m n" if "opened w m p m' n" w for w m p m' n
    using that by (simp add: opened_def)
  have anti: "new_pipe_number m n" if "new_pipe_number m' n" "ran m \<subseteq> ran m'" for m m' n
    using that by (auto simp: new_pipe_number_def)
  have want: "w" if "opened w m p m' n" "pipe_fds p \<noteq> {}" for w m p m' n
    using opened_table(4) [OF that(1)] that(2) by blast
  show "pipe_fds pin \<noteq> {} \<Longrightarrow> pipe_fds pout \<noteq> {} \<Longrightarrow> i \<noteq> j"
    using mine [OF o(1)] new [OF o(2)] want [OF o(2)] by metis
  show "pipe_fds pout \<noteq> {} \<Longrightarrow> pipe_fds perr \<noteq> {} \<Longrightarrow> j \<noteq> l"
    using mine [OF o(2)] new [OF o(3)] want [OF o(3)] by metis
  show "pipe_fds pin \<noteq> {} \<Longrightarrow> pipe_fds perr \<noteq> {} \<Longrightarrow> i \<noteq> l"
    using mine [OF o(1)] new [OF o(3)] want [OF o(3)] anti [OF _ mono [OF o(2)]] by metis
  show "win \<Longrightarrow> new_pipe_number t i" by (rule new [OF o(1)])
  show "wout \<Longrightarrow> new_pipe_number t j" using new [OF o(2)] anti mono [OF o(1)] by blast
  show "werr \<Longrightarrow> new_pipe_number t l" using new [OF o(3)] anti mono [OF o(1)] mono [OF o(2)] by blast
qed

text \<open>
  Under the conditions in which \<open>main\<close> is entered: the standard descriptors were open, and
  the end to redirect to exists for every stream asked for.
\<close>

lemma child_table_eq:
  assumes "three_opened win wout werr t pin pout perr t' i j l" and "{0, 1, 2} \<subseteq> dom t" and "t (- 1) = None"
    and "win \<Longrightarrow> read_fd pin \<noteq> - 1" and "wout \<Longrightarrow> write_fd pout \<noteq> - 1" and "werr \<Longrightarrow> write_fd perr \<noteq> - 1"
  shows "child_table win wout werr pin pout perr t' =
    (\<lambda>x. if x = 0 \<and> win then Some (Pipe_Read i) else if x = 1 \<and> wout then Some (Pipe_Write j)
      else if x = 2 \<and> werr then Some (Pipe_Write l)
      else if x \<in> {write_fd pin, read_fd pout, read_fd perr} then None else t' x)"
proof -
  note tab = three_opened_table [OF assms(1)]
  from assms(1) have ne: "read_fd pin = - 1 \<or> read_fd pin \<noteq> write_fd pin"
    "read_fd pout = - 1 \<or> read_fd pout \<noteq> write_fd pout" "read_fd perr = - 1 \<or> read_fd perr \<noteq> write_fd perr"
    by (auto simp: three_opened_def dest: opened_table(3))
  have std: "x \<notin> {0, 1, 2}" if "x \<in> pipe_fds p" "p \<in> {pin, pout, perr}" for x p
  proof -
    from that tab(2-4) have "x \<notin> dom t" by auto
    with assms(2) show ?thesis by blast
  qed
  have fd_in: "win \<Longrightarrow> read_fd pin \<in> pipe_fds pin" and fd_out: "wout \<Longrightarrow> write_fd pout \<in> pipe_fds pout"
    and fd_err: "werr \<Longrightarrow> write_fd perr \<in> pipe_fds perr"
    using assms(4-6) by (auto simp: pipe_fds_def)
  have in': "t' (read_fd pin) = Some (Pipe_Read i) \<and> read_fd pin \<notin> {0, 1, 2, write_fd pin, read_fd pout, read_fd perr}" if win
  proof -
    have "read_fd pin \<notin> pipe_fds pout" "read_fd pin \<notin> pipe_fds perr" "read_fd pin \<notin> {0, 1, 2}"
      using fd_in [OF that] tab(5,6) std [OF fd_in [OF that]] by auto
    with assms(4) [OF that] ne(1) fd_in [OF that] show ?thesis
      by (simp add: tab(1)) (simp add: pipe_fds_def)
  qed
  have out': "t' (write_fd pout) = Some (Pipe_Write j) \<and> write_fd pout \<notin> {0, 1, 2, write_fd pin, read_fd pout, read_fd perr}" if wout
  proof -
    have "write_fd pout \<notin> pipe_fds pin" "write_fd pout \<notin> pipe_fds perr" "write_fd pout \<notin> {0, 1, 2}"
      using fd_out [OF that] tab(5,7) std [OF fd_out [OF that]] by auto
    with assms(5) [OF that] ne(2) fd_out [OF that] show ?thesis
      by (simp add: tab(1)) (auto simp add: pipe_fds_def)
  qed
  have err': "t' (write_fd perr) = Some (Pipe_Write l) \<and> write_fd perr \<notin> {0, 1, 2, write_fd pin, read_fd pout, read_fd perr}" if werr
  proof -
    have "write_fd perr \<notin> pipe_fds pin" "write_fd perr \<notin> pipe_fds pout" "write_fd perr \<notin> {0, 1, 2}"
      using fd_err [OF that] tab(6,7) std [OF fd_err [OF that]] by auto
    with assms(6) [OF that] ne(3) fd_err [OF that] show ?thesis
      by (simp add: tab(1)) (auto simp add: pipe_fds_def)
  qed
  show ?thesis
    using in' out' err' by (intro ext) (cases win; cases wout; cases werr; simp add: child_table_def Let_def)
qed

lemma three_opened_distinct:
  assumes "three_opened win wout werr t pin pout perr t' i j l"
  shows "write_fd pin \<noteq> - 1 \<Longrightarrow> write_fd pin \<notin> {read_fd pin, write_fd pout, write_fd perr}"
    and "read_fd pout \<noteq> - 1 \<Longrightarrow> read_fd pout \<notin> {read_fd pin, write_fd pout, write_fd perr}"
    and "read_fd perr \<noteq> - 1 \<Longrightarrow> read_fd perr \<notin> {read_fd pin, write_fd pout, write_fd perr}"
proof -
  from assms have ne: "read_fd pin = - 1 \<or> read_fd pin \<noteq> write_fd pin"
    "read_fd pout = - 1 \<or> read_fd pout \<noteq> write_fd pout" "read_fd perr = - 1 \<or> read_fd perr \<noteq> write_fd perr"
    by (auto simp: three_opened_def dest: opened_table(3))
  have apart: "x \<noteq> y" if "pipe_fds p \<inter> pipe_fds q = {}" "x \<noteq> - 1" "x \<in> {read_fd p, write_fd p}"
    "y \<in> {read_fd q, write_fd q}" for p q x y
    using that by (auto simp: pipe_fds_def)
  note dj = three_opened_table(5-7) [OF assms]
  note dj' = dj(1) [unfolded Int_commute [of "pipe_fds pin"]] dj(2) [unfolded Int_commute [of "pipe_fds pin"]]
    dj(3) [unfolded Int_commute [of "pipe_fds pout"]]
  show "write_fd pin \<noteq> - 1 \<Longrightarrow> write_fd pin \<notin> {read_fd pin, write_fd pout, write_fd perr}"
    using apart [OF dj(1), of "write_fd pin" "write_fd pout"] apart [OF dj(2), of "write_fd pin" "write_fd perr"] ne(1)
    by auto
  show "read_fd pout \<noteq> - 1 \<Longrightarrow> read_fd pout \<notin> {read_fd pin, write_fd pout, write_fd perr}"
    using apart [OF dj'(1), of "read_fd pout" "read_fd pin"] apart [OF dj(3), of "read_fd pout" "write_fd perr"] ne(2)
    by auto
  show "read_fd perr \<noteq> - 1 \<Longrightarrow> read_fd perr \<notin> {read_fd pin, write_fd pout, write_fd perr}"
    using apart [OF dj'(2), of "read_fd perr" "read_fd pin"] apart [OF dj'(3), of "read_fd perr" "write_fd pout"] ne(3)
    by auto
qed

text \<open>The table in the parent once the child's ends are closed.\<close>

lemma parent_fds:
  assumes o: "three_opened win wout werr t pin pout perr t' i j l"
    and t3: "t3 = t'(read_fd pin := None, write_fd pout := None, write_fd perr := None)"
  shows "write_fd pin \<noteq> - 1 \<Longrightarrow> t3 (write_fd pin) = Some (Pipe_Write i)"
    and "read_fd pout \<noteq> - 1 \<Longrightarrow> t3 (read_fd pout) = Some (Pipe_Read j)"
    and "read_fd perr \<noteq> - 1 \<Longrightarrow> t3 (read_fd perr) = Some (Pipe_Read l)"
proof -
  note tab = three_opened_table [OF o] and dis = three_opened_distinct [OF o]
  show "t3 (write_fd pin) = Some (Pipe_Write i)" if "write_fd pin \<noteq> - 1"
  proof -
    have "write_fd pin \<in> pipe_fds pin" using that by (simp add: pipe_fds_def)
    then show ?thesis using dis(1) [OF that] by (simp add: t3 tab(1))
  qed
  show "t3 (read_fd pout) = Some (Pipe_Read j)" if "read_fd pout \<noteq> - 1"
  proof -
    have "read_fd pout \<in> pipe_fds pout" using that by (simp add: pipe_fds_def)
    moreover from this tab(5) have "read_fd pout \<notin> pipe_fds pin" by auto
    ultimately show ?thesis using dis(2) [OF that] by (simp add: t3 tab(1))
  qed
  show "t3 (read_fd perr) = Some (Pipe_Read l)" if "read_fd perr \<noteq> - 1"
  proof -
    have "read_fd perr \<in> pipe_fds perr" using that by (simp add: pipe_fds_def)
    moreover from this tab(6,7) have "read_fd perr \<notin> pipe_fds pin" "read_fd perr \<notin> pipe_fds pout" by auto
    ultimately show ?thesis using dis(3) [OF that] by (simp add: t3 tab(1))
  qed
qed

lemma parent_ends:
  assumes o: "three_opened win wout werr t pin pout perr t' i j l" and "t (- 1) = None"
    and t3: "t3 = t'(read_fd pin := None, write_fd pout := None, write_fd perr := None)"
    and mine: "mine = {write_fd pin, read_fd pout, read_fd perr} - {- 1}"
  shows "mine \<subseteq> dom t3" and "t3 |` (- mine) = t" and "ends_of t3 (pin\<lparr>read_fd := - 1\<rparr>) i"
    and "ends_of t3 (pout\<lparr>write_fd := - 1\<rparr>) j" and "ends_of t3 (perr\<lparr>write_fd := - 1\<rparr>) l"
proof -
  note tab = three_opened_table [OF o] and fds = parent_fds [OF o t3]
  show "mine \<subseteq> dom t3" using fds by (auto simp: mine)
  show "ends_of t3 (pin\<lparr>read_fd := - 1\<rparr>) i" "ends_of t3 (pout\<lparr>write_fd := - 1\<rparr>) j"
    "ends_of t3 (perr\<lparr>write_fd := - 1\<rparr>) l"
    using fds by (simp_all add: ends_of_def)
  have gone: "x \<notin> dom t" if "x \<in> pipe_fds p" "p \<in> {pin, pout, perr}" for x p
    using that tab(2-4) by auto
  show "t3 |` (- mine) = t"
  proof
    fix x
    show "(t3 |` (- mine)) x = t x"
    proof (cases "x \<in> pipe_fds pin \<union> pipe_fds pout \<union> pipe_fds perr")
      case True
      then have "t x = None" using gone by auto
      moreover from True have "x \<in> mine \<or> x \<in> {read_fd pin, write_fd pout, write_fd perr}"
        by (auto simp: mine pipe_fds_def)
      ultimately show ?thesis by (auto simp: restrict_map_def t3)
    next
      case False
      then have "t' x = t x" by (simp add: tab(1))
      moreover from False have "x = - 1 \<or> x \<notin> mine \<and> x \<notin> {read_fd pin, write_fd pout, write_fd perr}"
        by (auto simp: mine pipe_fds_def)
      ultimately show ?thesis using assms(2) by (auto simp: restrict_map_def t3)
    qed
  qed
qed

lemma Pipe_copy_minus_one:
  "Pipe_copy K p k = (q, k') \<Longrightarrow> read_fd p = - 1 \<Longrightarrow> read_fd q = - 1"
  "Pipe_copy K p k = (q, k') \<Longrightarrow> write_fd p = - 1 \<Longrightarrow> write_fd q = - 1"
  by (auto simp: Pipe_copy_def dup_if_open_def Let_def split: prod.splits)

context fd_kernel
begin

lemma child_streams_table:
  assumes "child_streams K flags pin pout perr k = (Inr u, ps, k')"
  shows "fdt k' = child_table (stream_set flags stream_stdin) (stream_set flags stream_stdout)
      (stream_set flags stream_stderr) pin pout perr (fdt k)"
    and "stream_set flags stream_stdin \<Longrightarrow> read_fd pin \<noteq> - 1"
    and "stream_set flags stream_stdout \<Longrightarrow> write_fd pout \<noteq> - 1"
    and "stream_set flags stream_stderr \<Longrightarrow> write_fd perr \<noteq> - 1"
proof -
  let ?in = "stream_set flags stream_stdin" and ?out = "stream_set flags stream_stdout"
    and ?err = "stream_set flags stream_stderr"
  obtain p1 k1 where c1: "close_write_fd K pin k = (p1, k1)" by fastforce
  obtain p2 k2 where c2: "close_read_fd K pout k1 = (p2, k2)" by fastforce
  obtain p3 k3 where c3: "close_read_fd K perr k2 = (p3, k3)" by fastforce
  from assms c1 c2 c3 obtain k4 k5 where
    r1: "redirect_if K ?in (read_fd p1) 0 k3 = (Inr (), k4)" and
    r2: "redirect_if K ?out (write_fd p2) 1 k4 = (Inr (), k5)" and
    r3: "redirect_if K ?err (write_fd p3) 2 k5 = (Inr (), k')"
    by (auto simp: child_streams_def Let_def split: prod.splits sum.splits)
  note cl = close_write_fd_spec [OF c1] close_read_fd_spec [OF c2] close_read_fd_spec [OF c3]
  note rd = redirect_if_ok [OF r1] redirect_if_ok [OF r2] redirect_if_ok [OF r3]
  have p: "read_fd p1 = read_fd pin" "write_fd p2 = write_fd pout" "write_fd p3 = write_fd perr"
    using cl by auto
  have k3: "fdt k3 = (fdt k)(write_fd pin := None, read_fd pout := None, read_fd perr := None)"
    using cl by simp
  show "fdt k' = child_table ?in ?out ?err pin pout perr (fdt k)"
    using rd by (simp add: child_table_def Let_def k3 p)
  have open_fd: "fd \<in> dom (fdt x) \<Longrightarrow> fd \<noteq> - 1" for fd x by auto
  show "?in \<Longrightarrow> read_fd pin \<noteq> - 1" "?out \<Longrightarrow> write_fd pout \<noteq> - 1" "?err \<Longrightarrow> write_fd perr \<noteq> - 1"
    using rd open_fd p by metis+
qed

text \<open>In the parent, the object's copies are all that is left of the three pipes.\<close>

lemma fork_parent_table:
  assumes "fork_parent K pid pin pout perr k = (Inr c, k')"
    and o: "three_opened win wout werr t pin pout perr (fdt k) i j l"
  shows "fdt k' |` (- private_fds (child_d c)) = t" and "private_fds (child_d c) \<subseteq> dom (fdt k')"
    and "ends_of (fdt k') (pipes_stdin (child_d c)) i" and "ends_of (fdt k') (pipes_stdout (child_d c)) j"
    and "ends_of (fdt k') (pipes_stderr (child_d c)) l"
    and "read_fd (pipes_stdin (child_d c)) = - 1" and "write_fd (pipes_stdout (child_d c)) = - 1"
    and "write_fd (pipes_stderr (child_d c)) = - 1"
    and "\<not> win \<Longrightarrow> ChildProcess_cin c = - 1" and "\<not> wout \<Longrightarrow> ChildProcess_cout c = - 1"
    and "\<not> werr \<Longrightarrow> ChildProcess_cerr c = - 1"
    and "ChildProcess_cin c = write_fd (pipes_stdin (child_d c))"
    and "ChildProcess_cout c = read_fd (pipes_stdout (child_d c))"
    and "ChildProcess_cerr c = read_fd (pipes_stderr (child_d c))"
proof -
  let ?a = "pin\<lparr>read_fd := - 1\<rparr>" and ?b = "pout\<lparr>write_fd := - 1\<rparr>" and ?c = "perr\<lparr>write_fd := - 1\<rparr>"
  let ?d = "child_d c" and ?mine = "{write_fd pin, read_fd pout, read_fd perr} - {- 1}"
  obtain p1 k1 where c1: "close_read_fd K pin k = (p1, k1)" by fastforce
  obtain p2 k2 where c2: "close_write_fd K pout k1 = (p2, k2)" by fastforce
  obtain p3 k3 where c3: "close_write_fd K perr k2 = (p3, k3)" by fastforce
  note cl = close_read_fd_spec [OF c1] close_write_fd_spec [OF c2] close_write_fd_spec [OF c3]
  from assms(1) c1 c2 c3 cl obtain k4 where ctor: "Private_ctor K pid ?a ?b ?c k3 = (?d, k4)"
    and k': "k' = destroy_pipes K ?a ?b ?c k4"
    by (auto simp: fork_parent_def run_iff split: prod.splits)
  have k3: "fdt k3 = (fdt k)(read_fd pin := None, write_fd pout := None, write_fd perr := None)"
    using cl by simp
  have fds: "pipe_fds ?a \<union> pipe_fds ?b \<union> pipe_fds ?c = ?mine" by (auto simp: pipe_fds_def)
  have "t (- 1) = None"
    using fdt_minus_one [of k] by (simp add: three_opened_table(1) [OF o] pipe_fds_def)
  note pe = parent_ends [OF o this k3 refl]
  note fr = Private_ctor_frame [OF ctor] and en = Private_ctor_ends [OF ctor, unfolded fds, OF pe(1)]
  have at: "fdt k' = fdt k4 |` (- ?mine)" by (simp only: k' destroy_pipes_fdt fds)
  show "fdt k' |` (- private_fds ?d) = t"
    unfolding at restrict_restrict using fr(1) pe(2) by (metis Int_commute restrict_restrict)
  have keep: "fdt k' x = fdt k4 x" if "x \<in> private_fds ?d" for x
  proof -
    have "x \<in> - ?mine" using fr(2) pe(1) that by blast
    then show ?thesis unfolding at by (rule restrict_in)
  qed
  from Private_ctor_spec(1) [OF ctor] obtain k5 k6 where
    c: "Pipe_copy K ?a k3 = (pipes_stdin ?d, k5)" "Pipe_copy K ?b k5 = (pipes_stdout ?d, k6)"
      "Pipe_copy K ?c k6 = (pipes_stderr ?d, k4)" by auto
  show r: "read_fd (pipes_stdin ?d) = - 1" "write_fd (pipes_stdout ?d) = - 1" "write_fd (pipes_stderr ?d) = - 1"
    using Pipe_copy_minus_one(1) [OF c(1)] Pipe_copy_minus_one(2) [OF c(2)] Pipe_copy_minus_one(2) [OF c(3)]
    by simp_all
  show "ends_of (fdt k') (pipes_stdin ?d) i" "ends_of (fdt k') (pipes_stdout ?d) j"
    "ends_of (fdt k') (pipes_stderr ?d) l"
    using en(1) [OF pe(3)] en(2) [OF pe(4)] en(3) [OF pe(5)] r
    by (simp_all add: ends_of_def keep private_fds_def pipe_fds_def)
  then show "private_fds ?d \<subseteq> dom (fdt k')" using r by (auto simp: private_fds_def pipe_fds_def ends_of_def)
  show st: "ChildProcess_cin c = write_fd (pipes_stdin ?d)" "ChildProcess_cout c = read_fd (pipes_stdout ?d)"
    "ChildProcess_cerr c = read_fd (pipes_stderr ?d)"
    using Private_ctor_spec(2-4) [OF ctor]
    by (simp_all add: ChildProcess_cin_def ChildProcess_cout_def ChildProcess_cerr_def)
  show "\<not> win \<Longrightarrow> ChildProcess_cin c = - 1" "\<not> wout \<Longrightarrow> ChildProcess_cout c = - 1"
    "\<not> werr \<Longrightarrow> ChildProcess_cerr c = - 1"
    using three_opened_unwanted [OF o] Pipe_copy_minus_one(2) [OF c(1)] Pipe_copy_minus_one(1) [OF c(2)]
      Pipe_copy_minus_one(1) [OF c(3)] st by (auto simp: closed_pipe_def)
qed

lemma posix_fork_steps:
  assumes "s = None \<or> s = Some closed_pipe" and "fr_parent (posix_fork K env main flags s k) = Inr c"
  obtains s1 k1 pin pout perr k2 pid kc k3 where
    "invalid_pipes K s k = (Inr (closed_pipe, closed_pipe, closed_pipe), s1, k1)" and "fdt k1 = fdt k"
    and "open_pipes K flags closed_pipe closed_pipe closed_pipe k1 = (Inr (pin, pout, perr), k2)"
    and "sys_fork K k2 = (Inr (pid, kc), k3)"
    and "fork_parent K pid pin pout perr k3 = (Inr c, fr_kernel (posix_fork K env main flags s k))"
    and "fr_child (posix_fork K env main flags s k) = Some (fork_child K env main flags pin pout perr kc)"
proof -
  obtain ri s1 k1 where iv: "invalid_pipes K s k = (ri, s1, k1)" by (metis prod.collapse)
  note inv = invalid_pipes_spec [OF iv assms(1)]
  with assms(2) iv have ri: "ri = Inr (closed_pipe, closed_pipe, closed_pipe)"
    by (cases ri) (auto simp: posix_fork_def)
  obtain ro k2 where op: "open_pipes K flags closed_pipe closed_pipe closed_pipe k1 = (ro, k2)" by fastforce
  with assms(2) iv ri obtain pin pout perr where ro: "ro = Inr (pin, pout, perr)"
    by (cases ro) (auto simp: posix_fork_def)
  obtain rf k3 where fk: "sys_fork K k2 = (rf, k3)" by fastforce
  with assms(2) iv ri op ro obtain pid kc where rf: "rf = Inr (pid, kc)"
    by (cases rf) (auto simp: posix_fork_def)
  obtain rp k4 where pa: "fork_parent K pid pin pout perr k3 = (rp, k4)" by fastforce
  have r: "posix_fork K env main flags s k = \<lparr>fr_parent = rp, fr_static = s1, fr_kernel = k4,
      fr_child = Some (fork_child K env main flags pin pout perr kc)\<rparr>"
    using iv ri op ro fk rf pa by (simp add: posix_fork_def)
  from that [OF iv [unfolded ri] _ op [unfolded ro] fk [unfolded rf]] inv r pa assms(2) show ?thesis by simp
qed

lemma posix_fork_success:
  assumes "s = None \<or> s = Some closed_pipe" and "fr_parent (posix_fork K env main flags s k) = Inr c"
  obtains pin pout perr i j l pid kc k3 where
    "three_opened (stream_set flags stream_stdin) (stream_set flags stream_stdout)
       (stream_set flags stream_stderr) (fdt k) pin pout perr (fdt k3) i j l"
    and "fdt kc = fdt k3" and "0 < pid"
    and "fork_parent K pid pin pout perr k3 = (Inr c, fr_kernel (posix_fork K env main flags s k))"
    and "fr_child (posix_fork K env main flags s k) = Some (fork_child K env main flags pin pout perr kc)"
proof -
  from posix_fork_steps [OF assms] obtain k1 pin pout perr k2 pid kc k3 where
    k1: "fdt k1 = fdt k" and op: "open_pipes K flags closed_pipe closed_pipe closed_pipe k1 = (Inr (pin, pout, perr), k2)"
    and fk: "sys_fork K k2 = (Inr (pid, kc), k3)"
    and r: "fork_parent K pid pin pout perr k3 = (Inr c, fr_kernel (posix_fork K env main flags s k))"
      "fr_child (posix_fork K env main flags s k) = Some (fork_child K env main flags pin pout perr kc)"
    by metis
  note ff = fork_fdt [OF fk]
  from open_pipes_opened [OF op] k1 ff obtain i j l where
    "three_opened (stream_set flags stream_stdin) (stream_set flags stream_stdout)
       (stream_set flags stream_stderr) (fdt k) pin pout perr (fdt k3) i j l"
    unfolding three_opened_def by metis
  from that [OF this, of kc pid] r ff show ?thesis by simp
qed

lemma posix_fork_failure:
  assumes "s = None \<or> s = Some closed_pipe" and "fr_parent (posix_fork K env main flags s k) = Inl e"
  shows "fdt (fr_kernel (posix_fork K env main flags s k)) = fdt k"
proof -
  obtain ri s1 k1 where iv: "invalid_pipes K s k = (ri, s1, k1)" by (metis prod.collapse)
  note inv = invalid_pipes_spec [OF iv assms(1)]
  obtain ro k2 where op: "open_pipes K flags closed_pipe closed_pipe closed_pipe k1 = (ro, k2)" by fastforce
  obtain rf k3 where fk: "sys_fork K k2 = (rf, k3)" by fastforce
  have both: "fdt (destroy_pipes K pin pout perr k3) = fdt k"
    if "open_pipes K flags closed_pipe closed_pipe closed_pipe k1 = (Inr (pin, pout, perr), k2)" "rf = Inl x"
    for pin pout perr x
  proof -
    from open_pipes_opened [OF that(1)] inv obtain t1 t2 i j l where
      "opened (stream_set flags stream_stdin) (fdt k) pin t1 i"
      "opened (stream_set flags stream_stdout) t1 pout t2 j"
      "opened (stream_set flags stream_stderr) t2 perr (fdt k2) l" by metis
    then have "fdt k2 |` (- pipe_fds perr) |` (- pipe_fds pout) |` (- pipe_fds pin) = fdt k"
      by (simp only: opened_frame)
    then show ?thesis
      using fork_fail [OF fk [unfolded that(2)]] by (simp add: destroy_pipes_fdt Int_ac)
  qed
  have ok: "fork_parent K pid pin pout perr k3 \<noteq> (Inl x, k4)" if "rf = Inr (pid, kc)"
    for pid kc pin pout perr x k4
  proof -
    from fork_fdt [OF fk [unfolded that]] have "0 \<le> pid" by simp
    then show ?thesis
      by (auto simp: fork_parent_def ChildProcess_ctor_def Let_def split: prod.splits)
  qed
  show ?thesis
    using assms(2) inv iv open_pipes_fail [of flags k1] op fk both ok
    by (auto simp: posix_fork_def split: prod.splits sum.splits)
qed

end

context fd_kernel
begin

lemma three_pipes_opened:
  assumes "three_pipes K k = (Inr (pin, pout, perr), k')"
  obtains i j l where "three_opened True True True (fdt k) pin pout perr (fdt k') i j l"
    and "- 1 \<notin> {read_fd pin, write_fd pin, read_fd pout, write_fd pout, read_fd perr, write_fd perr}"
proof -
  from assms obtain k1 k2 where c: "Pipe_ctor K k = (Inr pin, k1)" "Pipe_ctor K k1 = (Inr pout, k2)"
    "Pipe_ctor K k2 = (Inr perr, k')"
    by (auto simp: three_pipes_def split: prod.splits sum.splits)
  have op: "\<exists>n. opened True (fdt x) p (fdt x') n" if "Pipe_ctor K x = (Inr p, x')" for p x x'
    using Pipe_ctor_spec(3,4) [OF that] by (auto simp: opened_def)
  from op [OF c(1)] op [OF c(2)] op [OF c(3)] obtain i j l where
    "three_opened True True True (fdt k) pin pout perr (fdt k') i j l"
    unfolding three_opened_def by blast
  moreover have "- 1 \<notin> {read_fd pin, write_fd pin, read_fd pout, write_fd pout, read_fd perr, write_fd perr}"
    using Pipe_ctor_spec(1,2) [OF c(1)] Pipe_ctor_spec(1,2) [OF c(2)] Pipe_ctor_spec(1,2) [OF c(3)] by auto
  ultimately show ?thesis by (rule that)
qed

text \<open>The parent's branch on the objects a vforked child leaves: all three pipes end up closed.\<close>

lemma fork_parent_after_child:
  assumes "fork_parent K pid (pin\<lparr>write_fd := - 1\<rparr>) (pout\<lparr>read_fd := - 1\<rparr>) (perr\<lparr>read_fd := - 1\<rparr>) k = (Inr c, k')"
  shows "pipes_stdin (child_d c) = closed_pipe" and "pipes_stdout (child_d c) = closed_pipe"
    and "pipes_stderr (child_d c) = closed_pipe"
    and "fdt k' = (fdt k)(read_fd pin := None, write_fd pout := None, write_fd perr := None)"
    and "ChildProcess_cin c = - 1" and "ChildProcess_cout c = - 1" and "ChildProcess_cerr c = - 1"
proof -
  obtain p1 k1 where c1: "close_read_fd K (pin\<lparr>write_fd := - 1\<rparr>) k = (p1, k1)" by fastforce
  obtain p2 k2 where c2: "close_write_fd K (pout\<lparr>read_fd := - 1\<rparr>) k1 = (p2, k2)" by fastforce
  obtain p3 k3 where c3: "close_write_fd K (perr\<lparr>read_fd := - 1\<rparr>) k2 = (p3, k3)" by fastforce
  note cl = close_read_fd_spec [OF c1] close_write_fd_spec [OF c2] close_write_fd_spec [OF c3]
  have p: "p1 = closed_pipe" "p2 = closed_pipe" "p3 = closed_pipe"
    using cl by (simp_all add: closed_pipe_def)
  from assms c1 c2 c3 p have ctor: "Private_ctor K pid closed_pipe closed_pipe closed_pipe k3 = (child_d c, k')"
    by (auto simp: fork_parent_def run_iff destroy_pipes_def split: prod.splits)
  then show "pipes_stdin (child_d c) = closed_pipe" "pipes_stdout (child_d c) = closed_pipe"
    "pipes_stderr (child_d c) = closed_pipe" by (auto simp: Private_ctor_def dest!: sym [of _ "child_d c"])
  then show "ChildProcess_cin c = - 1" "ChildProcess_cout c = - 1" "ChildProcess_cerr c = - 1"
    using Private_ctor_spec(2-4) [OF ctor]
    by (simp_all add: ChildProcess_cin_def ChildProcess_cout_def ChildProcess_cerr_def closed_pipe_def)
  from ctor have "k' = k3" by (auto simp: Private_ctor_def)
  with cl show "fdt k' = (fdt k)(read_fd pin := None, write_fd pout := None, write_fd perr := None)" by simp
qed

lemma child_streams_pipes:
  "fst (snd (child_streams K flags pin pout perr k)) =
     (pin\<lparr>write_fd := - 1\<rparr>, pout\<lparr>read_fd := - 1\<rparr>, perr\<lparr>read_fd := - 1\<rparr>)"
proof -
  obtain p1 k1 where c1: "close_write_fd K pin k = (p1, k1)" by fastforce
  obtain p2 k2 where c2: "close_read_fd K pout k1 = (p2, k2)" by fastforce
  obtain p3 k3 where c3: "close_read_fd K perr k2 = (p3, k3)" by fastforce
  show ?thesis
    using c1 c2 c3 close_write_fd_spec [OF c1] close_read_fd_spec [OF c2] close_read_fd_spec [OF c3]
    by (auto simp: child_streams_def split: prod.splits sum.splits)
qed

text \<open>What the parent's table looks like after the call, whether it returned or threw.\<close>

lemma posix_fork_frame:
  assumes "s = None \<or> s = Some closed_pipe"
  shows "fr_parent (posix_fork K env main flags s k) = Inl e \<Longrightarrow>
      fdt (fr_kernel (posix_fork K env main flags s k)) = fdt k"
    and "fr_parent (posix_fork K env main flags s k) = Inr c \<Longrightarrow>
      fdt (fr_kernel (posix_fork K env main flags s k)) |` (- private_fds (child_d c)) = fdt k \<and>
      private_fds (child_d c) \<subseteq> dom (fdt (fr_kernel (posix_fork K env main flags s k)))"
    and "fr_static (posix_fork K env main flags s k) = None \<or> fr_static (posix_fork K env main flags s k) = Some closed_pipe"
proof -
  show "fdt (fr_kernel (posix_fork K env main flags s k)) = fdt k"
    if "fr_parent (posix_fork K env main flags s k) = Inl e"
    by (rule posix_fork_failure [OF assms that])
  show "fdt (fr_kernel (posix_fork K env main flags s k)) |` (- private_fds (child_d c)) = fdt k \<and>
      private_fds (child_d c) \<subseteq> dom (fdt (fr_kernel (posix_fork K env main flags s k)))"
    if p: "fr_parent (posix_fork K env main flags s k) = Inr c"
  proof -
    from posix_fork_success [OF assms p] obtain pin pout perr i j l pid k3 where
      "three_opened (stream_set flags stream_stdin) (stream_set flags stream_stdout)
         (stream_set flags stream_stderr) (fdt k) pin pout perr (fdt k3) i j l"
      and "fork_parent K pid pin pout perr k3 = (Inr c, fr_kernel (posix_fork K env main flags s k))"
      by metis
    from fork_parent_table(1,2) [OF this(2,1)] show ?thesis by simp
  qed
  obtain r s1 k1 where iv: "invalid_pipes K s k = (r, s1, k1)" by (metis prod.collapse)
  have "fr_static (posix_fork K env main flags s k) = s1"
    using iv by (auto simp: posix_fork_def split: prod.splits sum.splits)
  with invalid_pipes_static [OF iv assms] show "fr_static (posix_fork K env main flags s k) = None \<or>
      fr_static (posix_fork K env main flags s k) = Some closed_pipe" by simp
qed

end

section \<open>Room for descriptors\<close>

text \<open>
  With room for eight more descriptors no duplication fails: the third pipe is assigned while
  the two before it, the temporary and its copy are open.
\<close>

lemma opened_card:
  assumes "opened want t p t' n" and "finite (dom t)"
  shows "card (dom t') \<le> card (dom t) + 2"
proof -
  have "dom t' = dom t \<union> pipe_fds p" by (subst opened_table(1) [OF assms(1)]) auto
  moreover have "card (pipe_fds p) \<le> 2" by (auto simp: pipe_fds_def card_insert_if card_Diff_singleton_if)
  ultimately show ?thesis using card_Un_le [of "dom t" "pipe_fds p"] by simp
qed

lemma restrict_card:
  assumes "t' |` (- ({x, y, z} - {w})) = t" and "finite (dom t')"
  shows "card (dom t') \<le> card (dom t) + 3"
proof -
  let ?m = "{x, y, z} - {w}"
  have "dom t' \<subseteq> dom t \<union> ?m" using assms(1) by (auto simp: restrict_map_def split: if_splits)
  then have "card (dom t') \<le> card (dom t \<union> ?m)"
    using assms by (intro card_mono) (auto intro: finite_subset)
  moreover have "card ?m \<le> card {x, y, z}" by (intro card_mono) auto
  moreover have "card {x, y, z} \<le> 3" by (simp add: card_insert_if)
  ultimately show ?thesis using card_Un_le [of "dom t" ?m] by simp
qed

context fd_limit
begin

lemma limit_close_if_open [simp]: "limit (close_if_open K fd k) = limit k"
  by (simp add: close_if_open_def limit_close)

lemma limit_Pipe_dtor [simp]: "limit (Pipe_dtor K p k) = limit k"
  by (simp add: Pipe_dtor_def)

lemma limit_dup_if_open: "dup_if_open K fd k = (n, k') \<Longrightarrow> limit k' = limit k"
  using limit_dup [of fd k] by (auto simp: dup_if_open_def dup_or_minus_one_def split: if_splits prod.splits sum.splits)

lemma limit_Pipe_copy: "Pipe_copy K p k = (q, k') \<Longrightarrow> limit k' = limit k"
  by (auto simp: Pipe_copy_def Let_def dest!: limit_dup_if_open split: prod.splits)

lemma limit_Pipe_ctor: "Pipe_ctor K k = (r, k') \<Longrightarrow> limit k' = limit k"
  using limit_pipe [of k] by (auto simp: Pipe_ctor_def split: prod.splits sum.splits)

lemma limit_close_ends:
  "close_read_fd K p k = (q, k') \<Longrightarrow> limit k' = limit k"
  "close_write_fd K p k = (q, k') \<Longrightarrow> limit k' = limit k"
  by (auto simp: close_read_fd_def close_write_fd_def limit_close split: if_splits)

lemma limit_Pipe_invalid: "Pipe_invalid K s k = (r, s', k') \<Longrightarrow> limit k' = limit k"
  by (auto simp: Pipe_invalid_def Let_def dest!: limit_Pipe_copy limit_Pipe_ctor limit_close_ends
      split: option.splits prod.splits sum.splits)

lemma limit_invalid_pipes: "invalid_pipes K s k = (r, s', k') \<Longrightarrow> limit k' = limit k"
  by (auto simp: invalid_pipes_def dest!: limit_Pipe_invalid split: prod.splits sum.splits)

lemma limit_fork_pipe: "fork_pipe K want p k = (r, k') \<Longrightarrow> limit k' = limit k"
  by (auto simp: fork_pipe_def Pipe_assign_eq dest!: limit_Pipe_copy limit_Pipe_ctor split: if_splits prod.splits sum.splits)

lemma dup_if_open_room:
  assumes "dup_if_open K fd k = (n, k')" and "fd \<in> dom (fdt k)" and "card (dom (fdt k)) < limit k"
  shows "n \<noteq> - 1"
proof -
  have "fd \<noteq> - 1" using assms(2) by auto
  moreover obtain m k1 where d: "sys_dup K fd k = (Inr m, k1)"
    using dup_room [OF assms(2,3)] by (cases "sys_dup K fd k") (auto simp: isl_def split: sum.splits, metis sum.exhaust)
  ultimately show ?thesis using assms(1) dup_ok [OF d] by (auto simp: dup_if_open_def dup_or_minus_one_def)
qed

lemma Pipe_copy_room:
  assumes c: "Pipe_copy K p k = (q, k')" and p: "pipe_fds p \<subseteq> dom (fdt k)"
    and room: "card (dom (fdt k)) + 2 \<le> limit k"
  shows "read_fd p \<noteq> - 1 \<Longrightarrow> read_fd q \<noteq> - 1" and "write_fd p \<noteq> - 1 \<Longrightarrow> write_fd q \<noteq> - 1"
proof -
  from c obtain r w k1 where r: "dup_if_open K (read_fd p) k = (r, k1)"
    and w: "dup_if_open K (write_fd p) k1 = (w, k')" and q: "q = \<lparr>read_fd = r, write_fd = w\<rparr>"
    by (auto simp: Pipe_copy_def Let_def split: prod.splits)
  note sr = dup_if_open_spec [OF r]
  have "dom (fdt k) \<subseteq> dom (fdt k1)" and "card (dom (fdt k1)) \<le> Suc (card (dom (fdt k)))"
    using sr by (auto simp: card_insert_if fdt_finite)
  moreover from this(1) p have "read_fd p \<noteq> - 1 \<Longrightarrow> read_fd p \<in> dom (fdt k)" "write_fd p \<noteq> - 1 \<Longrightarrow> write_fd p \<in> dom (fdt k1)"
    unfolding pipe_fds_def by blast+
  ultimately show "read_fd p \<noteq> - 1 \<Longrightarrow> read_fd q \<noteq> - 1" and "write_fd p \<noteq> - 1 \<Longrightarrow> write_fd q \<noteq> - 1"
    using room dup_if_open_room [OF r] dup_if_open_room [OF w] limit_dup_if_open [OF r] by (auto simp: q)
qed

lemma Pipe_copy_card:
  assumes "Pipe_copy K p k = (q, k')"
  shows "card (dom (fdt k')) \<le> card (dom (fdt k)) + card (pipe_fds q)"
proof -
  have "dom (fdt k') \<subseteq> dom (fdt k) \<union> pipe_fds q"
    using Pipe_copy_spec(2) [OF assms] by (metis ComplI Diff_subset_conv Int_iff Un_iff dom_restrict subsetI)
  moreover have "finite (pipe_fds q)" by (simp add: pipe_fds_def)
  ultimately have "card (dom (fdt k')) \<le> card (dom (fdt k) \<union> pipe_fds q)"
    using fdt_finite by (intro card_mono) auto
  then show ?thesis using card_Un_le [of "dom (fdt k)" "pipe_fds q"] by simp
qed

lemma fork_pipe_room:
  assumes "fork_pipe K want closed_pipe k = (Inr p, k')" and want and "card (dom (fdt k)) + 4 \<le> limit k"
  shows "read_fd p \<noteq> - 1 \<and> write_fd p \<noteq> - 1"
proof -
  from assms(1,2) obtain t k1 k2 where t: "Pipe_ctor K k = (Inr t, k1)" and p: "Pipe_copy K t k1 = (p, k2)"
    by (auto simp: fork_pipe_def Pipe_assign_eq split: prod.splits sum.splits)
  note tc = Pipe_ctor_spec [OF t]
  from tc(3,4) have "\<exists>n. opened True (fdt k) t (fdt k1) n" by (auto simp: opened_def)
  then have "card (dom (fdt k1)) \<le> card (dom (fdt k)) + 2" using opened_card fdt_finite by blast
  then show ?thesis
    using Pipe_copy_room [OF p] tc(1-3) limit_Pipe_ctor [OF t] assms(3) by (simp add: added_pipe_def)
qed

lemma open_pipes_room:
  assumes "open_pipes K flags closed_pipe closed_pipe closed_pipe k = (Inr (a, b, c), k')"
    and room: "card (dom (fdt k)) + 8 \<le> limit k"
  shows "stream_set flags stream_stdin \<Longrightarrow> write_fd a \<noteq> - 1" and "stream_set flags stream_stdout \<Longrightarrow> read_fd b \<noteq> - 1"
    and "stream_set flags stream_stderr \<Longrightarrow> read_fd c \<noteq> - 1" and "limit k' = limit k"
proof -
  from assms obtain k1 k2 where
    o: "fork_pipe K (stream_set flags stream_stdin) closed_pipe k = (Inr a, k1)"
    "fork_pipe K (stream_set flags stream_stdout) closed_pipe k1 = (Inr b, k2)"
    "fork_pipe K (stream_set flags stream_stderr) closed_pipe k2 = (Inr c, k')"
    by (auto simp: open_pipes_def split: prod.splits sum.splits)
  have step: "card (dom (fdt y)) \<le> card (dom (fdt x)) + 2" if "fork_pipe K w closed_pipe x = (Inr p, y)" for w x p y
    using fork_pipe_opened [OF that] opened_card fdt_finite by blast
  note lim = limit_fork_pipe [OF o(1)] limit_fork_pipe [OF o(2)] limit_fork_pipe [OF o(3)]
  show "stream_set flags stream_stdin \<Longrightarrow> write_fd a \<noteq> - 1"
    using fork_pipe_room [OF o(1)] room by simp
  show "stream_set flags stream_stdout \<Longrightarrow> read_fd b \<noteq> - 1"
    using fork_pipe_room [OF o(2)] room step [OF o(1)] lim by simp
  show "stream_set flags stream_stderr \<Longrightarrow> read_fd c \<noteq> - 1"
    using fork_pipe_room [OF o(3)] room step [OF o(1)] step [OF o(2)] lim by simp
  show "limit k' = limit k" using lim by simp
qed

lemma fork_parent_room:
  assumes "fork_parent K pid pin pout perr k = (Inr c, k')"
    and o: "three_opened win wout werr t pin pout perr (fdt k) i j l" and room: "card (dom t) + 8 \<le> limit k"
  shows "write_fd pin \<noteq> - 1 \<Longrightarrow> ChildProcess_cin c \<noteq> - 1" and "read_fd pout \<noteq> - 1 \<Longrightarrow> ChildProcess_cout c \<noteq> - 1"
    and "read_fd perr \<noteq> - 1 \<Longrightarrow> ChildProcess_cerr c \<noteq> - 1"
proof -
  let ?a = "pin\<lparr>read_fd := - 1\<rparr>" and ?b = "pout\<lparr>write_fd := - 1\<rparr>" and ?c = "perr\<lparr>write_fd := - 1\<rparr>"
  let ?d = "child_d c" and ?mine = "{write_fd pin, read_fd pout, read_fd perr} - {- 1}"
  obtain p1 k1 where c1: "close_read_fd K pin k = (p1, k1)" by fastforce
  obtain p2 k2 where c2: "close_write_fd K pout k1 = (p2, k2)" by fastforce
  obtain p3 k3 where c3: "close_write_fd K perr k2 = (p3, k3)" by fastforce
  note cl = close_read_fd_spec [OF c1] close_write_fd_spec [OF c2] close_write_fd_spec [OF c3]
  from assms(1) c1 c2 c3 cl obtain k4 where ctor: "Private_ctor K pid ?a ?b ?c k3 = (?d, k4)"
    by (auto simp: fork_parent_def run_iff split: prod.splits)
  have "t (- 1) = None"
    using fdt_minus_one [of k] by (simp add: three_opened_table(1) [OF o] pipe_fds_def)
  note pe = parent_ends [OF o this _ refl, of "fdt k3"]
  have k3: "?mine \<subseteq> dom (fdt k3)" "fdt k3 |` (- ?mine) = t" using pe(1,2) cl by simp_all
  from Private_ctor_spec [OF ctor] obtain k5 k6 where
    c: "Pipe_copy K ?a k3 = (pipes_stdin ?d, k5)" "Pipe_copy K ?b k5 = (pipes_stdout ?d, k6)"
      "Pipe_copy K ?c k6 = (pipes_stderr ?d, k4)" by auto
  have one: "card (pipe_fds p) \<le> 1" if "read_fd p = - 1 \<or> write_fd p = - 1" for p
    using that by (auto simp: pipe_fds_def card_insert_if card_Diff_singleton_if)
  have n3: "card (dom (fdt k3)) \<le> card (dom t) + 3" by (rule restrict_card [OF k3(2) fdt_finite])
  have n5: "card (dom (fdt k5)) \<le> card (dom t) + 4"
    using n3 Pipe_copy_card [OF c(1)] one [OF disjI1, OF Pipe_copy_minus_one(1) [OF c(1)]] by simp
  have n6: "card (dom (fdt k6)) \<le> card (dom t) + 5"
    using n5 Pipe_copy_card [OF c(2)] one [OF disjI2, OF Pipe_copy_minus_one(2) [OF c(2)]] by simp
  have lim: "limit k3 = limit k" "limit k5 = limit k" "limit k6 = limit k"
    using limit_close_ends(1) [OF c1] limit_close_ends(2) [OF c2] limit_close_ends(2) [OF c3]
      limit_Pipe_copy [OF c(1)] limit_Pipe_copy [OF c(2)] by simp_all
  have grow: "dom (fdt k3) \<subseteq> dom (fdt k5)" "dom (fdt k5) \<subseteq> dom (fdt k6)"
    using Pipe_copy_spec(2) [OF c(1)] Pipe_copy_spec(2) [OF c(2)] by (metis dom_restrict inf_le1)+
  have own: "pipe_fds ?a \<subseteq> dom (fdt k3)" "pipe_fds ?b \<subseteq> dom (fdt k5)" "pipe_fds ?c \<subseteq> dom (fdt k6)"
    using k3(1) grow by (auto simp: pipe_fds_def)
  show "write_fd pin \<noteq> - 1 \<Longrightarrow> ChildProcess_cin c \<noteq> - 1"
    using Pipe_copy_room(2) [OF c(1) own(1)] n3 lim room by (simp add: ChildProcess_cin_def Private_ctor_spec(2) [OF ctor])
  show "read_fd pout \<noteq> - 1 \<Longrightarrow> ChildProcess_cout c \<noteq> - 1"
    using Pipe_copy_room(1) [OF c(2) own(2)] n5 lim room by (simp add: ChildProcess_cout_def Private_ctor_spec(3) [OF ctor])
  show "read_fd perr \<noteq> - 1 \<Longrightarrow> ChildProcess_cerr c \<noteq> - 1"
    using Pipe_copy_room(1) [OF c(3) own(3)] n6 lim room by (simp add: ChildProcess_cerr_def Private_ctor_spec(4) [OF ctor])
qed

text \<open>A fork with room for its descriptors gives the parent every stream asked for.\<close>

lemma posix_fork_room:
  assumes "s = None \<or> s = Some closed_pipe" and "fr_parent (posix_fork K env main flags s k) = Inr c"
    and room: "card (dom (fdt k)) + 8 \<le> limit k"
  shows "stream_set flags stream_stdin \<Longrightarrow> ChildProcess_cin c \<noteq> - 1"
    and "stream_set flags stream_stdout \<Longrightarrow> ChildProcess_cout c \<noteq> - 1"
    and "stream_set flags stream_stderr \<Longrightarrow> ChildProcess_cerr c \<noteq> - 1"
proof -
  from posix_fork_steps [OF assms(1,2)] obtain s1 k1 pin pout perr k2 pid kc k3 where
    iv: "invalid_pipes K s k = (Inr (closed_pipe, closed_pipe, closed_pipe), s1, k1)" and k1: "fdt k1 = fdt k"
    and op: "open_pipes K flags closed_pipe closed_pipe closed_pipe k1 = (Inr (pin, pout, perr), k2)"
    and fk: "sys_fork K k2 = (Inr (pid, kc), k3)"
    and pa: "fork_parent K pid pin pout perr k3 = (Inr c, fr_kernel (posix_fork K env main flags s k))"
    by metis
  have r1: "card (dom (fdt k1)) + 8 \<le> limit k1" using room k1 limit_invalid_pipes [OF iv] by simp
  note op' = open_pipes_room [OF op r1]
  have "limit k3 = limit k2" using limit_fork [of k2] fk by simp
  then have r3: "card (dom (fdt k)) + 8 \<le> limit k3" using op'(4) r1 k1 by simp
  from open_pipes_opened [OF op] k1 fork_fdt [OF fk] obtain i j l where
    "three_opened (stream_set flags stream_stdin) (stream_set flags stream_stdout)
       (stream_set flags stream_stderr) (fdt k) pin pout perr (fdt k3) i j l"
    unfolding three_opened_def by metis
  from fork_parent_room [OF pa this r3] op'(1-3)
  show "stream_set flags stream_stdin \<Longrightarrow> ChildProcess_cin c \<noteq> - 1"
    and "stream_set flags stream_stdout \<Longrightarrow> ChildProcess_cout c \<noteq> - 1"
    and "stream_set flags stream_stderr \<Longrightarrow> ChildProcess_cerr c \<noteq> - 1" by blast+
qed

end

section \<open>Properties\<close>

text \<open>
  A standard stream of the child and the parent's stream for it. If the stream was asked
  for, a pipe that did not exist before connects them: the child's descriptor \<open>fd\<close> is the
  one end, the parent's stream the other, and neither process holds the end of the other, so
  that closing a stream is seen at the other side. Only if there is no \<open>room\<close> may the parent be
  left without the stream. If it was not asked for, the child's descriptor is the inherited one
  and the parent has no stream.
\<close>

definition stream_wired ::
  "bool \<Rightarrow> bool \<Rightarrow> (int \<rightharpoonup> desc) \<Rightarrow> (int \<rightharpoonup> desc) \<Rightarrow> (int \<rightharpoonup> desc) \<Rightarrow> int \<Rightarrow> int \<Rightarrow> (nat \<Rightarrow> desc) \<Rightarrow> (nat \<Rightarrow> desc) \<Rightarrow> bool" where
  "stream_wired room want t child parent fd stream child_end parent_end \<longleftrightarrow>
     (if want
      then (\<exists>n. new_pipe_number t n \<and> child fd = Some (child_end n) \<and> parent_end n \<notin> ran child \<and>
              child_end n \<notin> ran parent \<and>
              (parent stream = Some (parent_end n) \<or> stream = - 1 \<and> \<not> room))
      else child fd = t fd \<and> stream = - 1)"

lemma in_parent_table:
  assumes "t' |` (- private_fds d) = t" and "ends_of t' (pipes_stdin d) i"
    and "ends_of t' (pipes_stdout d) j" and "ends_of t' (pipes_stderr d) l"
    and "read_fd (pipes_stdin d) = - 1" and "write_fd (pipes_stdout d) = - 1"
    and "write_fd (pipes_stderr d) = - 1" and "x \<in> ran t'"
  shows "x \<in> ran t \<or> write_fd (pipes_stdin d) \<noteq> - 1 \<and> x = Pipe_Write i \<or>
    read_fd (pipes_stdout d) \<noteq> - 1 \<and> x = Pipe_Read j \<or> read_fd (pipes_stderr d) \<noteq> - 1 \<and> x = Pipe_Read l"
proof -
  from assms(8) obtain fd where fd: "t' fd = Some x" by (auto simp: ran_def)
  show ?thesis
  proof (cases "fd \<in> private_fds d")
    case True
    with fd assms(2-7) show ?thesis by (auto simp: private_fds_def pipe_fds_def ends_of_def)
  next
    case False
    with fd assms(1) have "t fd = Some x" by (metis ComplI restrict_in)
    then show ?thesis by (auto intro: ranI)
  qed
qed

lemma in_child_table:
  assumes o: "three_opened win wout werr t pin pout perr t' i j l"
    and "d \<in> ran (\<lambda>x. if x = 0 \<and> win then Some (Pipe_Read i) else if x = 1 \<and> wout then Some (Pipe_Write j)
      else if x = 2 \<and> werr then Some (Pipe_Write l)
      else if x \<in> {write_fd pin, read_fd pout, read_fd perr} then None else t' x)"
  shows "d \<in> ran t \<or> win \<and> d = Pipe_Read i \<or> wout \<and> d = Pipe_Write j \<or> werr \<and> d = Pipe_Write l"
proof -
  have want: "pipe_fds pin \<noteq> {} \<Longrightarrow> win" "pipe_fds pout \<noteq> {} \<Longrightarrow> wout" "pipe_fds perr \<noteq> {} \<Longrightarrow> werr"
    using o opened_table(4) unfolding three_opened_def by blast+
  from assms(2) consider "win" "d = Pipe_Read i" | "wout" "d = Pipe_Write j" | "werr" "d = Pipe_Write l"
    | x where "x \<notin> {write_fd pin, read_fd pout, read_fd perr}" "t' x = Some d"
    by (auto simp: ran_def split: if_splits)
  then show ?thesis
  proof cases
    case (4 x)
    then consider "x \<in> pipe_fds pin" "d = Pipe_Read i" | "x \<in> pipe_fds pout" "d = Pipe_Write j"
      | "x \<in> pipe_fds perr" "d = Pipe_Write l" | "t x = Some d"
      by (auto simp: three_opened_table(1) [OF o] pipe_fds_def split: if_splits)
    then show ?thesis using want by cases (auto intro: ranI)
  qed auto
qed

text \<open>A run on the reference kernel: a child with all three streams redirected that exits with 0.\<close>

definition sample_env :: report_env where
  "sample_env = \<lparr>re_what = (\<lambda>_. ''what''), re_cxa = (\<lambda>_. (None, - 1)), re_stack = []\<rparr>"

definition sample_main :: "ref_kernel \<Rightarrow> nat main_outcome \<times> ref_kernel" where
  "sample_main k = (Main_Returned exit_success, k)"

definition sample_flags :: StandardStream where
  "sample_flags = stream_or (stream_or stream_stdin stream_stdout) stream_stderr"

definition sample_fork :: "(ref_kernel, nat) fork_result" where
  "sample_fork = posix_fork ref_api sample_env sample_main sample_flags None (ref_boot 16)"

lemma sample_fork_shape:
  "\<not> isl (fr_parent sample_fork)" "fr_child sample_fork \<noteq> None"
  "cr_main (the (fr_child sample_fork)) \<noteq> None"
  by code_simp+

lemma posix_fork_wired:
  assumes "fd_kernel K fdt" and "s = None \<or> s = Some closed_pipe" and "{0, 1, 2} \<subseteq> dom (fdt k)"
    and "fr_parent (posix_fork K env main flags s k) = Inr c"
    and "fr_child (posix_fork K env main flags s k) = Some ch" and "cr_main ch = Some km"
  shows "let parent = fdt (fr_kernel (posix_fork K env main flags s k)); child = fdt km in
    stream_wired False (stream_set flags stream_stdin) (fdt k) child parent 0 (ChildProcess_cin c) Pipe_Read Pipe_Write \<and>
    stream_wired False (stream_set flags stream_stdout) (fdt k) child parent 1 (ChildProcess_cout c) Pipe_Write Pipe_Read \<and>
    stream_wired False (stream_set flags stream_stderr) (fdt k) child parent 2 (ChildProcess_cerr c) Pipe_Write Pipe_Read"
proof -
  let ?in = "stream_set flags stream_stdin" and ?out = "stream_set flags stream_stdout"
    and ?err = "stream_set flags stream_stderr" and ?k = "fr_kernel (posix_fork K env main flags s k)"
  from fd_kernel.posix_fork_success [OF assms(1,2,4)] obtain pin pout perr i j l pid kc k3 where
    o: "three_opened ?in ?out ?err (fdt k) pin pout perr (fdt k3) i j l" and kc: "fdt kc = fdt k3"
    and pa: "fork_parent K pid pin pout perr k3 = (Inr c, ?k)"
    and ch: "fr_child (posix_fork K env main flags s k) = Some (fork_child K env main flags pin pout perr kc)"
    by metis
  from ch assms(5,6) obtain ps where cs: "child_streams K flags pin pout perr kc = (Inr (), ps, km)"
    by (auto simp: fork_child_def split: prod.splits sum.splits)
  note ct = fd_kernel.child_streams_table [OF assms(1) cs]
  note pt = fd_kernel.fork_parent_table [OF assms(1) pa o]
  have child: "fdt km = (\<lambda>x. if x = 0 \<and> ?in then Some (Pipe_Read i) else if x = 1 \<and> ?out then Some (Pipe_Write j)
      else if x = 2 \<and> ?err then Some (Pipe_Write l)
      else if x \<in> {write_fd pin, read_fd pout, read_fd perr} then None else fdt k3 x)"
    using child_table_eq [OF o assms(3) fd_kernel.fdt_minus_one [OF assms(1)] ct(2-4)] ct(1) by (simp add: kc)
  have in_child: "d \<in> ran (fdt km) \<Longrightarrow> d \<in> ran (fdt k) \<or> ?in \<and> d = Pipe_Read i \<or> ?out \<and> d = Pipe_Write j \<or>
      ?err \<and> d = Pipe_Write l" for d
    unfolding child by (rule in_child_table [OF o])
  have in_parent: "d \<in> ran (fdt ?k) \<Longrightarrow> d \<in> ran (fdt k) \<or> ?in \<and> d = Pipe_Write i \<or> ?out \<and> d = Pipe_Read j \<or>
      ?err \<and> d = Pipe_Read l" for d
    using in_parent_table [OF pt(1,3-8), of d] pt(9-14) by metis
  have ne: "?in \<Longrightarrow> pipe_fds pin \<noteq> {}" "?out \<Longrightarrow> pipe_fds pout \<noteq> {}" "?err \<Longrightarrow> pipe_fds perr \<noteq> {}"
    using ct(2-4) by (auto simp: pipe_fds_def)
  have num: "?in \<Longrightarrow> ?out \<Longrightarrow> i \<noteq> j" "?in \<Longrightarrow> ?err \<Longrightarrow> i \<noteq> l" "?out \<Longrightarrow> ?err \<Longrightarrow> j \<noteq> l"
    using three_opened_numbers(1-3) [OF o] ne by blast+
  note new = three_opened_numbers(4-6) [OF o, unfolded new_pipe_number_def]
  note std = three_opened_std [OF o assms(3)]
  have "stream_wired False ?in (fdt k) (fdt km) (fdt ?k) 0 (ChildProcess_cin c) Pipe_Read Pipe_Write"
    unfolding stream_wired_def new_pipe_number_def
    using new(1) num(1,2) in_child [of "Pipe_Write i"] in_parent [of "Pipe_Read i"] pt(3,9,12) std [of 0]
    by (auto simp: child ends_of_def)
  moreover have "stream_wired False ?out (fdt k) (fdt km) (fdt ?k) 1 (ChildProcess_cout c) Pipe_Write Pipe_Read"
    unfolding stream_wired_def new_pipe_number_def
    using new(2) num(1,3) in_child [of "Pipe_Read j"] in_parent [of "Pipe_Write j"] pt(4,10,13) std [of 1]
    by (auto simp: child ends_of_def)
  moreover have "stream_wired False ?err (fdt k) (fdt km) (fdt ?k) 2 (ChildProcess_cerr c) Pipe_Write Pipe_Read"
    unfolding stream_wired_def new_pipe_number_def
    using new(3) num(2,3) in_child [of "Pipe_Read l"] in_parent [of "Pipe_Write l"] pt(5,11,14) std [of 2]
    by (auto simp: child ends_of_def)
  ultimately show ?thesis by (simp add: Let_def)
qed

text \<open>
  C1: the streams of a forked child are wired as asked for, on every kernel that obeys the
  descriptor laws: for each of stdin, stdout and stderr, when \<open>main\<close> is entered in the child
  and the object has been returned in the parent. The parent has the stream whenever eight more
  descriptors could be open before the call. It is assumed that descriptors 0, 1 and 2
  are open in the caller.
\<close>

theorem fork_wires_streams:
  assumes "fd_limit K fdt limit" and "s = None \<or> s = Some closed_pipe" and "{0, 1, 2} \<subseteq> dom (fdt k)"
    and "fr_parent (posix_fork K env main flags s k) = Inr c"
    and "fr_child (posix_fork K env main flags s k) = Some ch" and "cr_main ch = Some km"
  shows "let parent = fdt (fr_kernel (posix_fork K env main flags s k)); child = fdt km;
      room = card (dom (fdt k)) + 8 \<le> limit k in
    stream_wired room (stream_set flags stream_stdin) (fdt k) child parent 0 (ChildProcess_cin c) Pipe_Read Pipe_Write \<and>
    stream_wired room (stream_set flags stream_stdout) (fdt k) child parent 1 (ChildProcess_cout c) Pipe_Write Pipe_Read \<and>
    stream_wired room (stream_set flags stream_stderr) (fdt k) child parent 2 (ChildProcess_cerr c) Pipe_Write Pipe_Read"
proof -
  have K: "fd_kernel K fdt" using assms(1) by (simp add: fd_limit_def)
  have keep: "stream_wired room want t child parent fd stream ce pe"
    if "stream_wired False want t child parent fd stream ce pe" "room \<Longrightarrow> want \<Longrightarrow> stream \<noteq> - 1"
    for room want t child parent fd stream ce pe
    using that by (auto simp: stream_wired_def split: if_splits)
  note rm = fd_limit.posix_fork_room [OF assms(1,2,4)]
  show ?thesis
    using posix_fork_wired [OF K assms(2-6)] rm by (auto simp: Let_def intro!: keep)
qed

theorem fork_wires_streams_witness:
  "\<exists>c ch km n. fr_parent sample_fork = Inr c \<and> fr_child sample_fork = Some ch \<and> cr_main ch = Some km \<and>
     rk_fdt km 0 = Some (Pipe_Read n) \<and> rk_fdt (fr_kernel sample_fork) (ChildProcess_cin c) = Some (Pipe_Write n)"
proof -
  from sample_fork_shape obtain c ch km where sh: "fr_parent sample_fork = Inr c" "fr_child sample_fork = Some ch"
    "cr_main ch = Some km" by (auto simp: isl_def) (metis sum.collapse(2) isl_def)
  have std: "{0, 1, 2} \<subseteq> dom (rk_fdt (ref_boot 16))" by (auto simp: rk_fdt_def ref_boot_def)
  have "dom (rk_fdt (ref_boot 16)) \<subseteq> {0, 1, 2}" by (auto simp: rk_fdt_def ref_boot_def split: if_splits)
  then have "card (dom (rk_fdt (ref_boot 16))) \<le> card {0, 1, 2 :: int}" by (intro card_mono) auto
  then have room: "card (dom (rk_fdt (ref_boot 16))) + 8 \<le> length (rk_fds (ref_boot 16))"
    by (simp add: ref_boot_def)
  have "stream_set sample_flags stream_stdin" by code_simp
  with fork_wires_streams [OF rk.fd_limit_axioms _ std sh(1,2) [unfolded sample_fork_def] sh(3)] sh room
  show ?thesis by (auto simp: Let_def stream_wired_def sample_fork_def)
qed

text \<open>
  C2: no descriptor is leaked by fork. If the call throws, the parent's table is the one
  before the call. If it returns, the table differs only in the descriptors the returned
  object holds, all of them new and open, and destroying the object gives the table before
  the call.
\<close>

theorem fork_leaks_no_descriptor:
  assumes "fd_kernel K fdt" and "s = None \<or> s = Some closed_pipe"
  shows "let r = posix_fork K env main flags s k in
    (case fr_parent r of
       Inl _ \<Rightarrow> fdt (fr_kernel r) = fdt k
     | Inr c \<Rightarrow> fdt (fr_kernel r) |` (- private_fds (child_d c)) = fdt k \<and>
         private_fds (child_d c) \<subseteq> dom (fdt (fr_kernel r)) \<and> private_fds (child_d c) \<inter> dom (fdt k) = {} \<and>
         fdt (Private_dtor K (child_d c) (fr_kernel r)) = fdt k)"
proof (cases "fr_parent (posix_fork K env main flags s k)")
  case (Inl e)
  with fd_kernel.posix_fork_frame(1) [OF assms Inl] show ?thesis by (simp add: Let_def)
next
  case (Inr c)
  note pt = fd_kernel.posix_fork_frame(2) [OF assms Inr]
  then have "dom (fdt k) \<subseteq> - private_fds (child_d c)" by (metis dom_restrict inf_le2)
  with pt Inr fd_kernel.Private_dtor_fdt [OF assms(1)] show ?thesis by (auto simp: Let_def)
qed

theorem fork_leaks_no_descriptor_witness:
  "\<exists>c. fr_parent sample_fork = Inr c \<and>
     rk_fdt (Private_dtor ref_api (child_d c) (fr_kernel sample_fork)) = rk_fdt (ref_boot 16)"
proof -
  from sample_fork_shape obtain c where "fr_parent sample_fork = Inr c"
    by (cases "fr_parent sample_fork") auto
  with fork_leaks_no_descriptor [OF rk.fd_kernel_axioms, of None sample_env sample_main sample_flags "ref_boot 16",
      folded sample_fork_def]
  show ?thesis by (simp add: Let_def)
qed

text \<open>The status word of a process that calls \<open>::exit\<close>.\<close>

definition exit_word :: "int \<Rightarrow> 32 word" where
  "exit_word code = encode_status (Ev_Exited (word_of_int code))"

lemma exit_word_decode:
  "wait_decode (exit_word x) = \<lparr>wr_status = exited, wr_detail = If_Exited (Exit_Status (x mod 256))\<rparr>"
  by (simp add: exit_word_def wait_decode_encode uint_word_of_int del: encode_status.simps)

lemma fork_child_end:
  assumes "fr_child (posix_fork K env main flags s k) = Some ch" and "cr_main ch = Some km"
  shows "cr_end ch = child_finish env (fst (main km))"
proof -
  from assms(1) obtain pin pout perr kc where ch: "ch = fork_child K env main flags pin pout perr kc"
    by (auto simp: posix_fork_def split: prod.splits sum.splits)
  with assms(2) show ?thesis by (auto simp: fork_child_def split: sum.splits prod.splits)
qed

text \<open>
  C10: how a forked child ends. If a stream cannot be redirected, the error is reported and
  the child exits with \<open>failure\<close>, without entering \<open>main\<close>. Otherwise the status \<open>main\<close> returns
  is the exit code, and a wait reports its low eight bits; an exception, whatever its type,
  is reported and gives \<open>failure\<close>. The child never returns into the caller's code.
\<close>

theorem fork_child_outcome:
  assumes "fr_child (posix_fork K env main flags s k) = Some ch"
  shows "case cr_main ch of
      None \<Rightarrow> (\<exists>e. cr_end ch = Child_Exits 1 (report_exception env (System_Error e)))
    | Some km \<Rightarrow> (case fst (main km) of
        Main_Returned st \<Rightarrow> cr_end ch = Child_Exits (exit_int st) [] \<and>
          wait_decode (exit_word (exit_int st)) =
            \<lparr>wr_status = exited, wr_detail = If_Exited (Exit_Status (exit_int st mod 256))\<rparr>
      | Main_Threw e \<Rightarrow> cr_end ch = Child_Exits 1 (report_exception env e)
      | Main_Killed sig \<Rightarrow> cr_end ch = Child_Killed sig
      | Main_Replaced img \<Rightarrow> cr_end ch = Child_Replaced img)"
proof -
  from assms obtain pin pout perr kc where ch: "ch = fork_child K env main flags pin pout perr kc"
    by (auto simp: posix_fork_def split: prod.splits sum.splits)
  have sys: "\<exists>x. e = System_Error x" if "child_streams K flags pin pout perr kc = (Inl e, y)" for e y
    using that by (auto simp: child_streams_def redirect_if_def redirect_stream_to_fd_def Let_def
        split: prod.splits sum.splits if_splits)
  show ?thesis
  proof (cases "child_streams K flags pin pout perr kc")
    case (fields r ps k1)
    with sys show ?thesis
      by (auto simp: ch fork_child_def exit_failure_def exit_word_decode split: sum.splits main_outcome.splits prod.splits)
  qed
qed

theorem fork_child_outcome_witness:
  "cr_end (the (fr_child sample_fork)) = Child_Exits 0 []"
proof -
  from sample_fork_shape obtain ch km where "fr_child sample_fork = Some ch" "cr_main ch = Some km"
    by auto
  with fork_child_outcome [of ref_api sample_env sample_main sample_flags None "ref_boot 16" ch,
      folded sample_fork_def]
  show ?thesis by (simp add: sample_main_def exit_success_def)
qed

text \<open>
  C34: vfork runs the child in the parent's memory, so the ends the child closes are marked
  closed in the parent's objects too. The parent's object therefore never has a stream,
  whatever the flags are, and three open descriptors, one end of each of three new pipes,
  are left in the parent with nothing that would close them.
\<close>

theorem vfork_loses_streams_and_leaks:
  assumes "fd_kernel K fdt" and "fr_parent (posix_vfork K env main flags s k) = Inr c"
  shows "ChildProcess_cin c = - 1 \<and> ChildProcess_cout c = - 1 \<and> ChildProcess_cerr c = - 1 \<and>
    private_fds (child_d c) = {} \<and>
    (\<exists>w r e i j l. card {w, r, e} = 3 \<and> {w, r, e} \<inter> dom (fdt k) = {} \<and>
       fdt (fr_kernel (posix_vfork K env main flags s k)) =
         (fdt k)(w \<mapsto> Pipe_Write i, r \<mapsto> Pipe_Read j, e \<mapsto> Pipe_Read l))"
proof -
  let ?k = "fr_kernel (posix_vfork K env main flags s k)"
  from assms(2) obtain pin pout perr k2 pid kc k3 where
    tp: "three_pipes K k = (Inr (pin, pout, perr), k2)" and fk: "sys_fork K k2 = (Inr (pid, kc), k3)"
    by (auto simp: posix_vfork_def split: prod.splits sum.splits)
  let ?ch = "fork_child K env main flags pin pout perr kc"
  have "cr_pipes ?ch = (pin\<lparr>write_fd := - 1\<rparr>, pout\<lparr>read_fd := - 1\<rparr>, perr\<lparr>read_fd := - 1\<rparr>)"
    using fd_kernel.child_streams_pipes [OF assms(1), of flags pin pout perr kc]
    by (auto simp: fork_child_def split: prod.splits sum.splits)
  with assms(2) tp fk have "fork_parent K pid (pin\<lparr>write_fd := - 1\<rparr>) (pout\<lparr>read_fd := - 1\<rparr>)
      (perr\<lparr>read_fd := - 1\<rparr>) k3 = (Inr c, ?k)"
    by (auto simp: posix_vfork_def Let_def split: prod.splits)
  note fp = fd_kernel.fork_parent_after_child [OF assms(1) this]
  from fd_kernel.three_pipes_opened [OF assms(1) tp] obtain i j l where
    o: "three_opened True True True (fdt k) pin pout perr (fdt k2) i j l"
    and ne: "- 1 \<notin> {read_fd pin, write_fd pin, read_fd pout, write_fd pout, read_fd perr, write_fd perr}"
    by metis
  have k: "fdt ?k = (fdt k2)(read_fd pin := None, write_fd pout := None, write_fd perr := None)"
    using fp(4) fd_kernel.fork_fdt [OF assms(1) fk] by simp
  note pe = parent_ends [OF o fd_kernel.fdt_minus_one [OF assms(1)] k refl]
  let ?m = "{write_fd pin, read_fd pout, read_fd perr}"
  from ne have m: "?m - {- 1} = ?m" by auto
  have at: "fdt ?k (write_fd pin) = Some (Pipe_Write i)" "fdt ?k (read_fd pout) = Some (Pipe_Read j)"
    "fdt ?k (read_fd perr) = Some (Pipe_Read l)"
    using pe(3-5) ne by (auto simp: ends_of_def)
  have "fdt ?k = (fdt k)(write_fd pin \<mapsto> Pipe_Write i, read_fd pout \<mapsto> Pipe_Read j, read_fd perr \<mapsto> Pipe_Read l)"
    (is "_ = ?t")
  proof
    fix x
    show "fdt ?k x = ?t x"
      using at fun_cong [OF pe(2), of x] unfolding m by (cases "x \<in> ?m") (auto simp: restrict_map_def)
  qed
  moreover have "card ?m = 3" and "?m \<inter> dom (fdt k) = {}"
    using three_opened_table(2-7) [OF o] ne by (auto simp: pipe_fds_def)
  moreover have "private_fds (child_d c) = {}" using fp(1-3) by (simp add: private_fds_def)
  ultimately show ?thesis using fp(5-7) by blast
qed

theorem vfork_loses_streams_and_leaks_witness:
  "\<exists>c. fr_parent (posix_vfork ref_api sample_env sample_main sample_flags None (ref_boot 16)) = Inr c \<and>
     ChildProcess_cin c = - 1"
proof -
  let ?r = "posix_vfork ref_api sample_env sample_main sample_flags None (ref_boot 16)"
  have "\<not> isl (fr_parent ?r)" by code_simp
  then obtain c where "fr_parent ?r = Inr c" by (cases "fr_parent ?r") auto
  with vfork_loses_streams_and_leaks [OF rk.fd_kernel_axioms this] show ?thesis by blast
qed

end
