(* ===== verification/Exec.thy ===== *)
theory Exec
  imports Fork Env
begin

text \<open>
  \<open>exec.h\<close> and \<open>exec.cpp\<close>: the function handed to \<open>fork\<close> builds the two null-terminated
  arrays of C strings that execve(2) takes, runs the caller's set-up function and calls
  execve. The arrays are modelled cell by cell, with their allocated size: a cell is
  uninitialised until written, and a write past the end is not possible in the model (it
  ends the child with \<open>SIGSEGV\<close>). Memory allocation is assumed to succeed. A
  \<open>std::map\<close> is the list of its entries in the order of iteration.
\<close>

section \<open>Arrays of C strings\<close>

datatype cell = Uninitialised | Null_Pointer | C_String string

definition new_array :: "nat \<Rightarrow> cell list" where
  "new_array n = replicate n Uninitialised"

definition put :: "cell list \<Rightarrow> nat \<Rightarrow> cell \<Rightarrow> cell list option" where
  "put arr it c = (if it < length arr then Some (arr[it := c]) else None)"

definition strdup :: "string \<Rightarrow> cell" where
  "strdup s = C_String (c_str s)"

text \<open>The loop \<open>for (auto element : xs) { *it = ::strdup(element.c_str()); it++; }\<close>.\<close>

fun put_all :: "cell list \<Rightarrow> nat \<Rightarrow> string list \<Rightarrow> (cell list \<times> nat) option" where
  "put_all arr it [] = Some (arr, it)"
| "put_all arr it (element # xs) =
     (case put arr it (strdup element) of
        None \<Rightarrow> None
      | Some arr' \<Rightarrow> put_all arr' (it + 1) xs)"

definition build_argv :: "string \<Rightarrow> string list \<Rightarrow> cell list option" where
  "build_argv fn argv =
     (case put (new_array (length argv + 2)) 0 (strdup fn) of
        None \<Rightarrow> None
      | Some arr \<Rightarrow> (case put_all arr 1 argv of
          None \<Rightarrow> None
        | Some (arr', it) \<Rightarrow> put arr' it Null_Pointer))"

definition env_entry :: "string \<times> string \<Rightarrow> string" where
  "env_entry pair = fst pair @ ''='' @ snd pair"

definition build_envp :: "(string \<times> string) list \<Rightarrow> cell list option" where
  "build_envp env =
     (case put_all (new_array (length env + 1)) 0 (map env_entry env) of
        None \<Rightarrow> None
      | Some (arr, it) \<Rightarrow> put arr it Null_Pointer)"

text \<open>How the kernel reads such an array: up to the null pointer.\<close>

fun read_array :: "cell list \<Rightarrow> string list option" where
  "read_array [] = None"
| "read_array (Uninitialised # _) = None"
| "read_array (Null_Pointer # _) = Some []"
| "read_array (C_String s # cells) = map_option ((#) s) (read_array cells)"

section \<open>exec\<close>

text \<open>
  The call of execve(2) is a parameter: it fails with an \<open>errno\<close> or replaces the process
  image. \<open>child_setup\<close> is the caller's function.
\<close>

type_synonym ('k, 'i) execve = "string \<Rightarrow> cell list \<Rightarrow> cell list \<Rightarrow> 'k \<Rightarrow> (errno + 'i) \<times> 'k"

definition exec_main ::
  "('k, 'i) execve \<Rightarrow> ('k \<Rightarrow> (exn + unit) \<times> 'k) \<Rightarrow> string \<Rightarrow> string list \<Rightarrow> (string \<times> string) list \<Rightarrow>
   'k \<Rightarrow> 'i main_outcome \<times> 'k" where
  "exec_main execve child_setup fn argv env k =
     (case (build_argv fn argv, build_envp env) of
        (Some pargv, Some penv) \<Rightarrow>
          (case child_setup k of
             (Inl e, k1) \<Rightarrow> (Main_Threw e, k1)
           | (Inr _, k1) \<Rightarrow> (case execve (c_str fn) pargv penv k1 of
               (Inl _, k2) \<Rightarrow> (Main_Returned (Exit_Status (- 1)), k2)
             | (Inr img, k2) \<Rightarrow> (Main_Replaced img, k2)))
      | _ \<Rightarrow> (Main_Killed sig_segv, k))"

definition exec_with_setup ::
  "'k api \<Rightarrow> ('k, 'i) execve \<Rightarrow> report_env \<Rightarrow> string \<Rightarrow> string list \<Rightarrow> (string \<times> string) list \<Rightarrow>
   StandardStream \<Rightarrow> ('k \<Rightarrow> (exn + unit) \<times> 'k) \<Rightarrow> Pipe option \<Rightarrow> 'k \<Rightarrow> ('k, 'i) fork_result" where
  "exec_with_setup K execve renv fn argv env flags child_setup s k =
     posix_fork K renv (exec_main execve child_setup fn argv env) flags s k"

definition exec ::
  "'k api \<Rightarrow> ('k, 'i) execve \<Rightarrow> report_env \<Rightarrow> string \<Rightarrow> string list \<Rightarrow> (string \<times> string) list \<Rightarrow>
   StandardStream \<Rightarrow> Pipe option \<Rightarrow> 'k \<Rightarrow> ('k, 'i) fork_result" where
  "exec K execve renv fn argv env flags s k =
     exec_with_setup K execve renv fn argv env flags (\<lambda>k. (Inr (), k)) s k"

section \<open>The arrays are filled exactly\<close>

lemma put_all_append:
  "put_all (done @ replicate (length xs + n) Uninitialised) (length done) xs =
     Some (done @ map strdup xs @ replicate n Uninitialised, length done + length xs)"
proof (induction xs arbitrary: "done")
  case (Cons x xs)
  from Cons [of "done @ [strdup x]"] show ?case
    by (simp add: put_def list_update_append replicate_add)
qed simp

lemma put_last: "put (xs @ [Uninitialised]) (length xs) c = Some (xs @ [c])"
  by (simp add: put_def)

lemma build_argv_eq: "build_argv fn argv = Some (map strdup (fn # argv) @ [Null_Pointer])"
proof -
  have "put (new_array (length argv + 2)) 0 (strdup fn) = Some ([strdup fn] @ replicate (length argv + 1) Uninitialised)"
    by (simp add: put_def new_array_def)
  then show ?thesis
    using put_all_append [of "[strdup fn]" argv 1] put_last [of "strdup fn # map strdup argv" Null_Pointer]
    by (simp add: build_argv_def)
qed

lemma build_envp_eq: "build_envp env = Some (map strdup (map env_entry env) @ [Null_Pointer])"
  using put_all_append [of "[]" "map env_entry env" 1] put_last [of "map strdup (map env_entry env)" Null_Pointer]
  by (simp add: build_envp_def new_array_def)

lemma read_array_strings [simp]: "read_array (map strdup xs @ [Null_Pointer]) = Some (map c_str xs)"
  by (induction xs) (simp_all add: strdup_def)

section \<open>Properties\<close>

text \<open>
  C31: the arrays for execve are built inside their bounds, for every argument list and
  environment: no write is out of range, every cell is initialised, the array is terminated
  by exactly one null pointer, in its last cell, and what the kernel reads from it is the
  file name followed by the arguments, and the entries \<open>key=value\<close>.
\<close>

theorem exec_arrays_in_bounds:
  "\<exists>pargv penv. build_argv fn argv = Some pargv \<and> build_envp env = Some penv \<and>
     length pargv = length argv + 2 \<and> length penv = length env + 1 \<and>
     Uninitialised \<notin> set pargv \<and> Uninitialised \<notin> set penv \<and>
     read_array pargv = Some (map c_str (fn # argv)) \<and>
     read_array penv = Some (map c_str (map env_entry env)) \<and>
     Null_Pointer \<notin> set (butlast pargv) \<and> Null_Pointer \<notin> set (butlast penv)"
  using read_array_strings [of "fn # argv"] read_array_strings [of "map env_entry env"]
  by (simp only: build_argv_eq build_envp_eq) (auto simp: butlast_append strdup_def)

text \<open>
  C9: what becomes of an exec'd child whose streams are redirected. If the set-up function
  throws, the child exits with \<open>failure\<close>; if execve succeeds, the child is the new program,
  started with the file name, the arguments and the entries \<open>key=value\<close>; if execve fails, no
  exception reaches anyone: the child exits with -1, which a wait reports as 255.
\<close>

theorem exec_outcome:
  assumes "fr_child (exec_with_setup K execve renv fn argv env flags child_setup s k) = Some ch"
    and "cr_main ch = Some km"
  shows "case child_setup km of
      (Inl e, _) \<Rightarrow> cr_end ch = Child_Exits 1 (report_exception renv e)
    | (Inr _, k1) \<Rightarrow> (\<exists>pargv penv. read_array pargv = Some (map c_str (fn # argv)) \<and>
        read_array penv = Some (map c_str (map env_entry env)) \<and>
        (case fst (execve (c_str fn) pargv penv k1) of
           Inl _ \<Rightarrow> cr_end ch = Child_Exits (- 1) [] \<and>
             wait_decode (exit_word (- 1)) = \<lparr>wr_status = exited, wr_detail = If_Exited (Exit_Status 255)\<rparr>
         | Inr img \<Rightarrow> cr_end ch = Child_Replaced img))"
proof -
  let ?argv = "map strdup (fn # argv) @ [Null_Pointer]" and ?envp = "map strdup (map env_entry env) @ [Null_Pointer]"
  have "cr_end ch = child_finish renv (fst (exec_main execve child_setup fn argv env km))"
    using assms by (simp add: exec_with_setup_def fork_child_end)
  moreover have "read_array ?argv = Some (map c_str (fn # argv))"
    and "read_array ?envp = Some (map c_str (map env_entry env))" by (rule read_array_strings)+
  ultimately show ?thesis
    unfolding exec_main_def build_argv_eq build_envp_eq
    by (cases "child_setup km"; cases "fst (child_setup km)")
      (force simp: exit_failure_def exit_word_decode simp del: map_map list.map read_array_strings
        split: prod.splits sum.splits)+
qed

definition sample_execve :: "(ref_kernel, string list option \<times> string list option) execve" where
  "sample_execve fn pargv penv k =
     (if fn = ''/bin/true'' then (Inr (read_array pargv, read_array penv), k) else (Inl ENOENT, k))"

definition sample_exec :: "string \<Rightarrow> (ref_kernel, string list option \<times> string list option) fork_result" where
  "sample_exec fn = exec_with_setup ref_api sample_execve sample_env fn [''-v''] [(''A'', ''1'')] stream_empty
     (\<lambda>k. (Inr (), k)) None (ref_boot 8)"

lemma sample_exec_shape:
  "fr_child (sample_exec ''/nowhere'') \<noteq> None" "cr_main (the (fr_child (sample_exec ''/nowhere''))) \<noteq> None"
  by code_simp+

theorem exec_outcome_witness:
  "\<exists>ch. fr_child (sample_exec ''/nowhere'') = Some ch \<and> cr_end ch = Child_Exits (- 1) []"
proof -
  from sample_exec_shape obtain ch km where ch: "fr_child (sample_exec ''/nowhere'') = Some ch" "cr_main ch = Some km"
    by auto
  have "c_str ''/nowhere'' = ''/nowhere''" by (simp add: c_str_def NUL_def)
  with exec_outcome [OF ch(1) [unfolded sample_exec_def] ch(2)] ch show ?thesis
    by (auto simp: sample_execve_def)
qed

text \<open>
  C8: the environment given to exec is the one the new program sees through \<open>this_process::env\<close>:
  its \<open>for_each\<close> reports exactly the entries of the map, in order, and \<open>get\<close> finds for each
  key the value of the map and nothing for another key, provided keys are proper names and
  nothing contains a NUL.
\<close>

theorem exec_env_round_trip:
  assumes "\<forall>pair \<in> set env. env_key_ok (fst pair) \<and> NUL \<notin> set (snd pair) \<and> representable (env_entry pair)"
    and "build_envp env = Some penv" and "read_array penv = Some it"
  shows "env_pairs \<lparr>environ = Some it, env_nomem = m\<rparr> = Inr env \<and>
    (\<forall>key. env_key_ok key \<longrightarrow> env_lookup \<lparr>environ = Some it, env_nomem = m\<rparr> key = map_of env key)"
proof -
  have entry: "CHR ''='' \<in> set (env_entry pair)" for pair by (simp add: env_entry_def)
  have "c_str (env_entry pair) = env_entry pair" if "pair \<in> set env" for pair
    using assms(1) that by (auto simp: env_key_ok_def env_entry_def NUL_def)
  with assms(2,3) have it: "it = map env_entry env"
    by (auto simp: build_envp_eq simp del: map_map) auto
  have sp: "split_line (env_entry pair) = pair" if "pair \<in> set env" for pair
    using assms(1) that by (auto simp: env_key_ok_def env_name_ok_def env_entry_def split_line_def)
  then have m: "map split_line it = env" by (simp add: it comp_def map_idI)
  have "env_pairs \<lparr>environ = Some it, env_nomem = m\<rparr> = Inr (map split_line it)"
    using assms(1) by (simp add: env_pairs_def for_each_def it for_each_loop_fold fold_snoc)
  moreover have "map_of (map split_line it) key = env_lookup \<lparr>environ = Some it, env_nomem = m\<rparr> key"
    if "env_key_ok key" for key
    using that entry
    by (subst map_of_split_lines) (auto simp: it env_lookup_getenv getenv_def env_lines_def env_key_ok_def env_name_ok_def)
  ultimately show ?thesis using m by simp
qed

theorem exec_env_round_trip_witness:
  "env_pairs \<lparr>environ = Some [''A=x=y'', ''B=''], env_nomem = False\<rparr> = Inr [(''A'', ''x=y''), (''B'', [])]"
proof -
  let ?env = "[(''A'', ''x=y''), (''B'', [])] :: (string \<times> string) list"
  have "\<forall>pair \<in> set ?env. env_key_ok (fst pair) \<and> NUL \<notin> set (snd pair) \<and> representable (env_entry pair)"
    by (simp add: env_key_ok_def env_name_ok_def NUL_def representable_def env_entry_def)
  from exec_env_round_trip [OF this build_envp_eq, of "[''A=x=y'', ''B='']" False] show ?thesis
    by (simp add: env_entry_def strdup_def c_str_def NUL_def)
qed

end
