(* ===== verification/Handles.thy ===== *)
theory Handles
  imports Child_Process "HOL-Library.Multiset"
begin

text \<open>
  Handles of a child process (\<open>child_process.h\<close>): a \<open>ChildProcess\<close> object is the \<open>Process\<close> part
  and a \<open>std::shared_ptr\<close> to the one \<open>Private\<close> object. The class declares a destructor and
  neither copy nor move operations, so copying and assigning are the member-wise copies and a
  move is a copy. The model keeps the control blocks with their reference counts and the
  variables of the program that hold handles; the specification has no counts: an object is
  destroyed when no variable refers to it any more.
\<close>

section \<open>Control blocks and handles\<close>

record ChildHandle = Process +
  d_ref :: nat

record 'k heap =
  blocks :: "nat \<rightharpoonup> Private \<times> nat"
  next_block :: nat
  vars :: "nat \<rightharpoonup> ChildHandle"
  destroyed :: "nat list"
  kern :: 'k

definition heap_init :: "'k \<Rightarrow> 'k heap" where
  "heap_init k = \<lparr>blocks = Map.empty, next_block = 0, vars = Map.empty, destroyed = [], kern = k\<rparr>"

text \<open>Copying a \<open>shared_ptr\<close> increments the count of its control block.\<close>

definition acquire :: "nat \<Rightarrow> 'k heap \<Rightarrow> 'k heap" where
  "acquire b s = (case blocks s b of None \<Rightarrow> s | Some (d, n) \<Rightarrow> s\<lparr>blocks := (blocks s)(b \<mapsto> (d, n + 1))\<rparr>)"

text \<open>Destroying one decrements it and, at 0, destroys the object.\<close>

definition release :: "'k api \<Rightarrow> nat \<Rightarrow> 'k heap \<Rightarrow> 'k heap" where
  "release K b s = (case blocks s b of
       None \<Rightarrow> s
     | Some (d, n) \<Rightarrow>
         if n - 1 = 0 then s\<lparr>blocks := (blocks s)(b := None), destroyed := destroyed s @ [b],
             kern := Private_dtor K d (kern s)\<rparr>
         else s\<lparr>blocks := (blocks s)(b \<mapsto> (d, n - 1))\<rparr>)"

text \<open>
  What a program does with handles: construct one (by \<open>fork\<close>, \<open>exec\<close> or \<open>invalid\<close>) in a new
  variable, copy one into a new variable, assign one to another, end the life of a variable;
  and anything else it does to the kernel in between. The value \<open>None\<close> is that of an operation
  no program can do, since a variable it names is not there or already there. A constructor
  that throws leaves no object. Assignment copies the right-hand side first and then releases
  what the left-hand side had, so assigning a handle to itself is harmless.
\<close>

datatype 'k handle_op =
    Construct nat int Pipe Pipe Pipe
  | Copy nat nat
  | Assign nat nat
  | Destroy nat
  | Other "'k \<Rightarrow> 'k"

fun handle_step :: "'k api \<Rightarrow> 'k handle_op \<Rightarrow> 'k heap \<Rightarrow> 'k heap option" where
  "handle_step K (Construct v pid pin pout perr) s =
     (if vars s v \<noteq> None then None
      else (case ChildProcess_ctor K pid pin pout perr (kern s) of
          (Inl e, k') \<Rightarrow> Some (s\<lparr>kern := k'\<rparr>)
        | (Inr c, k') \<Rightarrow> Some (s\<lparr>
            blocks := (blocks s)(next_block s \<mapsto> (child_d c, 1)),
            next_block := next_block s + 1,
            vars := (vars s)(v \<mapsto> \<lparr>sig_pid = sig_pid c, proc_pid = proc_pid c, d_ref = next_block s\<rparr>),
            kern := k'\<rparr>)))"
| "handle_step K (Copy v w) s =
     (case vars s v of
        Some h \<Rightarrow> if vars s w \<noteq> None then None
          else (let s1 = acquire (d_ref h) s in Some (s1\<lparr>vars := (vars s1)(w \<mapsto> h)\<rparr>))
      | None \<Rightarrow> None)"
| "handle_step K (Assign v w) s =
     (case (vars s v, vars s w) of
        (Some old, Some h) \<Rightarrow>
          (let s1 = acquire (d_ref h) s
           in Some (release K (d_ref old) (s1\<lparr>vars := (vars s1)(v \<mapsto> h)\<rparr>)))
      | _ \<Rightarrow> None)"
| "handle_step K (Destroy v) s =
     (case vars s v of
        Some h \<Rightarrow> Some (release K (d_ref h) (s\<lparr>vars := (vars s)(v := None)\<rparr>))
      | None \<Rightarrow> None)"
| "handle_step K (Other f) s = Some (s\<lparr>kern := f (kern s)\<rparr>)"

fun handle_steps :: "'k api \<Rightarrow> 'k handle_op list \<Rightarrow> 'k heap \<Rightarrow> 'k heap option" where
  "handle_steps K [] s = Some s"
| "handle_steps K (c # cs) s = Option.bind (handle_step K c s) (handle_steps K cs)"

section \<open>The specification: ownership without counts\<close>

record 'k owners =
  own_objects :: "nat \<rightharpoonup> Private"
  own_next :: nat
  own_vars :: "nat \<rightharpoonup> ChildHandle"
  own_destroyed :: "nat list"
  own_kern :: 'k

definition referred :: "(nat \<rightharpoonup> ChildHandle) \<Rightarrow> nat \<Rightarrow> nat set" where
  "referred V b = {v. \<exists>h. V v = Some h \<and> d_ref h = b}"

definition collect :: "'k api \<Rightarrow> nat \<Rightarrow> 'k owners \<Rightarrow> 'k owners" where
  "collect K b s = (case own_objects s b of
       Some d \<Rightarrow> if referred (own_vars s) b = {}
         then s\<lparr>own_objects := (own_objects s)(b := None), own_destroyed := own_destroyed s @ [b],
             own_kern := Private_dtor K d (own_kern s)\<rparr>
         else s
     | None \<Rightarrow> s)"

fun owner_step :: "'k api \<Rightarrow> 'k handle_op \<Rightarrow> 'k owners \<Rightarrow> 'k owners option" where
  "owner_step K (Construct v pid pin pout perr) s =
     (if own_vars s v \<noteq> None then None
      else (case ChildProcess_ctor K pid pin pout perr (own_kern s) of
          (Inl e, k') \<Rightarrow> Some (s\<lparr>own_kern := k'\<rparr>)
        | (Inr c, k') \<Rightarrow> Some (s\<lparr>
            own_objects := (own_objects s)(own_next s \<mapsto> child_d c), own_next := own_next s + 1,
            own_vars := (own_vars s)(v \<mapsto> \<lparr>sig_pid = sig_pid c, proc_pid = proc_pid c, d_ref = own_next s\<rparr>),
            own_kern := k'\<rparr>)))"
| "owner_step K (Copy v w) s =
     (case own_vars s v of
        Some h \<Rightarrow> if own_vars s w \<noteq> None then None else Some (s\<lparr>own_vars := (own_vars s)(w \<mapsto> h)\<rparr>)
      | None \<Rightarrow> None)"
| "owner_step K (Assign v w) s =
     (case (own_vars s v, own_vars s w) of
        (Some old, Some h) \<Rightarrow> Some (collect K (d_ref old) (s\<lparr>own_vars := (own_vars s)(v \<mapsto> h)\<rparr>))
      | _ \<Rightarrow> None)"
| "owner_step K (Destroy v) s =
     (case own_vars s v of
        Some h \<Rightarrow> Some (collect K (d_ref h) (s\<lparr>own_vars := (own_vars s)(v := None)\<rparr>))
      | None \<Rightarrow> None)"
| "owner_step K (Other f) s = Some (s\<lparr>own_kern := f (own_kern s)\<rparr>)"

fun owner_steps :: "'k api \<Rightarrow> 'k handle_op list \<Rightarrow> 'k owners \<Rightarrow> 'k owners option" where
  "owner_steps K [] s = Some s"
| "owner_steps K (c # cs) s = Option.bind (owner_step K c s) (owner_steps K cs)"

definition forget_counts :: "'k heap \<Rightarrow> 'k owners" where
  "forget_counts s = \<lparr>own_objects = (\<lambda>b. map_option fst (blocks s b)), own_next = next_block s,
     own_vars = vars s, own_destroyed = destroyed s, own_kern = kern s\<rparr>"

section \<open>The invariant of the counts\<close>

text \<open>
  While an operation is under way there may be references no variable holds; \<open>T\<close> is the
  multiset of these. Every count is the number of references.
\<close>

definition counted :: "nat multiset \<Rightarrow> 'k heap \<Rightarrow> bool" where
  "counted T s \<longleftrightarrow> finite (dom (vars s)) \<and>
     (\<forall>b. blocks s b = None \<longrightarrow> card (referred (vars s) b) + count T b = 0) \<and>
     (\<forall>b d n. blocks s b = Some (d, n) \<longrightarrow> n = card (referred (vars s) b) + count T b \<and> 0 < n) \<and>
     distinct (destroyed s) \<and> (\<forall>b\<ge>next_block s. blocks s b = None) \<and>
     set (destroyed s) = {b. b < next_block s \<and> blocks s b = None}"

lemma countedI:
  assumes "finite (dom (vars s))"
    and "\<And>b. blocks s b = None \<Longrightarrow> card (referred (vars s) b) + count T b = 0"
    and "\<And>b d n. blocks s b = Some (d, n) \<Longrightarrow> n = card (referred (vars s) b) + count T b \<and> 0 < n"
    and "distinct (destroyed s)" and "\<And>b. next_block s \<le> b \<Longrightarrow> blocks s b = None"
    and "set (destroyed s) = {b. b < next_block s \<and> blocks s b = None}"
  shows "counted T s"
  unfolding counted_def using assms by blast

lemma countedD:
  assumes "counted T s"
  shows "finite (dom (vars s))"
    and "blocks s b = None \<Longrightarrow> card (referred (vars s) b) + count T b = 0"
    and "blocks s b = Some (d, n) \<Longrightarrow> n = card (referred (vars s) b) + count T b \<and> 0 < n"
    and "distinct (destroyed s)" and "next_block s \<le> b \<Longrightarrow> blocks s b = None"
    and "set (destroyed s) = {b. b < next_block s \<and> blocks s b = None}"
  using assms unfolding counted_def by blast+

lemma finite_referred: "finite (dom V) \<Longrightarrow> finite (referred V b)"
  by (rule finite_subset [of _ "dom V"]) (auto simp: referred_def)

lemma referred_bind:
  "V v = None \<Longrightarrow> referred (V(v \<mapsto> h)) b = (if d_ref h = b then insert v (referred V b) else referred V b)"
  by (auto simp: referred_def)

lemma card_referred_bind:
  "finite (dom V) \<Longrightarrow> V v = None \<Longrightarrow>
   card (referred (V(v \<mapsto> h)) b) = card (referred V b) + (if d_ref h = b then 1 else 0)"
  using finite_referred [of V b] by (simp add: referred_bind) (simp add: referred_def)

lemma counted_bind:
  assumes "vars s v = None"
  shows "counted T (s\<lparr>vars := (vars s)(v \<mapsto> h)\<rparr>) \<longleftrightarrow> counted (add_mset (d_ref h) T) s"
proof (cases "finite (dom (vars s))")
  case True
  have "card (referred ((vars s)(v \<mapsto> h)) b) + count T b =
      card (referred (vars s) b) + count (add_mset (d_ref h) T) b" for b
    using card_referred_bind [OF True assms] by simp
  with True show ?thesis by (simp add: counted_def del: count_add_mset)
qed (simp add: counted_def)

lemma counted_unbind:
  assumes "vars s v = Some h" and "counted T s"
  shows "counted (add_mset (d_ref h) T) (s\<lparr>vars := (vars s)(v := None)\<rparr>)"
  using counted_bind [of "s\<lparr>vars := (vars s)(v := None)\<rparr>" v T h] assms
  by (simp add: fun_upd_idem)

lemma counted_rebind:
  assumes "vars s v = Some old" and "counted (add_mset (d_ref h) T) s"
  shows "counted (add_mset (d_ref old) T) (s\<lparr>vars := (vars s)(v \<mapsto> h)\<rparr>)"
  using counted_bind [of "s\<lparr>vars := (vars s)(v := None)\<rparr>" v "add_mset (d_ref old) T" h]
    counted_unbind [OF assms]
  by (simp add: add_mset_commute)

lemma counted_block:
  assumes "counted T s" and "b \<in># T \<or> referred (vars s) b \<noteq> {}"
  shows "\<exists>d. blocks s b = Some (d, card (referred (vars s) b) + count T b)"
proof (cases "blocks s b")
  case None
  with assms(1) have "card (referred (vars s) b) + count T b = 0" and "finite (referred (vars s) b)"
    by (auto simp: counted_def finite_referred)
  with assms(2) show ?thesis by (auto simp: not_in_iff [symmetric])
next
  case (Some x)
  with assms(1) show ?thesis by (cases x) (auto simp: counted_def)
qed

lemma acquire_simps [simp]:
  "vars (acquire b s) = vars s" "forget_counts (acquire b s) = forget_counts s"
  by (auto simp: acquire_def forget_counts_def split: option.splits)

text \<open>A block's count changes together with the references no variable holds.\<close>

lemma counted_recount:
  assumes "counted T s" and b: "blocks s b = Some (d, m)"
    and T': "\<And>c. c \<noteq> b \<Longrightarrow> count T' c = count T c"
    and n: "n = card (referred (vars s) b) + count T' b" and "0 < n"
  shows "counted T' (s\<lparr>blocks := (blocks s)(b \<mapsto> (d, n))\<rparr>)"
proof -
  note D = countedD [OF assms(1)]
  have lt: "b < next_block s" using D(5) [of b] b by (cases "b < next_block s") auto
  let ?s = "s\<lparr>blocks := (blocks s)(b \<mapsto> (d, n))\<rparr>"
  show ?thesis
  proof (rule countedI)
    show "card (referred (vars ?s) c) + count T' c = 0" if "blocks ?s c = None" for c
      using that D(2) [of c] T' [of c] by (cases "c = b") auto
    show "x = card (referred (vars ?s) c) + count T' c \<and> 0 < x" if "blocks ?s c = Some (e, x)" for c e x
      using that D(3) [of c e x] T' [of c] n \<open>0 < n\<close>
      by (cases "c = b") (simp_all del: add_gr_0)
    show "blocks ?s c = None" if "next_block ?s \<le> c" for c using that D(5) [of c] lt by auto
    have "blocks ?s c = None \<longleftrightarrow> blocks s c = None" for c using b by simp
    then show "set (destroyed ?s) = {c. c < next_block ?s \<and> blocks ?s c = None}"
      by (simp add: D(6) del: map_upd_Some_unfold fun_upd_apply)
  qed (use D in simp_all)
qed

lemma counted_acquire:
  assumes "counted T s" and "b \<in># T \<or> referred (vars s) b \<noteq> {}"
  shows "counted (add_mset b T) (acquire b s)"
proof -
  from counted_block [OF assms] obtain d where
    b: "blocks s b = Some (d, card (referred (vars s) b) + count T b)" by blast
  from counted_recount [OF assms(1) b, of "add_mset b T" "Suc (card (referred (vars s) b) + count T b)"]
  show ?thesis using b by (simp add: acquire_def)
qed

lemma release_cases:
  assumes "counted (add_mset b T) s"
  obtains d where "blocks s b = Some (d, Suc (card (referred (vars s) b) + count T b))"
  using counted_block [OF assms, of b] by auto

lemma counted_release:
  assumes "counted (add_mset b T) s"
  shows "counted T (release K b s)"
proof -
  let ?n = "card (referred (vars s) b) + count T b"
  from assms obtain d where b: "blocks s b = Some (d, Suc ?n)" by (rule release_cases)
  show ?thesis
  proof (cases "?n = 0")
    case False
    then have "release K b s = s\<lparr>blocks := (blocks s)(b \<mapsto> (d, ?n))\<rparr>"
      using b by (auto simp: release_def count_eq_zero_iff)
    with counted_recount [OF assms b, of T ?n] False show ?thesis by simp
  next
    case True
    note D = countedD [OF assms]
    let ?s = "s\<lparr>blocks := (blocks s)(b := None), destroyed := destroyed s @ [b], kern := Private_dtor K d (kern s)\<rparr>"
    have lt: "b < next_block s" using D(5) [of b] b by (cases "b < next_block s") auto
    have "counted T ?s"
    proof (rule countedI)
      show "card (referred (vars ?s) c) + count T c = 0" if "blocks ?s c = None" for c
        using that D(2) [of c] True by (cases "c = b") auto
      show "x = card (referred (vars ?s) c) + count T c \<and> 0 < x" if "blocks ?s c = Some (e, x)" for c e x
        using that D(3) [of c e x] by (cases "c = b") auto
      show "blocks ?s c = None" if "next_block ?s \<le> c" for c using that D(5) [of c] by simp
      show "distinct (destroyed ?s)" using D(4,6) b by simp
      show "set (destroyed ?s) = {c. c < next_block ?s \<and> blocks ?s c = None}"
        using D(6) lt by auto
    qed (use D in simp)
    moreover have "release K b s = ?s" using True b by (simp add: release_def)
    ultimately show ?thesis by simp
  qed
qed

lemma counted_block_None_iff:
  assumes "counted {#} s"
  shows "blocks s b = None \<longleftrightarrow> referred (vars s) b = {}"
proof (cases "blocks s b")
  case None
  with counted_block [OF assms, of b] show ?thesis by auto
next
  case (Some x)
  then obtain d n where "blocks s b = Some (d, n)" by (cases x) simp
  with assms have "card (referred (vars s) b) > 0" by (auto simp: counted_def)
  with Some show ?thesis by auto
qed

text \<open>The release of a reference no variable holds is the collection of the specification.\<close>

lemma forget_release:
  assumes "counted {#b#} s"
  shows "forget_counts (release K b s) = collect K b (forget_counts s)"
proof -
  from assms obtain d where b: "blocks s b = Some (d, Suc (card (referred (vars s) b)))"
    by (rule release_cases) auto
  have "finite (referred (vars s) b)" using assms by (simp add: counted_def finite_referred)
  with b show ?thesis
    by (auto simp: release_def collect_def forget_counts_def fun_eq_iff)
qed

section \<open>Every operation keeps the counts and refines the specification\<close>

lemma handle_step_Assign:
  assumes "counted {#} s" and "vars s v = Some old" and "vars s w = Some h"
  shows "counted {#d_ref old#} ((acquire (d_ref h) s)\<lparr>vars := (vars s)(v \<mapsto> h)\<rparr>)"
proof -
  have "referred (vars s) (d_ref h) \<noteq> {}" using assms(3) by (auto simp: referred_def)
  with assms(1) have "counted {#d_ref h#} (acquire (d_ref h) s)" by (simp add: counted_acquire)
  with counted_rebind [of "acquire (d_ref h) s" v old h "{#}"] assms(2) show ?thesis by simp
qed

lemma handle_step_counted:
  assumes "counted {#} s" and "handle_step K c s = Some s'"
  shows "counted {#} s'"
proof (cases c)
  case (Construct v pid pin pout perr)
  obtain r k' where c: "ChildProcess_ctor K pid pin pout perr (kern s) = (r, k')" by fastforce
  show ?thesis
  proof (cases r)
    case (Inl e)
    with assms Construct c show ?thesis by (auto simp: counted_def split: if_splits)
  next
    case (Inr x)
    let ?n = "next_block s"
    let ?s = "s\<lparr>blocks := (blocks s)(?n \<mapsto> (child_d x, 1)), next_block := ?n + 1, kern := k'\<rparr>"
    have "blocks s ?n = None" using assms(1) by (simp add: counted_def)
    with assms(1) have "card (referred (vars s) ?n) = 0" by (auto simp: counted_def)
    with assms(1) have "counted {#?n#} ?s" by (auto simp: counted_def less_Suc_eq)
    with counted_bind [of ?s v "{#}" "\<lparr>sig_pid = sig_pid x, proc_pid = proc_pid x, d_ref = ?n\<rparr>"]
      assms(2) Construct c Inr
    show ?thesis by (cases s) (auto split: if_splits)
  qed
next
  case (Copy v w)
  with assms(2) obtain h where h: "vars s v = Some h" and w: "vars s w = None"
    and s': "s' = (acquire (d_ref h) s)\<lparr>vars := (vars s)(w \<mapsto> h)\<rparr>"
    by (auto simp: Let_def split: option.splits if_splits)
  have "referred (vars s) (d_ref h) \<noteq> {}" using h by (auto simp: referred_def)
  with assms(1) have "counted {#d_ref h#} (acquire (d_ref h) s)" by (simp add: counted_acquire)
  with counted_bind [of "acquire (d_ref h) s" w "{#}" h] w s' show ?thesis by simp
next
  case (Assign v w)
  with assms show ?thesis
    by (auto simp: Let_def split: option.splits intro!: counted_release handle_step_Assign)
next
  case (Destroy v)
  with assms show ?thesis
    by (auto split: option.splits intro!: counted_release counted_unbind)
next
  case (Other f)
  with assms show ?thesis by (auto simp: counted_def)
qed

lemma handle_step_refines:
  assumes "counted {#} s"
  shows "map_option forget_counts (handle_step K c s) = owner_step K c (forget_counts s)"
proof -
  have f [simp]: "own_vars (forget_counts s) = vars s" "own_kern (forget_counts s) = kern s"
    "own_next (forget_counts s) = next_block s"
    by (simp_all add: forget_counts_def)
  have upd: "forget_counts (t\<lparr>vars := V\<rparr>) = (forget_counts t)\<lparr>own_vars := V\<rparr>" for t V
    by (simp add: forget_counts_def)
  show ?thesis
  proof (cases c)
    case (Construct v pid pin pout perr)
    then show ?thesis
      by (auto simp: forget_counts_def fun_eq_iff split: prod.splits sum.splits)
  next
    case (Copy v w)
    then show ?thesis by (auto simp: Let_def upd split: option.splits)
  next
    case (Assign v w)
    then show ?thesis
      using assms by (auto simp: Let_def upd forget_release handle_step_Assign split: option.splits)
  next
    case (Destroy v)
    then show ?thesis
      using assms by (auto simp: upd forget_release counted_unbind split: option.splits)
  next
    case (Other f)
    then show ?thesis by (simp add: forget_counts_def)
  qed
qed

lemma handle_steps_append:
  "handle_steps K (cs @ ds) s = Option.bind (handle_steps K cs s) (handle_steps K ds)"
proof (induction cs arbitrary: s)
  case (Cons c cs)
  then show ?case by (cases "handle_step K c s") simp_all
qed simp

lemma handle_steps_counted:
  "counted {#} s \<Longrightarrow> handle_steps K cs s = Some s' \<Longrightarrow> counted {#} s'"
  by (induction cs arbitrary: s) (auto simp: bind_eq_Some_conv dest: handle_step_counted)

lemma handle_steps_refine:
  "counted {#} s \<Longrightarrow> map_option forget_counts (handle_steps K cs s) = owner_steps K cs (forget_counts s)"
proof (induction cs arbitrary: s)
  case (Cons c cs)
  have step: "map_option forget_counts (handle_step K c s) = owner_step K c (forget_counts s)"
    by (rule handle_step_refines) (rule Cons.prems)
  show ?case
  proof (cases "handle_step K c s")
    case None
    with step show ?thesis by (simp flip: step)
  next
    case (Some t)
    with Cons.IH [of t] handle_step_counted [OF Cons.prems Some] step show ?thesis
      by (simp flip: step)
  qed
qed simp

lemma counted_init: "counted {#} (heap_init k)"
  by (auto simp: counted_def heap_init_def referred_def)

section \<open>Properties\<close>

text \<open>
  Whatever a program does with handles of child processes, copying, assigning (also to
  itself) and destroying them in any order, counting references is ownership: an object lives
  exactly as long as a variable refers to it, and its destructor, which kills the child and
  closes the pipes, runs exactly once, at the moment the last handle goes.
\<close>

theorem handles_own_child:
  "map_option forget_counts (handle_steps K cs (heap_init k)) = owner_steps K cs (forget_counts (heap_init k)) \<and>
   (\<forall>s. handle_steps K cs (heap_init k) = Some s \<longrightarrow>
      distinct (destroyed s) \<and>
      set (destroyed s) = {b. b < next_block s \<and> referred (vars s) b = {}} \<and>
      (\<forall>b d n. blocks s b = Some (d, n) \<longrightarrow> n = card (referred (vars s) b) \<and> 0 < n))"
proof (intro conjI allI impI)
  show "map_option forget_counts (handle_steps K cs (heap_init k)) =
      owner_steps K cs (forget_counts (heap_init k))"
    by (rule handle_steps_refine) (rule counted_init)
  fix s
  assume "handle_steps K cs (heap_init k) = Some s"
  with counted_init have c: "counted {#} s" by (rule handle_steps_counted)
  then show "distinct (destroyed s)" by (simp add: counted_def)
  then show "set (destroyed s) = {b. b < next_block s \<and> referred (vars s) b = {}}"
    by (simp add: counted_block_None_iff [OF c, symmetric] countedD(6) [OF c])
  fix b d n
  assume "blocks s b = Some (d, n)"
  with c show "n = card (referred (vars s) b)" and "0 < n"
    by (auto simp: counted_def)
qed

theorem handles_own_child_witness:
  "\<exists>s t. handle_steps ref_api [Construct 0 101 closed_pipe closed_pipe closed_pipe, Copy 0 1, Assign 1 1, Destroy 0]
       (heap_init (ref_boot 8)) = Some s \<and> destroyed s = [] \<and> kern s = ref_boot 8 \<and>
     handle_steps ref_api [Destroy 1] s = Some t \<and> set (destroyed t) = {0} \<and>
     kern t = snd (sys_kill ref_api 101 SIGKILL (ref_boot 8))"
proof -
  let ?cs = "[Construct 0 101 closed_pipe closed_pipe closed_pipe, Copy 0 1, Assign 1 1, Destroy 0]"
  let ?d = "\<lparr>pipes_stdin = closed_pipe, pipes_stdout = closed_pipe, pipes_stderr = closed_pipe,
    serr = read_fd closed_pipe, sin = write_fd closed_pipe, sout = read_fd closed_pipe,
    original_parent_pid = sys_getpid ref_api (ref_boot 8), original_child_pid = 101\<rparr>"
  let ?h = "\<lparr>sig_pid = 101, proc_pid = 101, d_ref = 0\<rparr>"
  let ?s = "\<lparr>blocks = [0 \<mapsto> (?d, 1)], next_block = 1, vars = [1 \<mapsto> ?h], destroyed = [], kern = ref_boot 8\<rparr>"
  let ?k = "snd (sys_kill ref_api 101 SIGKILL (ref_boot 8))"
  let ?t = "\<lparr>blocks = Map.empty, next_block = 1, vars = Map.empty, destroyed = [0], kern = ?k\<rparr>"
  have s: "handle_steps ref_api ?cs (heap_init (ref_boot 8)) = Some ?s"
    by (simp add: heap_init_def ChildProcess_ctor_def Private_ctor_def Process.defs ChildProcess.defs
        acquire_def release_def Signalable_ctor_def Signalable.defs fun_upd_def fun_eq_iff)
  have t: "handle_steps ref_api [Destroy 1] ?s = Some ?t"
    by (simp add: release_def Private_dtor_def)
  have "handle_steps ref_api (?cs @ [Destroy 1]) (heap_init (ref_boot 8)) = Some ?t"
    by (simp only: handle_steps_append s Option.bind.simps t)
  with handles_own_child [of ref_api "?cs @ [Destroy 1]" "ref_boot 8"]
  have "set (destroyed ?t) = {b. b < next_block ?t \<and> referred (vars ?t) b = {}}" by blast
  then have "set (destroyed ?t) = {0}" by (simp add: referred_def)
  with s t show ?thesis by (intro exI [of _ ?s] exI [of _ ?t]) simp
qed

end
