(* ===== verification/Signal_Trap.thy ===== *)
theory Signal_Trap
  imports Signals
begin

text \<open>
  \<open>impl::SignalTrap\<close> of \<open>signal.cpp\<close>: signals are blocked by the constructor and read from a
  signalfd by \<open>run\<close>, which relays those that are trapped until \<open>stop\<close> wakes it through an
  eventfd. Signal sets and masks are 64-bit words; the kernel's answers to eventfd, signalfd,
  poll and read are arguments, so a run of the loop is a function of the list of answers.
\<close>

section \<open>Signal sets\<close>

type_synonym sigset = "64 word"

definition valid_signo :: "int \<Rightarrow> bool" where
  "valid_signo s \<longleftrightarrow> 1 \<le> s \<and> s \<le> 64"

text \<open>\<open>sigaddset\<close> and \<open>sigismember\<close> of the C library: a number that is no signal is refused.\<close>

definition sigaddset :: "sigset \<Rightarrow> int \<Rightarrow> sigset" where
  "sigaddset m s = (if valid_signo s then set_bit (nat (s - 1)) m else m)"

definition sigismember :: "sigset \<Rightarrow> int \<Rightarrow> int" where
  "sigismember m s = (if \<not> valid_signo s then - 1 else if bit m (nat (s - 1)) then 1 else 0)"

text \<open>
  \<open>sigprocmask\<close> and \<open>pthread_sigmask\<close> with \<open>SIG_BLOCK\<close>: the set is added to the mask, except
  for \<open>SIGKILL\<close> and \<open>SIGSTOP\<close>, which cannot be blocked; the old mask is returned.
\<close>

definition unblockable :: sigset where
  "unblockable = sigaddset (sigaddset 0 9) 19"

definition sig_block :: "sigset \<Rightarrow> sigset \<Rightarrow> sigset \<times> sigset" where
  "sig_block new_mask cur = (cur OR (new_mask AND NOT unblockable), cur)"

definition set_thread_signal_mask :: "sigset \<Rightarrow> sigset \<Rightarrow> sigset \<times> sigset" where
  "set_thread_signal_mask new_mask cur = sig_block new_mask cur"

definition set_process_signal_mask :: "sigset \<Rightarrow> sigset \<Rightarrow> sigset \<times> sigset" where
  "set_process_signal_mask new_mask cur = sig_block new_mask cur"

section \<open>The class\<close>

datatype trap_scope = Scope_process | Scope_thread

datatype trap_state = not_running | running

record SignalTrap =
  scope :: trap_scope
  state :: trap_state
  event_fd :: int
  old_signals_mask :: sigset
  blocked_signals_mask :: sigset

text \<open>\<open>cur\<close> is the signal mask of the calling thread.\<close>

definition SignalTrap_ctor ::
  "trap_scope \<Rightarrow> Signal list \<Rightarrow> errno + int \<Rightarrow> sigset \<Rightarrow> (exn + SignalTrap) \<times> sigset" where
  "SignalTrap_ctor sc blocked_signals eventfd cur =
     (case eventfd of
        Inl errno \<Rightarrow> (Inl (System_Error errno), cur)
      | Inr fd \<Rightarrow>
          (let blocked = foldl (\<lambda>m s. sigaddset m (signo s)) 0 blocked_signals;
               (cur', old) = (case sc of
                   Scope_process \<Rightarrow> set_process_signal_mask blocked cur
                 | Scope_thread \<Rightarrow> set_thread_signal_mask blocked cur)
           in (Inr \<lparr>scope = sc, state = not_running, event_fd = fd, old_signals_mask = old,
                    blocked_signals_mask = blocked\<rparr>, cur')))"

definition SignalTrap_dtor :: "'k api \<Rightarrow> SignalTrap \<Rightarrow> sigset \<Rightarrow> 'k \<Rightarrow> sigset \<times> 'k" where
  "SignalTrap_dtor K t cur k =
     (case scope t of
        Scope_process \<Rightarrow> fst (set_process_signal_mask (old_signals_mask t) cur)
      | Scope_thread \<Rightarrow> fst (set_thread_signal_mask (old_signals_mask t) cur),
      snd (sys_close K (event_fd t) k))"

text \<open>\<open>has\<close> converts the \<open>int\<close> of \<open>sigismember\<close> to \<open>bool\<close>.\<close>

definition trap_has :: "SignalTrap \<Rightarrow> Signal \<Rightarrow> bool" where
  "trap_has t signal \<longleftrightarrow> sigismember (blocked_signals_mask t) (signo signal) \<noteq> 0"

text \<open>\<open>stop\<close> writes eight bytes to the eventfd; \<open>written\<close> is what write(2) returns.\<close>

definition trap_stop :: "int \<Rightarrow> errno \<Rightarrow> exn + unit" where
  "trap_stop written errno = (if 8 \<noteq> written then Inl (System_Error errno) else Inr ())"

definition trap_signals_for_process ::
  "Signal list \<Rightarrow> errno + int \<Rightarrow> sigset \<Rightarrow> (exn + SignalTrap) \<times> sigset" where
  "trap_signals_for_process = SignalTrap_ctor Scope_process"

definition trap_signals_for_all_subsequent_threads ::
  "Signal list \<Rightarrow> errno + int \<Rightarrow> sigset \<Rightarrow> (exn + SignalTrap) \<times> sigset" where
  "trap_signals_for_all_subsequent_threads = SignalTrap_ctor Scope_thread"

section \<open>run\<close>

text \<open>
  What poll(2) and the read(2) from the signalfd answer: the \<open>ssi_signo\<close> fields of the
  records read, or an error; \<open>Poll_Ready\<close> carries the read if the signalfd is readable, and
  whether the eventfd is.
\<close>

datatype read_result = Read_Infos "32 word list" | Read_Failed errno

datatype poll_result = Poll_Failed errno | Poll_Nothing | Poll_Ready "read_result option" bool

definition signal_info_buffer_size :: nat where
  "signal_info_buffer_size = 5"

text \<open>
  The number of iterations: \<open>result / sizeof(signalfd_siginfo)\<close>, where the signed \<open>result\<close>
  is converted to the unsigned type of \<open>sizeof\<close>, 128.
\<close>

definition info_count :: "int \<Rightarrow> 64 word" where
  "info_count result = word_of_int result div 128"

definition to_signal :: "32 word \<Rightarrow> Signal" where
  "to_signal ssi_signo = Signal (sint ssi_signo)"

text \<open>
  The loop over the records: the signals relayed, and whether it read past the buffer. The
  counter is small in all that is modelled, since it stops at the end of the buffer.
\<close>

function relay :: "SignalTrap \<Rightarrow> 32 word list \<Rightarrow> 64 word \<Rightarrow> nat \<Rightarrow> Signal list \<times> bool" where
  "relay t signal_info n i =
     (if \<not> (of_nat i < n) then ([], False)
      else if length signal_info \<le> i then ([], True)
      else (let (raised, overrun) = relay t signal_info n (i + 1);
                signal = to_signal (signal_info ! i)
            in (if trap_has t signal then signal # raised else raised, overrun)))"
  by pat_completeness auto

termination
  by (relation "measure (\<lambda>(t, signal_info, n, i). length signal_info - i)") auto

declare relay.simps [simp del]

text \<open>The buffer after a read, and the value read returns.\<close>

fun read_infos :: "read_result \<Rightarrow> 32 word list \<Rightarrow> 32 word list \<times> int" where
  "read_infos (Read_Infos infos) signal_info = (infos @ drop (length infos) signal_info, 128 * int (length infos))"
| "read_infos (Read_Failed errno) signal_info = (signal_info, - 1)"

text \<open>
  How the loop ends: woken through the eventfd, left because poll failed, out of the bounds
  of the buffer, or still waiting when there are no more answers.
\<close>

datatype run_end = Run_Stopped | Run_Poll_Error errno | Run_Overrun | Run_Waiting

fun run_loop :: "SignalTrap \<Rightarrow> 32 word list \<Rightarrow> poll_result list \<Rightarrow> Signal list \<times> run_end" where
  "run_loop t signal_info [] = ([], Run_Waiting)"
| "run_loop t signal_info (Poll_Failed errno # rs) =
     (if errno = EINTR then run_loop t signal_info rs else ([], Run_Poll_Error errno))"
| "run_loop t signal_info (Poll_Nothing # rs) = run_loop t signal_info rs"
| "run_loop t signal_info (Poll_Ready rd woken # rs) =
     (let (info', result) = (case rd of None \<Rightarrow> (signal_info, 0) | Some x \<Rightarrow> read_infos x signal_info);
          (raised, overrun) = relay t info' (info_count result) 0
      in if overrun then (raised, Run_Overrun)
         else if woken then (raised, Run_Stopped)
         else (let (later, e) = run_loop t info' rs in (raised @ later, e)))"

text \<open>
  The signalfd is closed when \<open>run\<close> is left; the state is reset only after the loop. After
  an overrun nothing is known; the model stops there.
\<close>

definition trap_run ::
  "'k api \<Rightarrow> SignalTrap \<Rightarrow> errno + int \<Rightarrow> 32 word list \<Rightarrow> poll_result list \<Rightarrow> 'k \<Rightarrow>
   (exn + run_end) \<times> Signal list \<times> SignalTrap \<times> 'k" where
  "trap_run K t signalfd signal_info rs k =
     (if state t = running then (Inl (Runtime_Error ''SignalTrap::run can only be run once.''), [], t, k)
      else (case signalfd of
          Inl errno \<Rightarrow> (Inl (System_Error errno), [], t\<lparr>state := running\<rparr>, k)
        | Inr fd \<Rightarrow> (case run_loop (t\<lparr>state := running\<rparr>) signal_info rs of
            (raised, e) \<Rightarrow>
              if e = Run_Waiting \<or> e = Run_Overrun then (Inr e, raised, t\<lparr>state := running\<rparr>, k)
              else (Inr e, raised, t\<lparr>state := not_running\<rparr>, snd (sys_close K fd k)))))"

text \<open>
  Concurrent calls of \<open>run\<close> on one trap: the load and the stores of the state are separate
  atomic steps of each thread. A thread leaves by the store at the end of \<open>run\<close>, or, when
  \<open>signalfd\<close> fails, by an exception that leaves the state as it is; after either, and after
  being refused, it may call \<open>run\<close> again.
\<close>

datatype run_pc = Before_Load | Seen_Not_Running | Looping | Refused

record run_system =
  shared_state :: trap_state
  run_pc_of :: "nat \<Rightarrow> run_pc"

inductive run_step :: "run_system \<Rightarrow> run_system \<Rightarrow> bool" where
  load: "run_pc_of s i = Before_Load \<Longrightarrow>
    run_step s (s\<lparr>run_pc_of := (run_pc_of s)(i := if shared_state s = running then Refused else Seen_Not_Running)\<rparr>)"
| store: "run_pc_of s i = Seen_Not_Running \<Longrightarrow>
    run_step s (s\<lparr>shared_state := running, run_pc_of := (run_pc_of s)(i := Looping)\<rparr>)"
| leave: "run_pc_of s i = Looping \<Longrightarrow>
    run_step s (s\<lparr>shared_state := not_running, run_pc_of := (run_pc_of s)(i := Before_Load)\<rparr>)"
| fail: "run_pc_of s i = Looping \<Longrightarrow>
    run_step s (s\<lparr>run_pc_of := (run_pc_of s)(i := Before_Load)\<rparr>)"
| again: "run_pc_of s i = Refused \<Longrightarrow>
    run_step s (s\<lparr>run_pc_of := (run_pc_of s)(i := Before_Load)\<rparr>)"

inductive run_reachable :: "run_system \<Rightarrow> bool" where
  run_start: "run_reachable \<lparr>shared_state = not_running, run_pc_of = (\<lambda>_. Before_Load)\<rparr>"
| run_next: "run_reachable s \<Longrightarrow> run_step s s' \<Longrightarrow> run_reachable s'"

section \<open>Lemmas\<close>

lemma bit_sigaddset:
  "bit (sigaddset m s) n \<longleftrightarrow> bit m n \<or> valid_signo s \<and> n = nat (s - 1)"
  by (auto simp: sigaddset_def bit_simps valid_signo_def)

lemma bit_blocked:
  "bit (foldl (\<lambda>m s. sigaddset m (signo s)) m ss) n \<longleftrightarrow>
     bit m n \<or> (\<exists>s \<in> set ss. valid_signo (signo s) \<and> n = nat (signo s - 1))"
  by (induction ss arbitrary: m) (auto simp: bit_sigaddset)

lemma SignalTrap_ctor_iff [run_iff]:
  "SignalTrap_ctor sc ss eventfd cur = (Inr t, cur') \<longleftrightarrow>
     (\<exists>fd blocked. eventfd = Inr fd \<and> blocked = foldl (\<lambda>m s. sigaddset m (signo s)) 0 ss \<and>
        t = \<lparr>scope = sc, state = not_running, event_fd = fd, old_signals_mask = cur,
             blocked_signals_mask = blocked\<rparr> \<and>
        cur' = cur OR (blocked AND NOT unblockable))"
  by (cases sc; cases eventfd)
    (auto simp: SignalTrap_ctor_def set_process_signal_mask_def set_thread_signal_mask_def sig_block_def Let_def)

lemma trap_has_ctor:
  assumes "SignalTrap_ctor sc ss eventfd cur = (Inr t, cur')"
  shows "trap_has t s \<longleftrightarrow> \<not> valid_signo (signo s) \<or> s \<in> set ss"
proof -
  have inj: "x = s" if "valid_signo (signo x)" "valid_signo (signo s)" "nat (signo s - 1) = nat (signo x - 1)" for x
    using that by (intro Signal.expand) (auto simp: valid_signo_def)
  show ?thesis
    using assms by (auto simp: run_iff trap_has_def sigismember_def bit_blocked dest: inj)
qed

lemma trap_has_state [simp]: "trap_has (t\<lparr>state := st\<rparr>) = trap_has t"
  by (simp add: trap_has_def fun_eq_iff)

lemma info_count_infos:
  "n \<le> 5 \<Longrightarrow> info_count (128 * int n) = of_nat n"
proof -
  assume "n \<le> 5"
  then have "n \<in> {0, 1, 2, 3, 4, 5}" by auto
  then show ?thesis by (auto simp: info_count_def)
qed

lemma of_nat_less_small: "i \<le> n \<Longrightarrow> n \<le> 5 \<Longrightarrow> (of_nat i :: 64 word) < of_nat n \<longleftrightarrow> i < n"
  by (simp add: word_less_nat_alt unat_of_nat)

lemma relay_eq:
  assumes "i \<le> n" and "n \<le> length infos" and "n \<le> 5"
  shows "relay t infos (of_nat n) i =
    (filter (trap_has t) (map to_signal (drop i (take n infos))), False)"
  using assms(1)
proof (induction rule: inc_induct)
  case base
  then show ?case by (simp add: relay.simps)
next
  case (step i)
  then have "drop i (take n infos) = infos ! i # drop (Suc i) (take n infos)"
    using assms by (simp add: Cons_nth_drop_Suc [symmetric])
  with step assms of_nat_less_small [of i n] show ?case
    by (subst relay.simps) (simp add: Let_def)
qed

text \<open>The answers a run can get while it goes on: none of them an error of the read.\<close>

fun benign :: "poll_result \<Rightarrow> bool" where
  "benign (Poll_Failed errno) \<longleftrightarrow> errno = EINTR"
| "benign Poll_Nothing \<longleftrightarrow> True"
| "benign (Poll_Ready None woken) \<longleftrightarrow> True"
| "benign (Poll_Ready (Some (Read_Infos infos)) woken) \<longleftrightarrow> length infos \<le> signal_info_buffer_size"
| "benign (Poll_Ready (Some (Read_Failed errno)) woken) \<longleftrightarrow> False"

fun wakes :: "poll_result \<Rightarrow> bool" where
  "wakes (Poll_Ready rd woken) = woken"
| "wakes _ = False"

fun infos_of :: "poll_result \<Rightarrow> 32 word list" where
  "infos_of (Poll_Ready (Some (Read_Infos infos)) woken) = infos"
| "infos_of _ = []"

lemma run_loop_step:
  assumes "benign r" and "length buf = signal_info_buffer_size"
  shows "\<exists>buf'. length buf' = signal_info_buffer_size \<and> run_loop t buf (r # rs) =
    (let here = filter (trap_has t) (map to_signal (infos_of r)) in
     if wakes r then (here, Run_Stopped)
     else case run_loop t buf' rs of (later, e) \<Rightarrow> (here @ later, e))"
proof (cases r rule: infos_of.cases)
  case (1 infos woken)
  let ?buf = "infos @ drop (length infos) buf"
  from 1 assms have "length infos \<le> 5" and len: "length ?buf = signal_info_buffer_size"
    by (auto simp: signal_info_buffer_size_def)
  then have "relay t ?buf (info_count (128 * int (length infos))) 0 =
      (filter (trap_has t) (map to_signal infos), False)"
    using relay_eq [of 0 "length infos" ?buf t] by (simp add: info_count_infos)
  with 1 len show ?thesis by (intro exI [of _ ?buf]) (simp add: Let_def split: prod.split)
qed (use assms in \<open>auto simp: info_count_def relay.simps [of t buf 0 0] intro!: exI [of _ buf]\<close>)

lemma run_loop_benign:
  assumes "\<forall>r \<in> set rs. benign r \<and> \<not> wakes r" and "length buf = signal_info_buffer_size"
    and "benign wake" and "wakes wake"
  shows "run_loop t buf (rs @ wake # rest) =
    (filter (trap_has t) (map to_signal (concat (map infos_of (rs @ [wake])))), Run_Stopped)"
  using assms(1,2)
proof (induction rs arbitrary: buf)
  case Nil
  from run_loop_step [OF assms(3) Nil(2), of t rest] assms(4) show ?case by (auto simp: Let_def)
next
  case (Cons r rs)
  then obtain buf' where "length buf' = signal_info_buffer_size"
    and "run_loop t buf (r # (rs @ wake # rest)) =
      (case run_loop t buf' (rs @ wake # rest) of (later, e) \<Rightarrow>
         (filter (trap_has t) (map to_signal (infos_of r)) @ later, e))"
    using run_loop_step [of r buf t "rs @ wake # rest"] by (auto simp: Let_def)
  with Cons show ?case by simp
qed

lemma relay_overrun:
  assumes "i \<le> length infos" and "\<forall>j \<le> length infos. (of_nat j :: 64 word) < n"
  shows "snd (relay t infos n i)"
  using assms(1)
proof (induction rule: inc_induct)
  case base
  from assms(2) show ?case by (subst relay.simps) simp
next
  case (step i)
  with assms(2) show ?case by (subst relay.simps) (simp add: split_beta Let_def)
qed

section \<open>Properties\<close>

text \<open>
  A call of \<open>run\<close> relays exactly the trapped signals it reads, each once and in the order of
  arrival, across any number of wake-ups, interruptions and batches, until it is stopped;
  then it closes the signalfd and leaves the trap ready to run again, and what arrives later
  is not read.
\<close>

theorem trap_run_relays_trapped:
  assumes "state t = not_running" and "length buf = signal_info_buffer_size"
    and "\<forall>r \<in> set rs. benign r \<and> \<not> wakes r" and "benign wake" and "wakes wake"
  shows "trap_run K t (Inr fd) buf (rs @ wake # rest) k =
    (Inr Run_Stopped,
     filter (trap_has t) (map to_signal (concat (map infos_of (rs @ [wake])))),
     t\<lparr>state := not_running\<rparr>, snd (sys_close K fd k))"
  using assms run_loop_benign [of rs buf wake "t\<lparr>state := running\<rparr>" rest]
  by (simp add: trap_run_def)

definition sample_api :: "unit api" where
  "sample_api =
     \<lparr>sys_pipe = (\<lambda>k. (Inl EMFILE, k)), sys_dup = (\<lambda>_ k. (Inl EMFILE, k)), sys_dup2 = (\<lambda>_ _ k. (Inl EBADF, k)),
      sys_close = (\<lambda>_ k. (Inr (), k)), sys_getpid = (\<lambda>_. 100), sys_getppid = (\<lambda>_. 1),
      sys_getpgid = (\<lambda>_ _. Inr 100), sys_fork = (\<lambda>k. (Inl EAGAIN, k)), sys_kill = (\<lambda>_ _ k. (Inl ESRCH, k)),
      sys_waitpid = (\<lambda>_ _ k. (Inl ECHILD, k))\<rparr>"

definition sample_trap :: SignalTrap where
  "sample_trap = \<lparr>scope = Scope_process, state = not_running, event_fd = 3, old_signals_mask = 0,
     blocked_signals_mask = sigaddset 0 17\<rparr>"

theorem trap_run_relays_trapped_witness:
  "fst (snd (trap_run sample_api sample_trap (Inr 4) [0, 0, 0, 0, 0]
     [Poll_Failed EINTR, Poll_Ready (Some (Read_Infos [17, 15])) False, Poll_Ready (Some (Read_Infos [17])) True,
      Poll_Ready (Some (Read_Infos [17])) False] ())) = [sig_chld, sig_chld]"
proof -
  have "trap_run sample_api sample_trap (Inr 4) [0, 0, 0, 0, 0]
      ([Poll_Failed EINTR, Poll_Ready (Some (Read_Infos [17, 15])) False] @
       Poll_Ready (Some (Read_Infos [17])) True # [Poll_Ready (Some (Read_Infos [17])) False]) () =
    (Inr Run_Stopped, filter (trap_has sample_trap) (map to_signal (concat (map infos_of
      ([Poll_Failed EINTR, Poll_Ready (Some (Read_Infos [17, 15])) False] @ [Poll_Ready (Some (Read_Infos [17])) True])))),
     sample_trap\<lparr>state := not_running\<rparr>, snd (sys_close sample_api 4 ()))"
    by (rule trap_run_relays_trapped) (simp_all add: sample_trap_def signal_info_buffer_size_def)
  moreover have "filter (trap_has sample_trap) (map to_signal [17, 15, 17]) = [sig_chld, sig_chld]"
    by code_simp
  ultimately show ?thesis by simp
qed

text \<open>
  \<open>has\<close> for a trap that was constructed: exactly the given signals are trapped, except
  that \<open>has\<close> also answers true for every number that is no signal, such as \<open>unknown\<close>.
\<close>

theorem trap_has_iff:
  assumes "SignalTrap_ctor sc ss eventfd cur = (Inr t, cur')"
  shows "trap_has t s \<longleftrightarrow> s \<in> set ss \<or> \<not> valid_signo (signo s)"
  using trap_has_ctor [OF assms] by auto

theorem trap_has_iff_witness:
  "\<exists>t cur'. SignalTrap_ctor Scope_process [sig_chld] (Inr 3) 0 = (Inr t, cur') \<and>
     trap_has t sig_chld \<and> \<not> trap_has t sig_term \<and> trap_has t sig_unknown"
proof -
  obtain t cur' where t: "SignalTrap_ctor Scope_process [sig_chld] (Inr 3) 0 = (Inr t, cur')"
    by (simp add: SignalTrap_ctor_iff)
  with trap_has_iff [OF t] show ?thesis by (auto simp: signal_consts valid_signo_def)
qed

text \<open>
  C39: the destructor does not undo the constructor: both call the mask functions with
  \<open>SIG_BLOCK\<close>, so after a trap has come and gone, every trapped signal is still blocked, and
  so is every signal that was blocked before.
\<close>

theorem trap_dtor_keeps_signals_blocked:
  assumes "SignalTrap_ctor sc ss eventfd cur = (Inr t, cur')"
  shows "fst (SignalTrap_dtor K t cur' k) = cur' \<and>
    (\<forall>s \<in> set ss. valid_signo (signo s) \<longrightarrow> signo s \<noteq> 9 \<longrightarrow> signo s \<noteq> 19 \<longrightarrow>
       bit (fst (SignalTrap_dtor K t cur' k)) (nat (signo s - 1)))"
proof -
  from assms have t: "old_signals_mask t = cur" "scope t = sc" and c: "cur' = cur OR (blocked_signals_mask t AND NOT unblockable)"
    and b: "blocked_signals_mask t = foldl (\<lambda>m s. sigaddset m (signo s)) 0 ss"
    by (auto simp: run_iff)
  have "fst (SignalTrap_dtor K t cur' k) = cur' OR (cur AND NOT unblockable)"
    by (cases sc) (simp_all add: SignalTrap_dtor_def t set_process_signal_mask_def set_thread_signal_mask_def sig_block_def)
  also have "\<dots> = cur'" by (rule bit_eqI) (auto simp: c bit_simps)
  finally have d: "fst (SignalTrap_dtor K t cur' k) = cur'" .
  moreover have "bit cur' (nat (signo s - 1))"
    if "s \<in> set ss" "valid_signo (signo s)" "signo s \<noteq> 9" "signo s \<noteq> 19" for s
  proof -
    have "\<not> bit unblockable (nat (signo s - 1))"
      using that by (auto simp: unblockable_def bit_sigaddset valid_signo_def)
    with that show ?thesis by (auto simp: c b bit_simps bit_blocked valid_signo_def)
  qed
  ultimately show ?thesis by simp
qed

theorem trap_dtor_keeps_signals_blocked_witness:
  "\<exists>t cur'. SignalTrap_ctor Scope_process [sig_chld] (Inr 3) 0 = (Inr t, cur') \<and>
     bit (fst (SignalTrap_dtor sample_api t cur' ())) 16"
proof -
  obtain t cur' where t: "SignalTrap_ctor Scope_process [sig_chld] (Inr 3) 0 = (Inr t, cur')"
    by (simp add: SignalTrap_ctor_iff)
  with trap_dtor_keeps_signals_blocked [OF t, of sample_api "()"] show ?thesis
    by (auto simp: signal_consts valid_signo_def)
qed

text \<open>
  C38: if the read from the signalfd fails, for instance because another reader was faster,
  the -1 it returns is taken as a huge unsigned size: the loop goes through the five records
  of the buffer, which are those of earlier reads or uninitialised, and past its end.
\<close>

theorem trap_run_read_error_overruns:
  assumes "state t = not_running" and "length buf = signal_info_buffer_size"
  shows "fst (trap_run K t (Inr fd) buf (Poll_Ready (Some (Read_Failed errno)) woken # rest) k) = Inr Run_Overrun"
proof -
  have "\<forall>i \<le> 5. (of_nat i :: 64 word) < info_count (- 1)"
  proof (intro allI impI)
    fix i :: nat assume "i \<le> 5"
    then have "i \<in> {0, 1, 2, 3, 4, 5}" by auto
    moreover have "info_count (- 1) = 0x1FFFFFFFFFFFFFF" by code_simp
    ultimately show "(of_nat i :: 64 word) < info_count (- 1)" by auto
  qed
  with relay_overrun [of 0 buf "info_count (- 1)" "t\<lparr>state := running\<rparr>"] assms show ?thesis
    by (auto simp: trap_run_def Let_def signal_info_buffer_size_def split: prod.splits)
qed

theorem trap_run_read_error_overruns_witness:
  "fst (trap_run sample_api sample_trap (Inr 4) [0, 0, 0, 0, 0] [Poll_Ready (Some (Read_Failed EAGAIN)) False] ()) = Inr Run_Overrun"
  by (rule trap_run_read_error_overruns) (simp_all add: sample_trap_def signal_info_buffer_size_def)

text \<open>
  If signalfd fails, the exception leaves the trap marked as running: every later call of
  \<open>run\<close> throws, although no thread is in it.
\<close>

theorem trap_signalfd_failure_sticks:
  assumes "state t = not_running"
  shows "\<exists>t'. trap_run K t (Inl errno) buf rs k = (Inl (System_Error errno), [], t', k) \<and>
    (\<forall>sfd buf' rs' k'. trap_run K t' sfd buf' rs' k' =
       (Inl (Runtime_Error ''SignalTrap::run can only be run once.''), [], t', k'))"
  using assms by (simp add: trap_run_def)

theorem trap_signalfd_failure_sticks_witness:
  "\<exists>t'. trap_run sample_api sample_trap (Inl EMFILE) [] [] () = (Inl (System_Error EMFILE), [], t', ()) \<and> state t' = running"
  using trap_signalfd_failure_sticks [of sample_trap sample_api EMFILE "[]" "[]" "()"]
  by (auto simp: sample_trap_def trap_run_def)

text \<open>
  Two threads can be in \<open>run\<close> of the same trap: both may load the state before either
  stores it, and then the exception meant to prevent it is thrown in neither.
\<close>

theorem trap_run_not_exclusive:
  "\<exists>s. run_reachable s \<and> run_pc_of s 0 = Looping \<and> run_pc_of s 1 = Looping"
proof -
  let ?s0 = "\<lparr>shared_state = not_running, run_pc_of = (\<lambda>_. Before_Load)\<rparr>"
  let ?f1 = "(\<lambda>_. Before_Load)(0 := Seen_Not_Running)" and ?f2 = "(\<lambda>_. Before_Load)(0 := Seen_Not_Running, 1 := Seen_Not_Running)"
  let ?f3 = "?f2(0 := Looping)" and ?f4 = "?f2(0 := Looping, 1 := Looping)"
  have "run_step ?s0 \<lparr>shared_state = not_running, run_pc_of = ?f1\<rparr>" using load [of ?s0 0] by simp
  moreover have "run_step \<lparr>shared_state = not_running, run_pc_of = ?f1\<rparr> \<lparr>shared_state = not_running, run_pc_of = ?f2\<rparr>"
    using load [of "\<lparr>shared_state = not_running, run_pc_of = ?f1\<rparr>" 1] by simp
  moreover have "run_step \<lparr>shared_state = not_running, run_pc_of = ?f2\<rparr> \<lparr>shared_state = running, run_pc_of = ?f3\<rparr>"
    using store [of "\<lparr>shared_state = not_running, run_pc_of = ?f2\<rparr>" 0] by simp
  moreover have "run_step \<lparr>shared_state = running, run_pc_of = ?f3\<rparr> \<lparr>shared_state = running, run_pc_of = ?f4\<rparr>"
    using store [of "\<lparr>shared_state = running, run_pc_of = ?f3\<rparr>" 1] by simp
  ultimately have "run_reachable \<lparr>shared_state = running, run_pc_of = ?f4\<rparr>"
    using run_start run_next by metis
  then show ?thesis by (intro exI [of _ "\<lparr>shared_state = running, run_pc_of = ?f4\<rparr>"]) simp
qed

end
