(* ===== verification/Death_Observer.thy ===== *)
theory Death_Observer
  imports Child_Process Signal_Trap
begin

text \<open>
  \<open>ChildProcess::DeathObserver\<close> (\<open>child_process.h\<close>, \<open>child_process.cpp\<close>): the set of observed
  children, kept by pid, and the signal \<open>child_died\<close>, modelled as the list of the children it
  was emitted for. What subscribers do, and what the destruction of the map's handle of a
  dead child does to the kernel, is a parameter \<open>react\<close>. The functions hold the mutex, so
  each is one step; in \<open>on_sig_child\<close>, each round of the loop is.
\<close>

section \<open>The observer\<close>

record observer =
  children :: "int \<rightharpoonup> ChildProcess"
  died :: "ChildProcess list"

definition DeathObserverImpl_ctor :: "SignalTrap \<Rightarrow> exn + observer" where
  "DeathObserverImpl_ctor trap =
     (if \<not> trap_has trap sig_chld
      then Inl (Logic_Error (''DeathObserver::DeathObserverImpl: Given SignalTrap'' @
                             '' instance does not trap Signal::sig_chld.''))
      else Inr \<lparr>children = Map.empty, died = []\<rparr>)"

text \<open>
  \<open>add\<close>: waitpid(2) is asked for the new child; any answer but 0, an error too, is taken as
  its death.
\<close>

definition add :: "'k api \<Rightarrow> (ChildProcess \<Rightarrow> 'k \<Rightarrow> 'k) \<Rightarrow> ChildProcess \<Rightarrow> observer \<Rightarrow> 'k \<Rightarrow> bool \<times> observer \<times> 'k" where
  "add K react process ob k =
     (if Process_pid process = - 1 then (False, ob, k)
      else if children ob (Process_pid process) \<noteq> None then (False, ob, k)
      else (let ob1 = ob\<lparr>children := (children ob)(Process_pid process \<mapsto> process)\<rparr>;
                (r, k1) = sys_waitpid K (Process_pid process) WNOHANG k
            in if (case r of Inl _ \<Rightarrow> True | Inr (result, _) \<Rightarrow> result \<noteq> 0)
               then (False, ob1\<lparr>died := died ob1 @ [process],
                                children := (children ob1)(Process_pid process := None)\<rparr>,
                     react process k1)
               else (True, ob1, k1)))"

definition has :: "observer \<Rightarrow> ChildProcess \<Rightarrow> bool" where
  "has ob process \<longleftrightarrow> children ob (Process_pid process) \<noteq> None"

text \<open>One round of the loop, for a pid and status that waitpid reported.\<close>

definition reap :: "(ChildProcess \<Rightarrow> 'k \<Rightarrow> 'k) \<Rightarrow> int \<Rightarrow> 32 word \<Rightarrow> observer \<Rightarrow> 'k \<Rightarrow> observer \<times> 'k" where
  "reap react pid status ob k =
     (case children ob pid of
        None \<Rightarrow> (ob, k)
      | Some it \<Rightarrow>
          if WIFSIGNALED status \<or> WIFEXITED status
          then (ob\<lparr>died := died ob @ [it], children := (children ob)(pid := None)\<rparr>, react it k)
          else (ob, k))"

partial_function (option) on_sig_child ::
  "'k api \<Rightarrow> (ChildProcess \<Rightarrow> 'k \<Rightarrow> 'k) \<Rightarrow> observer \<Rightarrow> 'k \<Rightarrow> (observer \<times> 'k) option" where
  "on_sig_child K react ob k =
     (case sys_waitpid K 0 WNOHANG k of
        (Inl errno, k1) \<Rightarrow> if errno = ECHILD then Some (ob, k1) else on_sig_child K react ob k1
      | (Inr (pid, status), k1) \<Rightarrow>
          if pid = 0 then Some (ob, k1)
          else (case reap react pid status ob k1 of (ob', k2) \<Rightarrow> on_sig_child K react ob' k2))"

text \<open>The slot connected to the trap's \<open>signal_raised\<close>.\<close>

definition on_signal ::
  "'k api \<Rightarrow> (ChildProcess \<Rightarrow> 'k \<Rightarrow> 'k) \<Rightarrow> Signal \<Rightarrow> observer \<Rightarrow> 'k \<Rightarrow> (observer \<times> 'k) option" where
  "on_signal K react signal ob k = (if signal = sig_chld then on_sig_child K react ob k else Some (ob, k))"

text \<open>The signals a trap relays, delivered one after the other.\<close>

fun deliver ::
  "'k api \<Rightarrow> (ChildProcess \<Rightarrow> 'k \<Rightarrow> 'k) \<Rightarrow> Signal list \<Rightarrow> observer \<Rightarrow> 'k \<Rightarrow> (observer \<times> 'k) option" where
  "deliver K react [] ob k = Some (ob, k)"
| "deliver K react (signal # signals) ob k =
     (case on_signal K react signal ob k of
        None \<Rightarrow> None
      | Some (ob', k') \<Rightarrow> deliver K react signals ob' k')"

section \<open>create_once_with_signal_trap\<close>

text \<open>A call that is not disturbed by another: the flag before and after.\<close>

definition create_once_with_signal_trap :: "SignalTrap \<Rightarrow> bool \<Rightarrow> (exn + observer) \<times> bool" where
  "create_once_with_signal_trap trap has_been_created_once =
     (if has_been_created_once
      then (Inl (Runtime_Error (''DeathObserver::create_once_with_signal_trap: '' @
                                ''Cannot create more than one instance.'')), True)
      else (case DeathObserverImpl_ctor trap of
          Inl e \<Rightarrow> (Inl e, False)
        | Inr ob \<Rightarrow> (Inr ob, True)))"

text \<open>
  Concurrent calls: every thread is at a point of the function, the flag is shared. The
  exchange and the store are the atomic steps; construction succeeds or throws.
\<close>

datatype create_pc = Before_Exchange | Constructing | Resetting | Created | Threw

record create_state =
  flag :: bool
  pc :: "nat \<Rightarrow> create_pc"

inductive create_step :: "create_state \<Rightarrow> create_state \<Rightarrow> bool" where
  exchange_first: "pc s i = Before_Exchange \<Longrightarrow> \<not> flag s \<Longrightarrow>
    create_step s (s\<lparr>flag := True, pc := (pc s)(i := Constructing)\<rparr>)"
| exchange_again: "pc s i = Before_Exchange \<Longrightarrow> flag s \<Longrightarrow>
    create_step s (s\<lparr>flag := True, pc := (pc s)(i := Threw)\<rparr>)"
| construct: "pc s i = Constructing \<Longrightarrow> create_step s (s\<lparr>pc := (pc s)(i := Created)\<rparr>)"
| construct_throws: "pc s i = Constructing \<Longrightarrow> create_step s (s\<lparr>pc := (pc s)(i := Resetting)\<rparr>)"
| store_false: "pc s i = Resetting \<Longrightarrow> create_step s (s\<lparr>flag := False, pc := (pc s)(i := Threw)\<rparr>)"

inductive_cases create_stepE: "create_step s s'"

inductive create_reachable :: "create_state \<Rightarrow> bool" where
  start: "create_reachable \<lparr>flag = False, pc = (\<lambda>_. Before_Exchange)\<rparr>"
| step: "create_reachable s \<Longrightarrow> create_step s s' \<Longrightarrow> create_reachable s'"

text \<open>The threads that have won the exchange and not given the flag back.\<close>

definition holders :: "create_state \<Rightarrow> nat set" where
  "holders s = {i. pc s i \<in> {Constructing, Resetting, Created}}"

definition create_inv :: "create_state \<Rightarrow> bool" where
  "create_inv s \<longleftrightarrow> (if flag s then is_singleton (holders s) else holders s = {})"

lemma holders_update:
  "holders (s\<lparr>pc := (pc s)(i := p)\<rparr>) =
     (if p \<in> {Constructing, Resetting, Created} then insert i (holders s) else holders s - {i})"
  "holders (s\<lparr>flag := b\<rparr>) = holders s"
  "holders (s\<lparr>flag := b, pc := (pc s)(i := p)\<rparr>) = holders (s\<lparr>pc := (pc s)(i := p)\<rparr>)"
  by (auto simp: holders_def)

lemma create_reachable_inv: "create_reachable s \<Longrightarrow> create_inv s"
proof (induction rule: create_reachable.induct)
  case start
  then show ?case by (simp add: create_inv_def holders_def)
next
  case (step s s')
  have mem: "i \<in> holders s \<longleftrightarrow> pc s i \<in> {Constructing, Resetting, Created}" for i
    by (simp add: holders_def)
  from step(2) show ?case
  proof cases
    case (exchange_again i)
    with step(3) mem [of i] show ?thesis by (auto simp: create_inv_def holders_update)
  next
    case (store_false i)
    with step(3) mem [of i] show ?thesis
      by (auto simp: create_inv_def holders_update is_singleton_def split: if_splits)
  next
    case (construct i)
    with step(3) mem [of i] show ?thesis by (auto simp: create_inv_def holders_update insert_absorb split: if_splits)
  next
    case (construct_throws i)
    with step(3) mem [of i] show ?thesis by (auto simp: create_inv_def holders_update insert_absorb split: if_splits)
  qed (use step(3) in \<open>auto simp: create_inv_def holders_update\<close>)
qed

section \<open>Invariant and reaping\<close>

text \<open>Every observed child is filed under its own pid.\<close>

definition observer_ok :: "observer \<Rightarrow> bool" where
  "observer_ok ob \<longleftrightarrow> (\<forall>pid c. children ob pid = Some c \<longrightarrow> Process_pid c = pid)"

lemma observer_ok_ctor: "DeathObserverImpl_ctor trap = Inr ob \<Longrightarrow> observer_ok ob"
  by (auto simp: DeathObserverImpl_ctor_def observer_ok_def split: if_splits)

lemma observer_ok_reap: "observer_ok ob \<Longrightarrow> reap react pid status ob k = (ob', k') \<Longrightarrow> observer_ok ob'"
  by (auto simp: reap_def observer_ok_def split: option.splits if_splits)

lemma observer_ok_add: "observer_ok ob \<Longrightarrow> add K react c ob k = (b, ob', k') \<Longrightarrow> observer_ok ob'"
  by (auto simp: add_def observer_ok_def Let_def split: prod.splits if_splits)

text \<open>The observed children among the dead, by the order in which they were reported.\<close>

definition reported :: "observer \<Rightarrow> observer \<Rightarrow> int set \<Rightarrow> ChildProcess list \<Rightarrow> bool" where
  "reported ob ob' D ds \<longleftrightarrow> children ob' = children ob |` (- D) \<and> died ob' = died ob @ ds \<and>
     distinct (map Process_pid ds) \<and> set ds = {c. \<exists>pid \<in> D. children ob pid = Some c}"

context wait_kernel
begin

lemma reap_reported:
  assumes "reap react pid st ob k = (ob', k')" and "terminated st"
  shows "\<exists>ds. reported ob ob' {pid} ds"
proof (cases "children ob pid")
  case None
  with assms have "reported ob ob' {pid} []"
    by (auto simp: reported_def reap_def restrict_map_def fun_eq_iff)
  then show ?thesis by blast
next
  case (Some c)
  with assms have "reported ob ob' {pid} [c]"
    by (auto simp: reported_def reap_def terminated_def restrict_map_def fun_eq_iff)
  then show ?thesis by blast
qed

lemma reported_trans:
  assumes "reported ob ob1 A as" and "reported ob1 ob2 B bs" and "observer_ok ob" and "observer_ok ob1"
    and "A \<inter> B = {}"
  shows "reported ob ob2 (A \<union> B) (as @ bs)"
proof -
  have a: "Process_pid c \<in> A" if "c \<in> set as" for c
    using assms(1,3) that by (auto simp: reported_def observer_ok_def)
  have b: "Process_pid c \<in> B" if "c \<in> set bs" for c
    using assms(2,4) that by (auto simp: reported_def observer_ok_def)
  have "Process_pid c \<noteq> Process_pid d" if "c \<in> set as" "d \<in> set bs" for c d
    using a [OF that(1)] b [OF that(2)] assms(5) by auto
  then have "Process_pid ` set as \<inter> Process_pid ` set bs = {}" by blast
  then have "distinct (map Process_pid (as @ bs))"
    using assms(1,2) by (simp add: reported_def)
  moreover have "set (as @ bs) = {c. \<exists>pid \<in> A \<union> B. children ob pid = Some c}"
    using assms(1,2,5) by (auto simp: reported_def restrict_map_def split: if_splits)
  ultimately show ?thesis
    using assms(1,2) by (auto simp: reported_def Int_commute)
qed

lemma on_sig_child_spec:
  assumes "\<And>c k. dead (react c k) = dead k" and "observer_ok ob"
  shows "\<exists>ob' k' ds. on_sig_child K react ob k = Some (ob', k') \<and> dead k' = Map.empty \<and>
    reported ob ob' (dom (dead k)) ds \<and> observer_ok ob'"
  using assms(2)
proof (induction "card (dom (dead k))" arbitrary: ob k rule: less_induct)
  case less
  obtain r k1 where w: "sys_waitpid K 0 WNOHANG k = (r, k1)" by fastforce
  show ?case
  proof (cases "\<exists>pid st. r = Inr (pid, st) \<and> pid \<noteq> 0")
    case True
    then obtain pid st where r: "r = Inr (pid, st)" and pid: "pid \<noteq> 0" by auto
    note rs = reap_some [OF w [unfolded r] pid]
    obtain ob1 k2 where re: "reap react pid st ob k1 = (ob1, k2)" by fastforce
    then have k2: "dead k2 = dead k1"
      using assms(1) by (auto simp: reap_def split: option.splits if_splits)
    have ok1: "observer_ok ob1" by (rule observer_ok_reap [OF less.prems re])
    have "card (dom (dead k2)) < card (dom (dead k))"
      using card_dead_decreases [OF w [unfolded r] pid] k2 by simp
    from less.hyps [OF this ok1] obtain ob' k' ds where
      ih: "on_sig_child K react ob1 k2 = Some (ob', k')" "dead k' = Map.empty"
        "reported ob1 ob' (dom (dead k2)) ds" "observer_ok ob'" by blast
    from reap_reported [OF re] dead_terminated rs obtain ds1 where "reported ob ob1 {pid} ds1" by blast
    from reported_trans [OF this ih(3) less.prems ok1] rs k2
    have "reported ob ob' ({pid} \<union> (dom (dead k) - {pid})) (ds1 @ ds)" by auto
    moreover have "{pid} \<union> (dom (dead k) - {pid}) = dom (dead k)" using rs by auto
    ultimately have "reported ob ob' (dom (dead k)) (ds1 @ ds)" by simp
    moreover have "on_sig_child K react ob k = Some (ob', k')"
      using w r pid re ih(1) by (subst on_sig_child.simps) simp
    ultimately show ?thesis using ih(2,4) by blast
  next
    case False
    then have "dead k = Map.empty \<and> dead k1 = Map.empty" and "on_sig_child K react ob k = Some (ob, k1)"
      using reap_none reap_fail w by (cases r; force simp: on_sig_child.simps)+
    then show ?thesis using less.prems by (auto simp: reported_def)
  qed
qed

end

context wait_kernel
begin

lemma deliver_spec:
  assumes "\<And>c k. dead (react c k) = dead k" and "observer_ok ob"
  shows "\<exists>ob' k'. deliver K react signals ob k = Some (ob', k') \<and> observer_ok ob' \<and>
    (if sig_chld \<in> set signals
     then dead k' = Map.empty \<and> (\<exists>ds. reported ob ob' (dom (dead k)) ds)
     else ob' = ob \<and> k' = k)"
  using assms(2)
proof (induction signals arbitrary: ob k)
  case (Cons s signals)
  show ?case
  proof (cases "s = sig_chld")
    case False
    with Cons show ?thesis by (auto simp: on_signal_def)
  next
    case True
    from on_sig_child_spec [of react ob k, OF assms(1) Cons.prems] obtain ob1 k1 ds where
      o: "on_sig_child K react ob k = Some (ob1, k1)" "dead k1 = Map.empty" "reported ob ob1 (dom (dead k)) ds"
        "observer_ok ob1" by blast
    from Cons.IH [OF o(4), of k1] obtain ob' k' where d: "deliver K react signals ob1 k1 = Some (ob', k')"
      and ok: "observer_ok ob'" and cases: "if sig_chld \<in> set signals
        then dead k' = Map.empty \<and> (\<exists>ds. reported ob1 ob' (dom (dead k1)) ds) else ob' = ob1 \<and> k' = k1"
      by blast
    from cases o obtain ds' where "dead k' = Map.empty" "reported ob1 ob' {} ds'"
      by (auto simp: reported_def split: if_splits)
    moreover from reported_trans [OF o(3) this(2) Cons.prems o(4)] have "reported ob ob' (dom (dead k)) (ds @ ds')"
      by simp
    ultimately show ?thesis using d ok o(1) True by (auto simp: on_signal_def)
  qed
qed simp

end

section \<open>Histories\<close>

text \<open>
  The observer in use: children are added, the handler runs, and the kernel state changes in
  between in any way. The third component collects the children that were taken into the map.
\<close>

inductive observer_step ::
  "'k api \<Rightarrow> (ChildProcess \<Rightarrow> 'k \<Rightarrow> 'k) \<Rightarrow> observer \<times> 'k \<times> ChildProcess list \<Rightarrow>
   observer \<times> 'k \<times> ChildProcess list \<Rightarrow> bool" for K react where
  added: "add K react c ob k = (b, ob', k') \<Longrightarrow>
    acc' = (if Process_pid c \<noteq> - 1 \<and> \<not> has ob c then acc @ [c] else acc) \<Longrightarrow>
    observer_step K react (ob, k, acc) (ob', k', acc')"
| handled: "on_sig_child K react ob k = Some (ob', k') \<Longrightarrow> observer_step K react (ob, k, acc) (ob', k', acc)"
| world: "observer_step K react (ob, k, acc) (ob, k', acc)"

inductive observer_reachable ::
  "'k api \<Rightarrow> (ChildProcess \<Rightarrow> 'k \<Rightarrow> 'k) \<Rightarrow> observer \<times> 'k \<times> ChildProcess list \<Rightarrow> bool" for K react where
  init: "observer_reachable K react (\<lparr>children = Map.empty, died = []\<rparr>, k, [])"
| more: "observer_reachable K react x \<Longrightarrow> observer_step K react x y \<Longrightarrow> observer_reachable K react y"

definition accounted :: "observer \<Rightarrow> ChildProcess list \<Rightarrow> bool" where
  "accounted ob acc \<longleftrightarrow> observer_ok ob \<and>
     (\<forall>c. count_list (died ob) c + of_bool (children ob (Process_pid c) = Some c) = count_list acc c)"

lemma count_list_append [simp]: "count_list (xs @ ys) x = count_list xs x + count_list ys x"
  by (induction xs) auto

lemma count_list_distinct: "distinct xs \<Longrightarrow> count_list xs x = of_bool (x \<in> set xs)"
  by (induction xs) auto

lemma accounted_add:
  assumes "accounted ob acc" and "add K react c ob k = (b, ob', k')"
  shows "accounted ob' (if Process_pid c \<noteq> - 1 \<and> \<not> has ob c then acc @ [c] else acc)"
proof -
  have ok: "observer_ok ob'" using assms observer_ok_add by (auto simp: accounted_def)
  show ?thesis
  proof (cases "Process_pid c = - 1 \<or> has ob c")
    case True
    with assms(2) have "ob' = ob" by (auto simp: add_def has_def split: if_splits)
    with True assms(1) show ?thesis by auto
  next
    case False
    then have fresh: "Process_pid c \<noteq> - 1" "children ob (Process_pid c) = None" by (auto simp: has_def)
    with assms(2) have new: "ob' = ob\<lparr>children := (children ob)(Process_pid c \<mapsto> c)\<rparr> \<or>
        ob' = ob\<lparr>died := died ob @ [c], children := (children ob)(Process_pid c := None)\<rparr>"
      by (auto simp: add_def Let_def split: prod.splits if_splits)
    have "count_list (died ob') d + of_bool (children ob' (Process_pid d) = Some d) = count_list (acc @ [c]) d" for d
    proof -
      have cnt: "count_list (died ob) d + of_bool (children ob (Process_pid d) = Some d) = count_list acc d"
        using assms(1) by (simp add: accounted_def)
      have one: "count_list [c] d = of_bool (c = d)" by simp
      show ?thesis
      proof (cases "Process_pid d = Process_pid c")
        case True
        with cnt fresh(2) have "count_list (died ob) d = count_list acc d" by simp
        with new one True show ?thesis by (elim disjE) simp_all
      next
        case False
        then have "c \<noteq> d" by auto
        with cnt new one False show ?thesis by (elim disjE) simp_all
      qed
    qed
    with ok False show ?thesis by (simp add: accounted_def)
  qed
qed

lemma accounted_reported:
  assumes "accounted ob acc" and "reported ob ob' D ds" and "observer_ok ob'"
  shows "accounted ob' acc"
proof -
  have "count_list (died ob') c + of_bool (children ob' (Process_pid c) = Some c) = count_list acc c" for c
  proof -
    have "distinct ds" using assms(2) by (simp add: reported_def distinct_map)
    then have n: "count_list ds c = of_bool (c \<in> set ds)" by (rule count_list_distinct)
    have "c \<in> set ds \<longleftrightarrow> Process_pid c \<in> D \<and> children ob (Process_pid c) = Some c"
      using assms(1,2) by (auto simp: reported_def accounted_def observer_ok_def)
    with n assms(1,2) show ?thesis
      by (auto simp: reported_def accounted_def restrict_map_def)
  qed
  with assms(3) show ?thesis by (simp add: accounted_def)
qed


section \<open>Properties\<close>

text \<open>
  C4: the \<open>SIGCHLD\<close> handler. On any kernel that obeys the laws of waitpid, whatever
  subscribers do short of creating or reaping dead children, the loop ends; then no dead child of the process group
  is left unreaped, exactly the observed children that had died are reported, each once,
  and exactly they are no longer observed. One \<open>SIGCHLD\<close> may thus stand for many deaths.
\<close>

theorem on_sig_child_reaps_all:
  assumes "wait_kernel K dead" and "\<forall>c k. dead (react c k) = dead k" and "observer_ok ob"
  shows "\<exists>ob' k' ds. on_sig_child K react ob k = Some (ob', k') \<and> dead k' = Map.empty \<and>
    children ob' = children ob |` (- dom (dead k)) \<and> died ob' = died ob @ ds \<and>
    distinct (map Process_pid ds) \<and> set ds = {c. \<exists>pid \<in> dom (dead k). children ob pid = Some c} \<and>
    observer_ok ob'"
proof -
  from wait_kernel.on_sig_child_spec [OF assms(1) _ assms(3), of react k] assms(2)
  obtain ob' k' ds where "on_sig_child K react ob k = Some (ob', k')" "dead k' = Map.empty"
    "reported ob ob' (dom (dead k)) ds" "observer_ok ob'" by blast
  then show ?thesis unfolding reported_def by blast
qed

definition sample_child :: "int \<Rightarrow> ChildProcess" where
  "sample_child pid = (case ChildProcess_ctor ref_api pid closed_pipe closed_pipe closed_pipe (ref_boot 8) of
     (Inr c, _) \<Rightarrow> c | _ \<Rightarrow> undefined)"

lemma sample_child_pid [simp]: "0 \<le> pid \<Longrightarrow> Process_pid (sample_child pid) = pid"
proof -
  assume "0 \<le> pid"
  then obtain c k where c: "ChildProcess_ctor ref_api pid closed_pipe closed_pipe closed_pipe (ref_boot 8) = (Inr c, k)"
    by (cases "ChildProcess_ctor ref_api pid closed_pipe closed_pipe closed_pipe (ref_boot 8)")
      (auto simp: ChildProcess_ctor_def split: prod.splits)
  then have "proc_pid c = pid" by (simp add: run_iff)
  then show ?thesis by (simp add: sample_child_def c Process_pid_def)
qed

definition two_dead :: ref_kernel where
  "two_dead = (ref_boot 8)\<lparr>rk_children := [(101, 100, Zombie (Ev_Exited 0)), (102, 100, Alive),
     (103, 100, Zombie (Ev_Signaled 9 False))]\<rparr>"

lemma two_dead_dom: "dom (rk_dead two_dead) = {101, 103}"
  by (auto simp: rk_dead_def rk_dead_list_def rk_dead_of_def rk_waitable_def rk_addressed_def two_dead_def
      ref_boot_def)

theorem on_sig_child_reaps_all_witness:
  "\<exists>ob' k'. on_sig_child ref_api (\<lambda>c k. k)
     \<lparr>children = [102 \<mapsto> sample_child 102, 103 \<mapsto> sample_child 103], died = []\<rparr> two_dead = Some (ob', k') \<and>
     died ob' = [sample_child 103] \<and> children ob' = [102 \<mapsto> sample_child 102]"
proof -
  let ?ob = "\<lparr>children = [102 \<mapsto> sample_child 102, 103 \<mapsto> sample_child 103], died = []\<rparr>"
  have "observer_ok ?ob" by (simp add: observer_ok_def)
  from on_sig_child_reaps_all [OF rk.wait_kernel_axioms _ this, of "\<lambda>c k. k" two_dead] obtain ob' k' ds where
    r: "on_sig_child ref_api (\<lambda>c k. k) ?ob two_dead = Some (ob', k')"
      "children ob' = children ?ob |` (- {101, 103})" "died ob' = ds" "distinct (map Process_pid ds)"
      "set ds = {c. \<exists>pid \<in> {101, 103}. children ?ob pid = Some c}"
    by (auto simp: two_dead_dom)
  then have "set ds = {sample_child 103}" and "distinct ds" by (auto simp: distinct_map)
  then have "ds = [sample_child 103]"
    by (cases ds) (auto, metis distinct.simps(2) list.set_intros(1) neq_Nil_conv singletonD subset_iff)
  moreover have "children ob' = [102 \<mapsto> sample_child 102]" using r(2) by auto
  ultimately show ?thesis using r by blast
qed

text \<open>
  C5: no death is reported twice and none is forgotten. In every history of additions,
  handler runs and changes of the world, a child was reported as dead exactly as often as it
  was taken into the map, once less while it is still observed; and \<open>has\<close> agrees.
\<close>

theorem deaths_reported_exactly_once:
  assumes "wait_kernel K dead" and "\<forall>c k. dead (react c k) = dead k"
    and "observer_reachable K react (ob, k, acc)"
  shows "count_list (died ob) c + of_bool (children ob (Process_pid c) = Some c) = count_list acc c"
proof -
  have "accounted (fst x) (snd (snd x))" if "observer_reachable K react x" for x
    using that
  proof (induction rule: observer_reachable.induct)
    case (init k)
    show ?case by (simp add: accounted_def observer_ok_def)
  next
    case (more x y)
    from more(2,3) show ?case
    proof (cases rule: observer_step.cases)
      case (handled ob k ob' k' acc)
      with more(3) have acc: "accounted ob acc" and "observer_ok ob" by (auto simp: accounted_def)
      from wait_kernel.on_sig_child_spec [OF assms(1) _ this(2), of react k] assms(2) handled(3)
      obtain ds where "reported ob ob' (dom (dead k)) ds" and "observer_ok ob'" by auto
      from accounted_reported [OF acc this] handled show ?thesis by simp
    qed (auto simp: accounted_add)
  qed
  from this [OF assms(3)] show ?thesis by (simp add: accounted_def)
qed

theorem deaths_reported_exactly_once_witness:
  "\<exists>ob k acc. observer_reachable ref_api (\<lambda>c k. k) (ob, k, acc) \<and> acc = [sample_child 101] \<and>
     count_list (died ob) (sample_child 101) = 1"
proof -
  let ?ob0 = "\<lparr>children = Map.empty, died = []\<rparr>" and ?c = "sample_child 101"
  obtain b ob k where a: "add ref_api (\<lambda>c k. k) ?c ?ob0 two_dead = (b, ob, k)" by (metis prod_cases3)
  have "observer_reachable ref_api (\<lambda>c k. k) (?ob0, two_dead, [])" by (rule init)
  from observer_reachable.more [OF this observer_step.added [OF a refl]]
  have re: "observer_reachable ref_api (\<lambda>c k. k) (ob, k, [?c])" by (simp add: has_def)
  have "sys_waitpid ref_api 101 WNOHANG two_dead = (Inr (101, encode_status (Ev_Exited 0)),
      two_dead\<lparr>rk_children := [(102, 100, Alive), (103, 100, Zombie (Ev_Signaled 9 False))]\<rparr>)"
    by (simp add: rk_waitpid_def rk_dead_list_def rk_dead_of_def rk_waitable_def rk_addressed_def two_dead_def ref_boot_def)
  with a have "children ob = Map.empty" by (auto simp: add_def)
  with deaths_reported_exactly_once [OF rk.wait_kernel_axioms _ re, of ?c] re show ?thesis by auto
qed

text \<open>
  C27: what \<open>add\<close> does with a child depends on what has become of it. A child already observed is
  left alone. A living one is kept, and only then true is returned. One that has died is reaped,
  reported to the subscribers at once and not kept; and so is a process that is no child or has been
  reaped by someone else, for which waitpid(2) fails. No other child is affected.
\<close>

theorem add_by_fate:
  assumes K: "wait_one_kernel K kid" and pid: "0 < Process_pid c" and add: "add K react c ob k = (b, ob', k')"
  shows "if has ob c then \<not> b \<and> ob' = ob \<and> k' = k
    else case kid k (Process_pid c) of
      Some None \<Rightarrow> b \<and> ob' = ob\<lparr>children := (children ob)(Process_pid c \<mapsto> c)\<rparr> \<and> kid k' = kid k
    | _ \<Rightarrow> \<not> b \<and> ob' = ob\<lparr>died := died ob @ [c]\<rparr> \<and>
        (\<exists>k1. k' = react c k1 \<and> kid k1 = (kid k)(Process_pid c := None))"
proof (cases "has ob c")
  case True
  with add pid show ?thesis by (auto simp: add_def has_def)
next
  case False
  then have fresh: "children ob (Process_pid c) = None" by (simp add: has_def)
  then have undo: "(children ob)(Process_pid c := None) = children ob" by (simp add: fun_upd_idem)
  note one = wait_one_kernel.one_alive [OF K pid, of k] wait_one_kernel.one_dead [OF K pid, of k]
    wait_one_kernel.one_gone [OF K pid, of k]
  consider "kid k (Process_pid c) = Some None" | st where "kid k (Process_pid c) = Some (Some st)"
    | "kid k (Process_pid c) = None" by (cases "kid k (Process_pid c)") auto
  then show ?thesis
  proof cases
    case 1
    with one(1) add fresh False pid show ?thesis by (auto simp: add_def)
  next
    case 2
    with one(2) add fresh False pid undo show ?thesis by (auto simp: add_def)
  next
    case 3
    with one(3) add fresh False pid undo show ?thesis by (auto simp: add_def fun_upd_idem)
  qed
qed

theorem add_by_fate_witness:
  "(\<exists>ob' k'. add ref_api (\<lambda>c k. k) (sample_child 102) \<lparr>children = Map.empty, died = []\<rparr> two_dead = (True, ob', k') \<and>
     has ob' (sample_child 102)) \<and>
   (\<exists>ob' k'. add ref_api (\<lambda>c k. k) (sample_child 101) \<lparr>children = Map.empty, died = []\<rparr> two_dead = (False, ob', k') \<and>
     died ob' = [sample_child 101])"
proof -
  let ?ob0 = "\<lparr>children = Map.empty, died = []\<rparr>"
  have kid: "rk_kid two_dead 102 = Some None" "rk_kid two_dead 101 \<noteq> None" "rk_kid two_dead 101 \<noteq> Some None" by code_simp+
  obtain b ob k where a: "add ref_api (\<lambda>c k. k) (sample_child 102) ?ob0 two_dead = (b, ob, k)" by (metis prod_cases3)
  obtain b' ob' k' where a': "add ref_api (\<lambda>c k. k) (sample_child 101) ?ob0 two_dead = (b', ob', k')" by (metis prod_cases3)
  have "0 < Process_pid (sample_child 102)" "0 < Process_pid (sample_child 101)" by simp_all
  then show ?thesis
    using add_by_fate [OF rk.wait_one_kernel_axioms _ a] add_by_fate [OF rk.wait_one_kernel_axioms _ a'] a a' kid
    by (auto simp: has_def split: option.splits)
qed

text \<open>
  C26: at most one observer. However calls of \<open>create_once_with_signal_trap\<close> interleave, at
  most one of them returns an instance; while one is being constructed or exists, the flag is
  set; and when every construction so far has thrown and been cleaned up, the flag is clear,
  so that creation can be tried again.
\<close>

theorem at_most_one_observer:
  assumes "create_reachable s"
  shows "(pc s i = Created \<longrightarrow> pc s j = Created \<longrightarrow> i = j) \<and> (pc s i = Created \<longrightarrow> flag s) \<and>
    ((\<forall>i. pc s i \<in> {Before_Exchange, Threw}) \<longrightarrow> \<not> flag s)"
proof -
  from create_reachable_inv [OF assms] have inv: "create_inv s" .
  have mem: "i \<in> holders s" if "pc s i = Created" for i using that by (simp add: holders_def)
  have "holders s = {}" if "\<forall>i. pc s i \<in> {Before_Exchange, Threw}"
  proof -
    have "pc s i \<notin> {Constructing, Resetting, Created}" for i using that [rule_format, of i] by auto
    then show ?thesis by (simp add: holders_def)
  qed
  moreover have "i = j" if "pc s i = Created" "pc s j = Created"
    using inv mem [OF that(1)] mem [OF that(2)] by (auto simp: create_inv_def is_singleton_def split: if_splits)
  moreover have "flag s" if "pc s i = Created"
    using inv mem [OF that] by (auto simp: create_inv_def split: if_splits)
  ultimately show ?thesis using inv by (auto simp: create_inv_def is_singleton_def)
qed

theorem at_most_one_observer_witness:
  "\<exists>s. create_reachable s \<and> pc s 0 = Created \<and> pc s 1 = Threw \<and> flag s"
proof -
  let ?s0 = "\<lparr>flag = False, pc = (\<lambda>_. Before_Exchange)\<rparr>"
  let ?s1 = "\<lparr>flag = True, pc = (\<lambda>_. Before_Exchange)(0 := Constructing)\<rparr>"
  let ?s2 = "\<lparr>flag = True, pc = (\<lambda>_. Before_Exchange)(0 := Constructing, 1 := Threw)\<rparr>"
  let ?s3 = "\<lparr>flag = True, pc = (\<lambda>_. Before_Exchange)(0 := Constructing, 1 := Threw, 0 := Created)\<rparr>"
  have "create_step ?s0 ?s1" using exchange_first [of ?s0 0] by simp
  moreover have "create_step ?s1 ?s2" using exchange_again [of ?s1 1] by simp
  moreover have "create_step ?s2 ?s3" using construct [of ?s2 0] by simp
  ultimately have "create_reachable ?s3" using create_reachable.start create_reachable.step by metis
  with at_most_one_observer [OF this, of 0 0] show ?thesis by (intro exI [of _ ?s3]) simp
qed

end
