(* ===== verification/Observer_Handles.thy ===== *)
theory Observer_Handles
  imports Handles Death_Observer
begin

text \<open>
  The handles the death observer owns (\<open>DeathObserverImpl\<close> of \<open>child_process.cpp\<close>). Its map holds
  copies of the \<open>ChildProcess\<close> objects given to \<open>add\<close>, one in a node for each pid, so it takes part
  in the shared ownership of theory \<open>Handles\<close>: the program may drop all its handles of an observed
  child, and erasing a node may destroy the last one.
\<close>

section \<open>The observer on the heap of handles\<close>

text \<open>
  \<open>nodes\<close> are the pids of the map with the variables of their nodes, \<open>emitted\<close> the children \<open>child_died\<close>
  was emitted for, as values.
\<close>

record 'k shared =
  held :: "'k heap"
  nodes :: "(int \<times> nat) list"
  emitted :: "ChildProcess list"

definition shared_init :: "'k \<Rightarrow> 'k shared" where
  "shared_init k = \<lparr>held = heap_init k, nodes = [], emitted = []\<rparr>"

text \<open>The object a variable is a handle of, as the value other theories take it for.\<close>

definition object_of :: "'k heap \<Rightarrow> nat \<Rightarrow> ChildProcess option" where
  "object_of x v = Option.bind (vars x v) (\<lambda>h. Option.bind (blocks x (d_ref h)) (\<lambda>(d, n).
     Some \<lparr>sig_pid = sig_pid h, proc_pid = proc_pid h, child_d = d\<rparr>))"

text \<open>
  The rest of the program and the subscribers can do anything with handles but assign to or
  destroy those that are not theirs.
\<close>

fun overwrites :: "'k handle_op \<Rightarrow> nat set" where
  "overwrites (Assign v w) = {v}"
| "overwrites (Destroy v) = {v}"
| "overwrites (Construct v pid pin pout perr) = {}"
| "overwrites (Copy v w) = {}"
| "overwrites (Other f) = {}"

definition by_others :: "'k api \<Rightarrow> nat list \<Rightarrow> 'k handle_op list \<Rightarrow> 'k heap \<Rightarrow> 'k heap option" where
  "by_others K own cs x = (if list_all (\<lambda>c. \<forall>v \<in> set own. v \<notin> overwrites c) cs then handle_steps K cs x else None)"

text \<open>
  \<open>add\<close> of the handle in \<open>v\<close>: the pair \<open>new_process\<close> in the variable \<open>l\<close> has a copy of it, the node \<open>n\<close>
  a copy of that. The pair goes when the function returns.
\<close>

definition add_shared ::
  "'k api \<Rightarrow> (nat \<Rightarrow> 'k handle_op list) \<Rightarrow> nat \<Rightarrow> nat \<Rightarrow> nat \<Rightarrow> 'k shared \<Rightarrow> (bool \<times> 'k shared) option" where
  "add_shared K subs v l n s =
     (case vars (held s) v of
        None \<Rightarrow> None
      | Some process \<Rightarrow>
          if proc_pid process = - 1 then Some (False, s)
          else if map_of (nodes s) (proc_pid process) \<noteq> None
          then map_option (\<lambda>x. (False, s\<lparr>held := x\<rparr>)) (handle_steps K [Copy v l, Destroy l] (held s))
          else Option.bind (handle_steps K [Copy v l, Copy l n] (held s)) (\<lambda>x.
            let (r, k1) = sys_waitpid K (proc_pid process) WNOHANG (kern x)
            in if (case r of Inl _ \<Rightarrow> True | Inr (result, _) \<Rightarrow> result \<noteq> 0)
               then Option.bind (object_of x l) (\<lambda>c.
                 Option.bind (by_others K (l # n # map snd (nodes s)) (subs l) (x\<lparr>kern := k1\<rparr>))
                   (\<lambda>y. map_option (\<lambda>z. (False, s\<lparr>held := z, emitted := emitted s @ [c]\<rparr>))
                     (handle_steps K [Destroy n, Destroy l] y)))
               else map_option (\<lambda>z. (True, s\<lparr>held := z, nodes := (proc_pid process, n) # nodes s\<rparr>))
                 (handle_step K (Destroy l) (x\<lparr>kern := k1\<rparr>))))"

text \<open>One round of the loop of \<open>on_sig_child\<close>.\<close>

definition round_shared :: "'k api \<Rightarrow> (nat \<Rightarrow> 'k handle_op list) \<Rightarrow> 'k shared \<Rightarrow> 'k shared option" where
  "round_shared K subs s =
     (let (r, k1) = sys_waitpid K 0 WNOHANG (kern (held s)); x = (held s)\<lparr>kern := k1\<rparr>
      in case r of
          Inl _ \<Rightarrow> Some (s\<lparr>held := x\<rparr>)
        | Inr (pid, status) \<Rightarrow>
            if pid = 0 then Some (s\<lparr>held := x\<rparr>)
            else (case map_of (nodes s) pid of
                None \<Rightarrow> Some (s\<lparr>held := x\<rparr>)
              | Some n \<Rightarrow>
                  if WIFSIGNALED status \<or> WIFEXITED status
                  then Option.bind (object_of x n) (\<lambda>c.
                    Option.bind (by_others K (map snd (nodes s)) (subs n) x)
                      (\<lambda>y. map_option (\<lambda>z. s\<lparr>held := z, nodes := filter (\<lambda>e. fst e \<noteq> pid) (nodes s),
                          emitted := emitted s @ [c]\<rparr>) (handle_step K (Destroy n) y)))
                  else Some (s\<lparr>held := x\<rparr>)))"

text \<open>The destructor of the observer destroys the map.\<close>

definition end_shared :: "'k api \<Rightarrow> 'k shared \<Rightarrow> 'k shared option" where
  "end_shared K s =
     map_option (\<lambda>x. s\<lparr>held := x, nodes := []\<rparr>) (handle_steps K (map (\<lambda>e. Destroy (snd e)) (nodes s)) (held s))"

datatype 'k shared_op =
    Program "'k handle_op"
  | Add nat nat nat
  | Round
  | End_Observer

fun shared_step :: "'k api \<Rightarrow> (nat \<Rightarrow> 'k handle_op list) \<Rightarrow> 'k shared_op \<Rightarrow> 'k shared \<Rightarrow> 'k shared option" where
  "shared_step K subs (Program c) s =
     map_option (\<lambda>x. s\<lparr>held := x\<rparr>) (by_others K (map snd (nodes s)) [c] (held s))"
| "shared_step K subs (Add v l n) s = map_option snd (add_shared K subs v l n s)"
| "shared_step K subs Round s = round_shared K subs s"
| "shared_step K subs End_Observer s = end_shared K s"

fun shared_steps ::
  "'k api \<Rightarrow> (nat \<Rightarrow> 'k handle_op list) \<Rightarrow> 'k shared_op list \<Rightarrow> 'k shared \<Rightarrow> 'k shared option" where
  "shared_steps K subs [] s = Some s"
| "shared_steps K subs (c # cs) s = Option.bind (shared_step K subs c s) (shared_steps K subs cs)"

section \<open>The invariant\<close>

text \<open>Handles and the objects they share name the same child.\<close>

definition named :: "'k heap \<Rightarrow> bool" where
  "named s \<longleftrightarrow> (\<forall>v h d n. vars s v = Some h \<longrightarrow> blocks s (d_ref h) = Some (d, n) \<longrightarrow> original_child_pid d = proc_pid h)"

definition heap_ok :: "'k heap \<Rightarrow> bool" where
  "heap_ok s \<longleftrightarrow> counted {#} s \<and> named s"

text \<open>Every node holds a handle of its child.\<close>

definition nodes_ok :: "(int \<times> nat) list \<Rightarrow> 'k heap \<Rightarrow> bool" where
  "nodes_ok N x \<longleftrightarrow> (\<forall>(p, n) \<in> set N. \<exists>h. vars x n = Some h \<and> proc_pid h = p)"

definition shared_ok :: "'k shared \<Rightarrow> bool" where
  "shared_ok s \<longleftrightarrow> heap_ok (held s) \<and> nodes_ok (nodes s) (held s) \<and>
     distinct (map fst (nodes s)) \<and> distinct (map snd (nodes s))"

lemma named_mono:
  assumes "named s" and "\<And>v h. vars s' v = Some h \<Longrightarrow> \<exists>w. vars s w = Some h"
    and "\<And>b d n. blocks s' b = Some (d, n) \<Longrightarrow> \<exists>m. blocks s b = Some (d, m)"
  shows "named s'"
  using assms unfolding named_def by meson

lemma release_vars [simp]: "vars (release K b s) = vars s"
  by (simp add: release_def split: option.splits)

lemma acquire_blocks: "blocks (acquire b s) c = Some (d, n) \<Longrightarrow> \<exists>m. blocks s c = Some (d, m)"
  by (auto simp: acquire_def split: option.splits if_splits)

lemma release_blocks: "blocks (release K b s) c = Some (d, n) \<Longrightarrow> \<exists>m. blocks s c = Some (d, m)"
  by (auto simp: release_def split: option.splits if_splits)

lemma handle_step_named:
  assumes "counted {#} s" and "named s" and "handle_step K c s = Some s'"
  shows "named s'"
proof (cases c)
  case (Construct v pid pin pout perr)
  have "d_ref h \<noteq> next_block s" if "vars s w = Some h" for w h
    using counted_block_None_iff [OF assms(1), of "next_block s"] countedD(5) [OF assms(1), of "next_block s"] that
    by (auto simp: referred_def)
  with assms(2,3) Construct show ?thesis
    by (auto simp: named_def ChildProcess_ctor_def Private_ctor_def Process_ctor_def Process.defs ChildProcess.defs Signalable.defs
        Signalable_ctor_def         split: if_splits prod.splits sum.splits)
next
  case (Copy v w)
  then show ?thesis
    using assms(3) by (intro named_mono [OF assms(2)]) (auto simp: Let_def split: option.splits if_splits dest: acquire_blocks)
next
  case (Assign v w)
  then show ?thesis
    using assms(3) by (intro named_mono [OF assms(2)])
      (auto simp: Let_def split: option.splits if_splits dest!: release_blocks acquire_blocks)
next
  case (Destroy v)
  then show ?thesis
    using assms(3) by (intro named_mono [OF assms(2)]) (auto split: option.splits if_splits dest!: release_blocks)
next
  case (Other f)
  with assms show ?thesis by (auto simp: named_def)
qed

lemma handle_step_keeps:
  "handle_step K c s = Some s' \<Longrightarrow> vars s v = Some h \<Longrightarrow> v \<notin> overwrites c \<Longrightarrow> vars s' v = Some h"
  by (cases c) (auto simp: Let_def split: option.splits if_splits prod.splits sum.splits)

lemma heap_ok_kern [simp]: "heap_ok (s\<lparr>kern := k\<rparr>) = heap_ok s"
  by (simp add: heap_ok_def counted_def named_def)

lemma handle_steps_ok:
  "handle_steps K cs s = Some s' \<Longrightarrow> heap_ok s \<Longrightarrow> heap_ok s'"
  by (induction cs arbitrary: s) (auto simp: heap_ok_def bind_eq_Some_conv dest: handle_step_counted handle_step_named)

lemma handle_steps_keep:
  "handle_steps K cs s = Some s' \<Longrightarrow> vars s v = Some h \<Longrightarrow> \<forall>c \<in> set cs. v \<notin> overwrites c \<Longrightarrow> vars s' v = Some h"
  by (induction cs arbitrary: s) (auto simp: bind_eq_Some_conv dest: handle_step_keeps)

lemma by_others_keep:
  "by_others K own cs s = Some s' \<Longrightarrow> v \<in> set own \<Longrightarrow> vars s v = Some h \<Longrightarrow> vars s' v = Some h"
  by (auto simp: by_others_def list_all_iff split: if_splits elim: handle_steps_keep)

lemma by_others_ok: "by_others K own cs s = Some s' \<Longrightarrow> heap_ok s \<Longrightarrow> heap_ok s'"
  by (auto simp: by_others_def split: if_splits elim: handle_steps_ok)

lemma nodes_ok_steps:
  assumes "handle_steps K cs x = Some y" and "nodes_ok N x" and "\<forall>c \<in> set cs. \<forall>n \<in> snd ` set N. n \<notin> overwrites c"
  shows "nodes_ok N y"
  unfolding nodes_ok_def
proof (intro ballI)
  fix e
  assume "e \<in> set N"
  with assms(2,3) show "case e of (p, n) \<Rightarrow> \<exists>h. vars y n = Some h \<and> proc_pid h = p"
    using handle_steps_keep [OF assms(1), of "snd e"] by (fastforce simp: nodes_ok_def)
qed

lemma nodes_ok_others:
  "by_others K own cs x = Some y \<Longrightarrow> nodes_ok N x \<Longrightarrow> snd ` set N \<subseteq> set own \<Longrightarrow> nodes_ok N y"
  by (auto simp: by_others_def list_all_iff split: if_splits elim!: nodes_ok_steps)

lemma nodes_ok_kern [simp]: "nodes_ok N (x\<lparr>kern := k\<rparr>) = nodes_ok N x"
  by (simp add: nodes_ok_def)

lemma nodes_ok_fresh: "nodes_ok N x \<Longrightarrow> vars x l = None \<Longrightarrow> l \<notin> snd ` set N"
  by (auto simp: nodes_ok_def)

lemma shared_okD:
  assumes "shared_ok s"
  shows "heap_ok (held s)" and "nodes_ok (nodes s) (held s)"
    and "distinct (map fst (nodes s))" and "distinct (map snd (nodes s))"
  using assms by (simp_all add: shared_ok_def)

lemma add_temporary_ok:
  assumes "shared_ok s" and x: "handle_steps K [Copy v l, Destroy l] (held s) = Some x"
  shows "shared_ok (s\<lparr>held := x\<rparr>)"
proof -
  note ok = shared_okD [OF assms(1)]
  from x have "vars (held s) l = None" by (auto simp: bind_eq_Some_conv split: option.splits if_splits)
  with ok(2) have "l \<notin> snd ` set (nodes s)" by (rule nodes_ok_fresh)
  then have "nodes_ok (nodes s) x" using nodes_ok_steps [OF x ok(2)] by auto
  with handle_steps_ok [OF x ok(1)] ok show ?thesis by (simp add: shared_ok_def)
qed

lemma add_insert:
  assumes "shared_ok s" and h: "vars (held s) v = Some h"
    and x: "handle_steps K [Copy v l, Copy l n] (held s) = Some x"
  shows "heap_ok x" and "nodes_ok (nodes s) x" and "vars x n = Some h" and "l \<noteq> n"
    and "l \<notin> snd ` set (nodes s)" and "n \<notin> snd ` set (nodes s)"
proof -
  note ok = shared_okD [OF assms(1)]
  show "heap_ok x" by (rule handle_steps_ok [OF x ok(1)])
  show "nodes_ok (nodes s) x" using nodes_ok_steps [OF x ok(2)] by auto
  from x have "vars (held s) l = None \<and> vars (held s) n = None \<and> l \<noteq> n \<and> vars x n = Some h"
    using h by (auto simp: bind_eq_Some_conv Let_def split: option.splits if_splits)
  then show "vars x n = Some h" and "l \<noteq> n" and "l \<notin> snd ` set (nodes s)" and "n \<notin> snd ` set (nodes s)"
    using nodes_ok_fresh [OF ok(2)] by auto
qed

lemma add_shared_ok:
  assumes "shared_ok s" and "add_shared K subs v l n s = Some (b, s')"
  shows "shared_ok s'"
proof -
  note ok = shared_okD [OF assms(1)]
  from assms(2) obtain h where h: "vars (held s) v = Some h" by (auto simp: add_shared_def split: option.splits)
  let ?p = "proc_pid h"
  consider "?p = - 1" | "?p \<noteq> - 1" "map_of (nodes s) ?p \<noteq> None" | "?p \<noteq> - 1" "map_of (nodes s) ?p = None" by blast
  then show ?thesis
  proof cases
    case 3
    with assms(2) h obtain x where x: "handle_steps K [Copy v l, Copy l n] (held s) = Some x"
      by (auto simp: add_shared_def bind_eq_Some_conv simp del: handle_steps.simps)
    note i = add_insert [OF assms(1) h x]
    obtain r k1 where w: "sys_waitpid K ?p WNOHANG (kern x) = (r, k1)" by (cases "sys_waitpid K ?p WNOHANG (kern x)")
    show ?thesis
    proof (cases "case r of Inl _ \<Rightarrow> True | Inr (result, _) \<Rightarrow> result \<noteq> 0")
      case True
      with 3 assms(2) h x w obtain o' y z where y: "by_others K (l # n # map snd (nodes s)) (subs l) (x\<lparr>kern := k1\<rparr>) = Some y"
        and z: "handle_steps K [Destroy n, Destroy l] y = Some z" and s': "s' = s\<lparr>held := z, emitted := emitted s @ [o']\<rparr>"
        by (auto simp: add_shared_def bind_eq_Some_conv simp del: handle_steps.simps)
      have "nodes_ok (nodes s) y" by (rule nodes_ok_others [OF y]) (use i in auto)
      then have "nodes_ok (nodes s) z" using nodes_ok_steps [OF z] i by auto
      with handle_steps_ok [OF z by_others_ok [OF y]] i ok s' show ?thesis by (simp add: shared_ok_def)
    next
      case False
      with 3 assms(2) h x w obtain z where z: "handle_steps K [Destroy l] (x\<lparr>kern := k1\<rparr>) = Some z"
        and s': "s' = s\<lparr>held := z, nodes := (?p, n) # nodes s\<rparr>"
        by (auto simp: add_shared_def bind_eq_Some_conv simp del: handle_step.simps)
      have "nodes_ok ((?p, n) # nodes s) (x\<lparr>kern := k1\<rparr>)" using i by (simp add: nodes_ok_def)
      then have "nodes_ok ((?p, n) # nodes s) z"
        by (rule nodes_ok_steps [OF z]) (use i in auto)
      with handle_steps_ok [OF z] i ok s' 3 show ?thesis by (simp add: shared_ok_def map_of_eq_None_iff)
    qed
  qed (use assms h add_temporary_ok in \<open>auto simp: add_shared_def simp del: handle_steps.simps\<close>)
qed

lemma round_shared_ok:
  assumes "shared_ok s" and "round_shared K subs s = Some s'"
  shows "shared_ok s'"
proof -
  note ok = shared_okD [OF assms(1)]
  obtain r k1 where w: "sys_waitpid K 0 WNOHANG (kern (held s)) = (r, k1)"
    by (cases "sys_waitpid K 0 WNOHANG (kern (held s))")
  let ?x = "(held s)\<lparr>kern := k1\<rparr>"
  have base: "shared_ok (s\<lparr>held := ?x\<rparr>)" using ok by (simp add: shared_ok_def)
  show ?thesis
  proof (cases "s' = s\<lparr>held := ?x\<rparr>")
    case False
    with assms(2) w obtain pid status n o' y z where n: "map_of (nodes s) pid = Some n"
      and y: "by_others K (map snd (nodes s)) (subs n) ?x = Some y" and z: "handle_steps K [Destroy n] y = Some z"
      and s': "s' = s\<lparr>held := z, nodes := filter (\<lambda>e. fst e \<noteq> pid) (nodes s), emitted := emitted s @ [o']\<rparr>"
      by (auto simp: round_shared_def Let_def bind_eq_Some_conv simp del: handle_step.simps
          split: sum.splits prod.splits if_splits option.splits)
    let ?N = "filter (\<lambda>e. fst e \<noteq> pid) (nodes s)"
    have "(pid, n) \<in> set (nodes s)" by (rule map_of_SomeD [OF n])
    then have out: "n \<notin> snd ` set ?N" using ok(4) by (fastforce simp: distinct_map inj_on_def)
    have "nodes_ok (nodes s) y" by (rule nodes_ok_others [OF y]) (use ok in auto)
    then have ny: "nodes_ok ?N y" by (auto simp: nodes_ok_def)
    have "nodes_ok ?N z" by (rule nodes_ok_steps [OF z ny]) (use out in force)
    with handle_steps_ok [OF z by_others_ok [OF y]] ok s' show ?thesis
      by (simp add: shared_ok_def distinct_map inj_on_def)
  qed (use base in simp)
qed

lemma shared_step_ok: "shared_ok s \<Longrightarrow> shared_step K subs c s = Some s' \<Longrightarrow> shared_ok s'"
proof (cases c)
  case (Program x)
  assume "shared_ok s" and "shared_step K subs c s = Some s'"
  with Program obtain y where "shared_ok s" and y: "by_others K (map snd (nodes s)) [x] (held s) = Some y"
    and "s' = s\<lparr>held := y\<rparr>" by auto
  then show ?thesis using by_others_ok [OF y] nodes_ok_others [OF y, of "nodes s"] by (simp add: shared_ok_def)
next
  case End_Observer
  assume "shared_ok s" and "shared_step K subs c s = Some s'"
  with End_Observer show ?thesis by (auto simp: end_shared_def shared_ok_def nodes_ok_def elim: handle_steps_ok)
qed (auto elim: add_shared_ok round_shared_ok)

lemma shared_init_ok: "shared_ok (shared_init k)"
  using counted_init [of k]
  by (simp add: shared_init_def shared_ok_def heap_ok_def nodes_ok_def named_def heap_init_def)

lemma shared_steps_ok: "shared_steps K subs cs s = Some s' \<Longrightarrow> shared_ok s \<Longrightarrow> shared_ok s'"
  by (induction cs arbitrary: s) (auto simp: bind_eq_Some_conv dest: shared_step_ok)

section \<open>The observer of handles as an observer of values\<close>

text \<open>What theory \<open>Death_Observer\<close> sees of the state.\<close>

definition children_of :: "(int \<times> nat) list \<Rightarrow> 'k heap \<Rightarrow> int \<rightharpoonup> ChildProcess" where
  "children_of N x p = Option.bind (map_of N p) (object_of x)"

definition view :: "'k shared \<Rightarrow> observer" where
  "view s = \<lparr>children = children_of (nodes s) (held s), died = emitted s\<rparr>"

lemma object_of_kern [simp]: "object_of (x\<lparr>kern := k\<rparr>) = object_of x"
  by (simp add: object_of_def fun_eq_iff)

lemma children_of_kern [simp]: "children_of N (x\<lparr>kern := k\<rparr>) = children_of N x"
  by (simp add: children_of_def fun_eq_iff)

lemma children_of_Cons: "object_of x n = Some c \<Longrightarrow> children_of ((p, n) # N) x = (children_of N x)(p \<mapsto> c)"
  by (simp add: children_of_def fun_eq_iff)

lemma children_of_erase: "children_of (filter (\<lambda>e. fst e \<noteq> p) N) x = (children_of N x)(p := None)"
proof -
  have "map_of (filter (\<lambda>e. fst e \<noteq> p) N) = (map_of N)(p := None)" by (induction N) auto
  then show ?thesis by (simp add: children_of_def fun_eq_iff)
qed

lemma handle_step_blocks:
  "handle_step K c s = Some s' \<Longrightarrow> blocks s' b = Some (d, n) \<Longrightarrow> b < next_block s \<Longrightarrow> \<exists>m. blocks s b = Some (d, m)"
  by (cases c) (auto simp: Let_def split: option.splits if_splits prod.splits sum.splits
      dest!: release_blocks acquire_blocks)

lemma counted_handle:
  assumes "counted {#} s" and "vars s v = Some h"
  obtains d n where "blocks s (d_ref h) = Some (d, n)" "0 < n" "d_ref h < next_block s"
proof -
  have "referred (vars s) (d_ref h) \<noteq> {}" using assms(2) by (auto simp: referred_def)
  with counted_block [OF assms(1), of "d_ref h"] obtain d n where "blocks s (d_ref h) = Some (d, n)" by auto
  with countedD(3,5) [OF assms(1)] that show ?thesis by (metis option.distinct(1) not_le)
qed

lemma handle_step_object:
  assumes "counted {#} s" and "handle_step K c s = Some s'" and "vars s v = Some h" and "v \<notin> overwrites c"
  shows "object_of s' v = object_of s v"
proof -
  have v': "vars s' v = Some h" by (rule handle_step_keeps [OF assms(2-4)])
  from assms(1,3) obtain d n where b: "blocks s (d_ref h) = Some (d, n)" "d_ref h < next_block s"
    by (rule counted_handle)
  from handle_step_counted [OF assms(1,2)] v' obtain d' n' where b': "blocks s' (d_ref h) = Some (d', n')"
    by (rule counted_handle)
  from handle_step_blocks [OF assms(2) b' b(2)] b have "d' = d" by simp
  with b b' v' assms(3) show ?thesis by (simp add: object_of_def)
qed

lemma handle_steps_object:
  "handle_steps K cs s = Some s' \<Longrightarrow> heap_ok s \<Longrightarrow> vars s v = Some h \<Longrightarrow> \<forall>c \<in> set cs. v \<notin> overwrites c \<Longrightarrow>
   object_of s' v = object_of s v"
proof (induction cs arbitrary: s)
  case (Cons c cs)
  then obtain x where x: "handle_step K c s = Some x" and xs: "handle_steps K cs x = Some s'"
    by (auto simp: bind_eq_Some_conv)
  then have "handle_steps K [c] s = Some x" by simp
  with Cons.prems(2) have "heap_ok x" by (rule handle_steps_ok [rotated])
  moreover have "vars x v = Some h" using handle_step_keeps [OF x] Cons.prems by simp
  ultimately have "object_of s' v = object_of x v" using Cons.IH [OF xs] Cons.prems by simp
  moreover have "object_of x v = object_of s v"
    using handle_step_object [OF _ x] Cons.prems by (simp add: heap_ok_def)
  ultimately show ?case by simp
qed simp

lemma children_of_steps:
  assumes "handle_steps K cs x = Some y" and "heap_ok x" and "nodes_ok N x"
    and "\<forall>c \<in> set cs. \<forall>n \<in> snd ` set N. n \<notin> overwrites c"
  shows "children_of N y = children_of N x"
proof
  fix p
  show "children_of N y p = children_of N x p"
  proof (cases "map_of N p")
    case (Some n)
    then have e: "(p, n) \<in> set N" by (rule map_of_SomeD)
    with assms(3) obtain h where "vars x n = Some h" by (auto simp: nodes_ok_def)
    with handle_steps_object [OF assms(1,2) this] assms(4) e Some show ?thesis
      by (force simp: children_of_def)
  qed (simp add: children_of_def)
qed

lemma children_of_others:
  "by_others K own cs x = Some y \<Longrightarrow> heap_ok x \<Longrightarrow> nodes_ok N x \<Longrightarrow> snd ` set N \<subseteq> set own \<Longrightarrow>
   children_of N y = children_of N x"
  by (auto simp: by_others_def list_all_iff split: if_splits elim!: children_of_steps)

text \<open>Destroying a handle while another one refers to the same object does nothing else.\<close>

lemma destroy_shared:
  assumes "heap_ok x" and "vars x l = Some h" and "vars x v = Some h'" and "d_ref h' = d_ref h" and "v \<noteq> l"
    and "handle_step K (Destroy l) x = Some y"
  shows "kern y = kern x \<and> destroyed y = destroyed x"
proof -
  have c: "counted {#} x" using assms(1) by (simp add: heap_ok_def)
  then obtain d n where b: "blocks x (d_ref h) = Some (d, n)" using assms(2) by (rule counted_handle)
  have "{l, v} \<subseteq> referred (vars x) (d_ref h)" using assms by (auto simp: referred_def)
  moreover have "finite (referred (vars x) (d_ref h))" using countedD(1) [OF c] by (rule finite_referred)
  ultimately have "card {l, v} \<le> n" using countedD(3) [OF c b] by (metis card_mono count_empty add.right_neutral)
  then have "1 < n" using assms(5) by simp
  with assms(2,6) b show ?thesis by (auto simp: release_def)
qed

lemma object_of_var:
  assumes "heap_ok x" and "vars x v = Some h"
  obtains d where "object_of x v = Some \<lparr>sig_pid = sig_pid h, proc_pid = proc_pid h, child_d = d\<rparr>"
proof -
  have "counted {#} x" using assms(1) by (simp add: heap_ok_def)
  then obtain d n where "blocks x (d_ref h) = Some (d, n)" using assms(2) by (rule counted_handle)
  with assms(2) that show ?thesis by (simp add: object_of_def)
qed

lemma children_of_None_iff:
  assumes "shared_ok s"
  shows "children_of (nodes s) (held s) p = None \<longleftrightarrow> map_of (nodes s) p = None"
proof (cases "map_of (nodes s) p")
  case (Some n)
  then have "(p, n) \<in> set (nodes s)" by (rule map_of_SomeD)
  with shared_okD(2) [OF assms] obtain h where "vars (held s) n = Some h" by (auto simp: nodes_ok_def)
  with shared_okD(1) [OF assms] obtain c where "object_of (held s) n = Some c" by (metis object_of_var)
  with Some show ?thesis by (simp add: children_of_def)
qed (simp add: children_of_def)

lemma copy_effect:
  assumes "heap_ok x" and "vars x v = Some h" and "handle_step K (Copy v w) x = Some y"
  shows "kern y = kern x" and "vars y = (vars x)(w \<mapsto> h)" and "vars x w = None" and "v \<noteq> w"
    and "heap_ok y" and "object_of y v = object_of x v" and "object_of y w = object_of x v"
proof -
  have y: "vars y = (vars x)(w \<mapsto> h) \<and> kern y = kern x \<and> vars x w = None \<and> v \<noteq> w"
    using assms(2,3) by (auto simp: acquire_def split: if_splits option.splits)
  then show "kern y = kern x" "vars y = (vars x)(w \<mapsto> h)" "vars x w = None" "v \<noteq> w" by simp_all
  show "heap_ok y" by (rule handle_steps_ok [of K "[Copy v w]"]) (use assms in simp_all)
  show "object_of y v = object_of x v"
    using handle_step_object [OF _ assms(3,2)] assms(1) by (simp add: heap_ok_def)
  with y assms(2) show "object_of y w = object_of x v" by (simp add: object_of_def)
qed

lemma add_known_refines:
  assumes "shared_ok s" and h: "vars (held s) v = Some h"
    and x: "handle_steps K [Copy v l, Destroy l] (held s) = Some x"
  shows "view (s\<lparr>held := x\<rparr>) = view s \<and> kern x = kern (held s)"
proof -
  note ok = shared_okD [OF assms(1)]
  from x obtain y where y: "handle_step K (Copy v l) (held s) = Some y" and z: "handle_step K (Destroy l) y = Some x"
    by (auto simp: bind_eq_Some_conv simp del: handle_step.simps)
  note c = copy_effect [OF ok(1) h y]
  have "kern x = kern y" using destroy_shared [OF c(5) _ _ refl _ z, of h v] c h by simp
  moreover have "children_of (nodes s) x = children_of (nodes s) (held s)"
    by (rule children_of_steps [OF x ok(1,2)]) (use nodes_ok_fresh [OF ok(2) c(3)] in auto)
  ultimately show ?thesis using c(1) by (simp add: view_def)
qed

lemma add_insert_objects:
  assumes "shared_ok s" and h: "vars (held s) v = Some h"
    and x: "handle_steps K [Copy v l, Copy l n] (held s) = Some x"
  shows "children_of (nodes s) x = children_of (nodes s) (held s)" and "kern x = kern (held s)"
    and "object_of x l = object_of (held s) v" and "object_of x n = object_of (held s) v" and "vars x l = Some h"
proof -
  note ok = shared_okD [OF assms(1)]
  from x obtain y where y: "handle_step K (Copy v l) (held s) = Some y" and yx: "handle_step K (Copy l n) y = Some x"
    by (auto simp: bind_eq_Some_conv simp del: handle_step.simps)
  note c1 = copy_effect [OF ok(1) h y]
  have "vars y l = Some h" using c1 by simp
  note c2 = copy_effect [OF c1(5) this yx]
  show "children_of (nodes s) x = children_of (nodes s) (held s)" by (rule children_of_steps [OF x ok(1,2)]) auto
  show "kern x = kern (held s)" "object_of x l = object_of (held s) v" "object_of x n = object_of (held s) v"
    "vars x l = Some h" using c1 c2 by simp_all
qed

text \<open>The end of \<open>add\<close> for a child that lives, and for one that does not.\<close>

lemma add_alive_view:
  assumes "shared_ok s" and h: "vars (held s) v = Some h" and ob: "object_of (held s) v = Some c"
    and x: "handle_steps K [Copy v l, Copy l n] (held s) = Some x"
    and z: "handle_step K (Destroy l) (x\<lparr>kern := k1\<rparr>) = Some z"
  shows "children_of ((p, n) # nodes s) z = (children_of (nodes s) (held s))(p \<mapsto> c)" and "kern z = k1"
proof -
  note i = add_insert [OF assms(1) h x]
  note o = add_insert_objects [OF assms(1) h x]
  show "kern z = k1" using destroy_shared [OF _ _ _ refl _ z, of h n] o i by simp
  have nx: "nodes_ok ((proc_pid h, n) # nodes s) (x\<lparr>kern := k1\<rparr>)" using i by (simp add: nodes_ok_def)
  have "children_of (nodes s) z = children_of (nodes s) (x\<lparr>kern := k1\<rparr>)"
    by (rule children_of_steps [of K "[Destroy l]"]) (use z i in \<open>auto simp del: handle_step.simps\<close>)
  moreover have "object_of z n = object_of x n"
    using handle_step_object [OF _ z, of n h] i by (simp add: heap_ok_def counted_def)
  ultimately show "children_of ((p, n) # nodes s) z = (children_of (nodes s) (held s))(p \<mapsto> c)"
    using o ob by (simp add: children_of_Cons)
qed

lemma add_dead_view:
  assumes "shared_ok s" and h: "vars (held s) v = Some h"
    and x: "handle_steps K [Copy v l, Copy l n] (held s) = Some x"
    and y: "by_others K (l # n # map snd (nodes s)) cs (x\<lparr>kern := k1\<rparr>) = Some y"
    and z: "handle_steps K [Destroy n, Destroy l] y = Some z"
  shows "children_of (nodes s) z = children_of (nodes s) (held s)"
proof -
  note i = add_insert [OF assms(1) h x]
  have yok: "heap_ok y" "nodes_ok (nodes s) y"
    using by_others_ok [OF y] nodes_ok_others [OF y, of "nodes s"] i by auto
  have "children_of (nodes s) z = children_of (nodes s) y" by (rule children_of_steps [OF z yok]) (use i in auto)
  moreover have "children_of (nodes s) y = children_of (nodes s) x"
    using children_of_others [OF y, of "nodes s"] i by auto
  ultimately show ?thesis using add_insert_objects(1) [OF assms(1) h x] by simp
qed

text \<open>\<open>add\<close> with its copies is \<open>add\<close> on values: the copies that come and go destroy nothing.\<close>

lemma add_shared_refines:
  assumes "shared_ok s" and "add_shared K subs v l n s = Some (b, s')"
  shows "\<exists>c react. object_of (held s) v = Some c \<and> add K react c (view s) (kern (held s)) = (b, view s', kern (held s'))"
proof -
  note ok = shared_okD [OF assms(1)]
  from assms(2) obtain h where h: "vars (held s) v = Some h" by (auto simp: add_shared_def split: option.splits)
  let ?p = "proc_pid h"
  from ok(1) h obtain d where ob: "object_of (held s) v = Some \<lparr>sig_pid = sig_pid h, proc_pid = ?p, child_d = d\<rparr>"
    (is "_ = Some ?c") by (rule object_of_var)
  have pid: "Process_pid ?c = ?p" by (simp add: Process_pid_def)
  note dom = children_of_None_iff [OF assms(1), of ?p]
  consider "?p = - 1" | "?p \<noteq> - 1" "map_of (nodes s) ?p \<noteq> None" | "?p \<noteq> - 1" "map_of (nodes s) ?p = None" by blast
  then have "\<exists>react. add K react ?c (view s) (kern (held s)) = (b, view s', kern (held s'))"
  proof cases
    case 1
    with assms(2) h pid show ?thesis by (simp add: add_shared_def add_def)
  next
    case 2
    with assms(2) h obtain x where x: "handle_steps K [Copy v l, Destroy l] (held s) = Some x"
      and s': "b = False" "s' = s\<lparr>held := x\<rparr>" by (auto simp: add_shared_def simp del: handle_steps.simps)
    from add_known_refines [OF assms(1) h x] s' 2 dom pid show ?thesis by (simp add: add_def view_def)
  next
    case 3
    with assms(2) h obtain x where x: "handle_steps K [Copy v l, Copy l n] (held s) = Some x"
      by (auto simp: add_shared_def bind_eq_Some_conv simp del: handle_steps.simps)
    note o = add_insert_objects [OF assms(1) h x]
    obtain r k1 where w: "sys_waitpid K ?p WNOHANG (kern x) = (r, k1)" by (cases "sys_waitpid K ?p WNOHANG (kern x)")
    show ?thesis
    proof (cases "case r of Inl _ \<Rightarrow> True | Inr (result, _) \<Rightarrow> result \<noteq> 0")
      case True
      with 3 assms(2) h x w o ob obtain y z where y: "by_others K (l # n # map snd (nodes s)) (subs l) (x\<lparr>kern := k1\<rparr>) = Some y"
        and z: "handle_steps K [Destroy n, Destroy l] y = Some z"
        and s': "b = False" "s' = s\<lparr>held := z, emitted := emitted s @ [?c]\<rparr>"
        by (auto simp: add_shared_def bind_eq_Some_conv simp del: handle_steps.simps)
      from add_dead_view [OF assms(1) h x y z] s' have "view s' = view s\<lparr>died := died (view s) @ [?c]\<rparr>"
        by (simp add: view_def)
      with True w s' o 3 dom pid show ?thesis
        by (intro exI [of _ "\<lambda>_ _. kern z"]) (simp add: add_def view_def fun_upd_idem)
    next
      case False
      with 3 assms(2) h x w obtain z where z: "handle_step K (Destroy l) (x\<lparr>kern := k1\<rparr>) = Some z"
        and s': "b = True" "s' = s\<lparr>held := z, nodes := (?p, n) # nodes s\<rparr>"
        by (auto simp: add_shared_def bind_eq_Some_conv simp del: handle_step.simps)
      from add_alive_view [OF assms(1) h ob x z] False w s' o 3 dom pid show ?thesis by (simp add: add_def view_def)
    qed
  qed
  with ob show ?thesis by blast
qed

lemma round_shared_refines:
  assumes "shared_ok s" and "round_shared K subs s = Some s'"
    and w: "sys_waitpid K 0 WNOHANG (kern (held s)) = (Inr (pid, status), k1)" and "pid \<noteq> 0"
  shows "\<exists>react. reap react pid status (view s) k1 = (view s', kern (held s'))"
proof (cases "map_of (nodes s) pid = None \<or> \<not> (WIFSIGNALED status \<or> WIFEXITED status)")
  case True
  with assms children_of_None_iff [OF assms(1), of pid] show ?thesis
    by (auto simp: round_shared_def reap_def view_def split: option.splits)
next
  case False
  let ?x = "(held s)\<lparr>kern := k1\<rparr>" and ?N = "filter (\<lambda>e. fst e \<noteq> pid) (nodes s)"
  note ok = shared_okD [OF assms(1)]
  from False assms obtain n c y z where n: "map_of (nodes s) pid = Some n" and c: "object_of (held s) n = Some c"
    and y: "by_others K (map snd (nodes s)) (subs n) ?x = Some y" and z: "handle_steps K [Destroy n] y = Some z"
    and s': "s' = s\<lparr>held := z, nodes := ?N, emitted := emitted s @ [c]\<rparr>"
    by (auto simp: round_shared_def bind_eq_Some_conv simp del: handle_step.simps split: option.splits)
  have yok: "heap_ok y" "nodes_ok (nodes s) y"
    using by_others_ok [OF y] nodes_ok_others [OF y, of "nodes s"] ok by auto
  have "n \<notin> snd ` set ?N" using map_of_SomeD [OF n] ok(4) by (fastforce simp: distinct_map inj_on_def)
  moreover have "nodes_ok ?N y" using yok(2) by (auto simp: nodes_ok_def)
  ultimately have "children_of ?N z = children_of ?N y"
    by (intro children_of_steps [OF z yok(1)]) force+
  moreover have "children_of (nodes s) y = children_of (nodes s) (held s)"
    using children_of_others [OF y, of "nodes s"] ok by auto
  ultimately have "children_of ?N z = (children_of (nodes s) (held s))(pid := None)" by (simp add: children_of_erase)
  moreover have "children_of (nodes s) (held s) pid = Some c" using n c by (simp add: children_of_def)
  ultimately show ?thesis
    using False s' by (intro exI [of _ "\<lambda>_ _. kern z"]) (simp add: reap_def view_def)
qed

text \<open>A program that forks a child, has it observed and drops its own handle.\<close>

definition observed_ops :: "ref_kernel shared_op list" where
  "observed_ops = [Program (Construct 0 101 closed_pipe closed_pipe closed_pipe), Add 0 1 2, Program (Destroy 0)]"

definition with_child :: ref_kernel where
  "with_child = (ref_boot 8)\<lparr>rk_children := [(101, 100, Alive)]\<rparr>"

lemma observed_run_shape:
  "map_option (\<lambda>s. (nodes s, vars (held s) 0 = None)) (shared_steps ref_api (\<lambda>_. []) observed_ops (shared_init with_child)) =
     Some ([(101, 2)], True)"
  by code_simp

definition child_dies :: "ref_kernel \<Rightarrow> ref_kernel" where
  "child_dies k = k\<lparr>rk_children := [(101, 100, Zombie (Ev_Exited 0))]\<rparr>"

lemma dying_run_shape:
  obtains s h d c where
    "shared_steps ref_api (\<lambda>_. []) (observed_ops @ [Program (Other child_dies)]) (shared_init with_child) = Some s"
    "nodes s = [(101, 2)]" "vars (held s) 2 = Some h" "referred (vars (held s)) (d_ref h) = {2}"
    "blocks (held s) (d_ref h) = Some (d, c)" "original_parent_pid d = 100"
    "pipes_stdin d = closed_pipe" "pipes_stdout d = closed_pipe" "pipes_stderr d = closed_pipe"
    "kern (held s) = with_child\<lparr>rk_children := [(101, 100, Zombie (Ev_Exited 0))]\<rparr>"
proof -
  let ?d = "\<lparr>pipes_stdin = closed_pipe, pipes_stdout = closed_pipe, pipes_stderr = closed_pipe,
    serr = read_fd closed_pipe, sin = write_fd closed_pipe, sout = read_fd closed_pipe,
    original_parent_pid = 100, original_child_pid = 101\<rparr>"
  let ?h = "\<lparr>sig_pid = 101, proc_pid = 101, d_ref = 0\<rparr>"
  let ?s = "\<lparr>held = \<lparr>blocks = [0 \<mapsto> (?d, 1)], next_block = 1, vars = [2 \<mapsto> ?h], destroyed = [],
      kern = child_dies with_child\<rparr>, nodes = [(101, 2)], emitted = []\<rparr>"
  have "shared_steps ref_api (\<lambda>_. []) (observed_ops @ [Program (Other child_dies)]) (shared_init with_child) = Some ?s"
    by (simp add: observed_ops_def shared_init_def heap_init_def ChildProcess_ctor_def Private_ctor_def Process.defs
        ChildProcess.defs acquire_def release_def Signalable_ctor_def Signalable.defs by_others_def add_shared_def
        Process_ctor_def fun_upd_def fun_eq_iff with_child_def ref_boot_def rk_waitpid_def rk_dead_list_def rk_dead_of_def
        rk_waitable_def rk_addressed_def WNOHANG_def)
  then show ?thesis by (rule that [of ?s ?h ?d 1]) (simp_all add: child_dies_def referred_def)
qed

section \<open>Properties\<close>

text \<open>
  C16: observing a child keeps it. Whatever the program and the subscribers do with their own
  handles, as long as a child is in the map its \<open>Private\<close> object lives, with at least one
  reference, and so no destructor has killed it; the node's handle and the object name that child.
\<close>

theorem observed_child_kept:
  assumes "shared_steps K subs cs (shared_init k) = Some s" and "(p, n) \<in> set (nodes s)"
  shows "\<exists>h d c. vars (held s) n = Some h \<and> proc_pid h = p \<and> blocks (held s) (d_ref h) = Some (d, c) \<and> 0 < c \<and>
    original_child_pid d = p \<and> d_ref h \<notin> set (destroyed (held s))"
proof -
  note ok = shared_okD [OF shared_steps_ok [OF assms(1) shared_init_ok]]
  have c: "counted {#} (held s)" and nm: "named (held s)" using ok(1) by (simp_all add: heap_ok_def)
  from ok(2) assms(2) obtain h where h: "vars (held s) n = Some h" "proc_pid h = p" by (auto simp: nodes_ok_def)
  then have "referred (vars (held s)) (d_ref h) \<noteq> {}" by (auto simp: referred_def)
  then obtain d m where b: "blocks (held s) (d_ref h) = Some (d, m)"
    using counted_block [OF c, of "d_ref h"] by auto
  with countedD(3,6) [OF c] have "0 < m" and "d_ref h \<notin> set (destroyed (held s))" by auto
  moreover have "original_child_pid d = p" using nm h b unfolding named_def by metis
  ultimately show ?thesis using h b by blast
qed

theorem observed_child_kept_witness:
  "\<exists>s h d c. shared_steps ref_api (\<lambda>_. []) observed_ops (shared_init with_child) = Some s \<and> nodes s = [(101, 2)] \<and>
     vars (held s) 0 = None \<and> vars (held s) 2 = Some h \<and> blocks (held s) (d_ref h) = Some (d, c) \<and> original_child_pid d = 101"
proof -
  obtain s where s: "shared_steps ref_api (\<lambda>_. []) observed_ops (shared_init with_child) = Some s"
    and n: "nodes s = [(101, 2)]" and v: "vars (held s) 0 = None"
    using observed_run_shape by auto
  from observed_child_kept [OF s, of 101 2] n v s show ?thesis by auto
qed

text \<open>
  C35: the observer kills who has been reaped. When the handler has reaped an observed child whose
  only handle is the one in the map, erasing the node runs the destructor, which sends \<open>SIGKILL\<close> to
  the number the child had, after waitpid has given that number back; when there are other
  handles, nothing is sent. In both cases the death is reported and the node is gone.
\<close>

theorem observer_kills_after_reaping:
  assumes "shared_steps K subs cs (shared_init k) = Some s" and "(p, n) \<in> set (nodes s)" and "0 < p"
    and h: "vars (held s) n = Some h" and b: "blocks (held s) (d_ref h) = Some (d, c)"
    and w: "sys_waitpid K 0 WNOHANG (kern (held s)) = (Inr (p, status), k1)"
    and st: "WIFSIGNALED status \<or> WIFEXITED status" and quiet: "subs n = []"
  shows "\<exists>s'. round_shared K subs s = Some s' \<and> map Process_pid (emitted s') = map Process_pid (emitted s) @ [p] \<and> p \<notin> fst ` set (nodes s') \<and>
    (if referred (vars (held s)) (d_ref h) = {n}
     then destroyed (held s') = destroyed (held s) @ [d_ref h] \<and>
       kern (held s') = Pipe_dtor K (pipes_stdin d) (Pipe_dtor K (pipes_stdout d) (Pipe_dtor K (pipes_stderr d)
         (if original_parent_pid d = sys_getpid K k1 then snd (sys_kill K p SIGKILL k1) else k1)))
     else destroyed (held s') = destroyed (held s) \<and> kern (held s') = k1)"
proof -
  note ok = shared_okD [OF shared_steps_ok [OF assms(1) shared_init_ok]]
  have c: "counted {#} (held s)" and nm: "named (held s)" using ok(1) by (simp_all add: heap_ok_def)
  let ?x = "(held s)\<lparr>kern := k1\<rparr>"
  let ?z = "release K (d_ref h) (?x\<lparr>vars := (vars (held s))(n := None)\<rparr>)"
  have "map_of (nodes s) p = Some n" using assms(2) ok(3) by simp
  then have r: "round_shared K subs s =
      Some (s\<lparr>held := ?z, nodes := filter (\<lambda>e. fst e \<noteq> p) (nodes s), emitted := emitted s @ [\<lparr>sig_pid = sig_pid h, proc_pid = proc_pid h, child_d = d\<rparr>]\<rparr>)"
    using w st quiet h b \<open>0 < p\<close> by (auto simp: round_shared_def by_others_def object_of_def)
  from h ok(2) assms(2) have hp: "proc_pid h = p" by (auto simp: nodes_ok_def)
  with nm h b have pid: "original_child_pid d = p" unfolding named_def by metis
  have n: "n \<in> referred (vars (held s)) (d_ref h)" using h by (simp add: referred_def)
  have "c = card (referred (vars (held s)) (d_ref h))" using countedD(3) [OF c b] by simp
  moreover have "finite (referred (vars (held s)) (d_ref h))" using countedD(1) [OF c] by (rule finite_referred)
  ultimately have one: "c = 1 \<longleftrightarrow> referred (vars (held s)) (d_ref h) = {n}"
    using n by (auto simp: card_1_singleton_iff)
  have "0 < c" using countedD(3) [OF c b] by simp
  then have "c - 1 = 0 \<longleftrightarrow> referred (vars (held s)) (d_ref h) = {n}" using one by auto
  with r b pid hp \<open>0 < p\<close> show ?thesis by (auto simp: Process_pid_def release_def Private_dtor_def Let_def)
qed

theorem observer_kills_after_reaping_witness:
  "\<exists>s s' k1. shared_steps ref_api (\<lambda>_. []) (observed_ops @ [Program (Other child_dies)]) (shared_init with_child) = Some s \<and>
     k1 = snd (sys_waitpid ref_api 0 WNOHANG (kern (held s))) \<and> rk_children k1 = [] \<and>
     round_shared ref_api (\<lambda>_. []) s = Some s' \<and> kern (held s') = snd (sys_kill ref_api 101 SIGKILL k1)"
proof -
  obtain s h d c where s: "shared_steps ref_api (\<lambda>_. []) (observed_ops @ [Program (Other child_dies)]) (shared_init with_child) = Some s"
    and n: "nodes s = [(101, 2)]" and v: "vars (held s) 2 = Some h" "referred (vars (held s)) (d_ref h) = {2}"
    and b: "blocks (held s) (d_ref h) = Some (d, c)" and d: "original_parent_pid d = 100"
      "pipes_stdin d = closed_pipe" "pipes_stdout d = closed_pipe" "pipes_stderr d = closed_pipe"
    and k: "kern (held s) = with_child\<lparr>rk_children := [(101, 100, Zombie (Ev_Exited 0))]\<rparr>"
    by (rule dying_run_shape)
  let ?k1 = "with_child\<lparr>rk_children := []\<rparr>"
  have w: "sys_waitpid ref_api 0 WNOHANG (kern (held s)) = (Inr (101, encode_status (Ev_Exited 0)), ?k1)"
    unfolding k by (simp add: with_child_def ref_boot_def rk_waitpid_def rk_dead_list_def rk_dead_of_def rk_waitable_def
        rk_addressed_def WNOHANG_def)
  have "WIFEXITED (encode_status (Ev_Exited 0))" by code_simp
  then obtain s' where "round_shared ref_api (\<lambda>_. []) s = Some s'"
    "kern (held s') = snd (sys_kill ref_api 101 SIGKILL ?k1)"
    using observer_kills_after_reaping [OF s, of 101 2 h d c "encode_status (Ev_Exited 0)" ?k1] n v b w d
    by (auto simp: with_child_def ref_boot_def)
  with s w show ?thesis by (intro exI [of _ s] exI [of _ s'] exI [of _ ?k1]) simp
qed

text \<open>
  C15: the observer with its shared handles implements the observer of values. In every state
  reached, \<open>add\<close> with the copies it makes and drops, and a round of the handler that erases a node,
  do to the observed children and the reports what \<open>add\<close> and \<open>reap\<close> do when a handle is a value;
  the kernel sees no destructor but in the moment of a report, where subscribers may also act.
\<close>

theorem observer_handles_refine:
  assumes "shared_steps K subs cs (shared_init k) = Some s"
  shows "(add_shared K subs v l n s = Some (b, s') \<longrightarrow>
      (\<exists>c react. object_of (held s) v = Some c \<and> add K react c (view s) (kern (held s)) = (b, view s', kern (held s')))) \<and>
    (round_shared K subs s = Some s' \<and> sys_waitpid K 0 WNOHANG (kern (held s)) = (Inr (pid, status), k1) \<and> pid \<noteq> 0 \<longrightarrow>
      (\<exists>react. reap react pid status (view s) k1 = (view s', kern (held s'))))"
proof -
  have ok: "shared_ok s" by (rule shared_steps_ok [OF assms shared_init_ok])
  from add_shared_refines [OF ok, of K subs v l n b s'] round_shared_refines [OF ok, of K subs s' pid status k1]
  show ?thesis by (intro conjI impI) (assumption | elim conjE | simp)+
qed

theorem observer_handles_refine_witness:
  "\<exists>s s' c react. shared_steps ref_api (\<lambda>_. []) [Program (Construct 0 101 closed_pipe closed_pipe closed_pipe)]
       (shared_init with_child) = Some s \<and> add_shared ref_api (\<lambda>_. []) 0 1 2 s = Some (True, s') \<and>
     add ref_api react c (view s) (kern (held s)) = (True, view s', kern (held s')) \<and> has (view s') c"
proof -
  let ?run = "shared_steps ref_api (\<lambda>_. []) [Program (Construct 0 101 closed_pipe closed_pipe closed_pipe)] (shared_init with_child)"
  have "map_option fst (Option.bind ?run (add_shared ref_api (\<lambda>_. []) 0 1 2)) = Some True" by code_simp
  then obtain s s' where s: "?run = Some s" and a: "add_shared ref_api (\<lambda>_. []) 0 1 2 s = Some (True, s')"
    by (auto simp: bind_eq_Some_conv simp del: shared_steps.simps)
  from conjunct1 [OF observer_handles_refine [OF s], THEN mp, OF a] obtain c react where
    "add ref_api react c (view s) (kern (held s)) = (True, view s', kern (held s'))" by blast
  moreover from this have "has (view s') c"
    by (auto simp: add_def has_def Let_def split: if_splits prod.splits dest!: arg_cong [of _ _ children])
      (metis fun_upd_same)
  ultimately show ?thesis using s a by blast
qed

end
