(* ===== verification/Trap_System.thy ===== *)
theory Trap_System
  imports Signal_Trap Transition_Systems
begin

text \<open>
  A signal trap at work (\<open>signal.cpp\<close>): signals that arrive while they are blocked, calls of
  \<open>stop\<close> from any thread and the turns of the loop of \<open>run\<close>, interleaved. The kernel's side is
  signalfd(2) and eventfd(2): a standard signal is pending or not, a read takes as many pending
  signals as the buffer holds, in an order the kernel chooses; a write adds to a 64-bit counter,
  a read takes it to 0. A turn (poll, read, relay, read) is one step: what happens during it to
  the pending signals and to the counter has the effect it would have before or after.
\<close>

section \<open>The system\<close>

datatype trap_event = Arrived "32 word" | Relayed Signal

record trap_sys =
  ts_trap :: SignalTrap
  ts_buffer :: "32 word list"
  ts_pending :: "32 word set"
  ts_counter :: "64 word"
  ts_history :: "trap_event list"

definition trapped :: "SignalTrap \<Rightarrow> 32 word \<Rightarrow> bool" where
  "trapped t n \<longleftrightarrow> sigismember (blocked_signals_mask t) (sint n) = 1"

text \<open>The eventfd does not block: a write that would make the counter overflow fails.\<close>

definition eventfd_write :: "64 word \<Rightarrow> (errno + int) \<times> 64 word" where
  "eventfd_write c = (if c \<ge> - 2 then (Inl EAGAIN, c) else (Inr 8, c + 1))"

text \<open>\<open>err\<close> is the value errno has before the call; a write that succeeds leaves it.\<close>

definition stop_call :: "errno \<Rightarrow> 64 word \<Rightarrow> (exn + unit) \<times> 64 word" where
  "stop_call err c =
     (case eventfd_write c of
        (Inl errno, c') \<Rightarrow> (trap_stop (- 1) errno, c')
      | (Inr written, c') \<Rightarrow> (trap_stop written err, c'))"

text \<open>One turn of the loop; \<open>ns\<close> are the signals the kernel hands out.\<close>

inductive turn :: "trap_sys \<Rightarrow> trap_sys \<Rightarrow> bool" where
  turn: "state (ts_trap s) = running \<Longrightarrow> ts_pending s \<noteq> {} \<or> 0 < ts_counter s \<Longrightarrow>
    distinct ns \<Longrightarrow> set ns \<subseteq> ts_pending s \<Longrightarrow>
    length ns = min signal_info_buffer_size (card (ts_pending s)) \<Longrightarrow>
    run_loop (ts_trap s) (ts_buffer s)
      [Poll_Ready (if ts_pending s = {} then None else Some (Read_Infos ns)) (0 < ts_counter s)] = (raised, e) \<Longrightarrow>
    turn s (s\<lparr>ts_trap := (if e = Run_Stopped then (ts_trap s)\<lparr>state := not_running\<rparr> else ts_trap s),
      ts_buffer := ns @ drop (length ns) (ts_buffer s),
      ts_pending := ts_pending s - set ns,
      ts_counter := 0,
      ts_history := ts_history s @ map Relayed raised\<rparr>)"

inductive around :: "trap_sys \<Rightarrow> trap_sys \<Rightarrow> bool" where
  arrive: "trapped (ts_trap s) n \<Longrightarrow>
    around s (s\<lparr>ts_pending := insert n (ts_pending s), ts_history := ts_history s @ [Arrived n]\<rparr>)"
| stop: "around s (s\<lparr>ts_counter := snd (stop_call err (ts_counter s))\<rparr>)"
| start: "state (ts_trap s) = not_running \<Longrightarrow> length buf = signal_info_buffer_size \<Longrightarrow>
    around s (s\<lparr>ts_trap := (ts_trap s)\<lparr>state := running\<rparr>, ts_buffer := buf\<rparr>)"

definition trap_step :: "trap_sys \<Rightarrow> trap_sys \<Rightarrow> bool" where
  "trap_step s s' \<longleftrightarrow> turn s s' \<or> around s s'"

definition trap_initial :: "SignalTrap \<Rightarrow> trap_sys \<Rightarrow> bool" where
  "trap_initial t s \<longleftrightarrow> (\<exists>buf. length buf = signal_info_buffer_size \<and> s =
     \<lparr>ts_trap = t\<lparr>state := not_running\<rparr>, ts_buffer = buf, ts_pending = {}, ts_counter = 0, ts_history = []\<rparr>)"

definition trap_reachable :: "SignalTrap \<Rightarrow> trap_sys \<Rightarrow> bool" where
  "trap_reachable t s \<longleftrightarrow> (\<exists>s0. trap_initial t s0 \<and> trap_step\<^sup>*\<^sup>* s0 s)"

section \<open>What is outstanding\<close>

text \<open>A signal is outstanding when it has arrived after it was last relayed.\<close>

fun note_event :: "32 word \<Rightarrow> trap_event \<Rightarrow> bool \<Rightarrow> bool" where
  "note_event n (Arrived m) b \<longleftrightarrow> m = n \<or> b"
| "note_event n (Relayed sig) b \<longleftrightarrow> sig \<noteq> to_signal n \<and> b"

definition outstanding :: "32 word \<Rightarrow> trap_event list \<Rightarrow> bool" where
  "outstanding n h = fold (note_event n) h False"

text \<open>A history in which a signal is relayed only when it is outstanding.\<close>

definition justified :: "SignalTrap \<Rightarrow> trap_event list \<Rightarrow> bool" where
  "justified t h \<longleftrightarrow> (\<forall>i < length h. \<forall>sig. h ! i = Relayed sig \<longrightarrow>
     (\<exists>n. trapped t n \<and> to_signal n = sig \<and> outstanding n (take i h)))"

lemma outstanding_simps [simp]:
  "\<not> outstanding n []"
  "outstanding n (h @ [Arrived m]) \<longleftrightarrow> m = n \<or> outstanding n h"
  "outstanding n (h @ [Relayed sig]) \<longleftrightarrow> sig \<noteq> to_signal n \<and> outstanding n h"
  by (simp_all add: outstanding_def)

lemma to_signal_inj [simp]: "to_signal m = to_signal n \<longleftrightarrow> m = n"
  by (auto simp: to_signal_def intro: signed_word_eqI)

lemma outstanding_relays:
  "outstanding n (h @ map Relayed (map to_signal ns)) \<longleftrightarrow> outstanding n h \<and> n \<notin> set ns"
proof (induction ns rule: rev_induct)
  case (snoc m ns)
  have "outstanding n (h @ map Relayed (map to_signal (ns @ [m]))) \<longleftrightarrow>
      outstanding n ((h @ map Relayed (map to_signal ns)) @ [Relayed (to_signal m)])" by simp
  with snoc show ?case by (auto simp del: append_assoc map_map)
qed simp

lemma justified_snoc:
  "justified t (h @ [ev]) \<longleftrightarrow> justified t h \<and>
     (\<forall>sig. ev = Relayed sig \<longrightarrow> (\<exists>n. trapped t n \<and> to_signal n = sig \<and> outstanding n h))"
  by (auto simp: justified_def nth_append less_Suc_eq)

lemma justified_relays:
  assumes "justified t h" and "distinct ns" and "\<forall>n\<in>set ns. trapped t n \<and> outstanding n h"
  shows "justified t (h @ map Relayed (map to_signal ns))"
  using assms(2,3)
proof (induction ns rule: rev_induct)
  case Nil
  with assms(1) show ?case by simp
next
  case (snoc m ns)
  then have "justified t ((h @ map Relayed (map to_signal ns)) @ [Relayed (to_signal m)])"
    by (auto simp: justified_snoc outstanding_relays simp del: append_assoc map_map)
  then show ?case by simp
qed

section \<open>The invariant\<close>

definition trap_inv :: "SignalTrap \<Rightarrow> trap_sys \<Rightarrow> bool" where
  "trap_inv t s \<longleftrightarrow> (\<exists>st. ts_trap s = t\<lparr>state := st\<rparr>) \<and>
     length (ts_buffer s) = signal_info_buffer_size \<and> finite (ts_pending s) \<and>
     (\<forall>n\<in>ts_pending s. trapped t n) \<and>
     (\<forall>n. outstanding n (ts_history s) \<longleftrightarrow> n \<in> ts_pending s) \<and> justified t (ts_history s)"

lemma trapped_state [simp]: "trapped (t\<lparr>state := st\<rparr>) = trapped t"
  by (simp add: trapped_def fun_eq_iff)

lemma trapped_has: "trapped t n \<Longrightarrow> trap_has t (to_signal n)"
  by (simp add: trapped_def trap_has_def to_signal_def)

text \<open>What a turn relays, and when it is the last.\<close>

lemma turn_outcome:
  assumes "trap_inv t s" and "set ns \<subseteq> ts_pending s"
    and "length ns = min signal_info_buffer_size (card (ts_pending s))"
    and "run_loop (ts_trap s) (ts_buffer s)
      [Poll_Ready (if ts_pending s = {} then None else Some (Read_Infos ns)) (0 < ts_counter s)] = (raised, e)"
  shows "raised = map to_signal ns" and "e = Run_Stopped \<longleftrightarrow> 0 < ts_counter s"
proof -
  let ?r = "Poll_Ready (if ts_pending s = {} then None else Some (Read_Infos ns)) (0 < ts_counter s)"
  have "benign ?r" and buf: "length (ts_buffer s) = signal_info_buffer_size"
    using assms(1,3) by (simp_all add: trap_inv_def)
  from run_loop_step [OF this, of "ts_trap s" "[]"] assms(4)
  have "raised = filter (trap_has (ts_trap s)) (map to_signal (infos_of ?r)) \<and>
      (e = Run_Stopped \<longleftrightarrow> 0 < ts_counter s)"
    by (auto simp: Let_def split: if_splits prod.splits)
  moreover have "infos_of ?r = ns" using assms(2) by auto
  moreover have "\<forall>n\<in>set ns. trap_has (ts_trap s) (to_signal n)"
    using assms(1,2) by (auto simp: trap_inv_def trapped_has)
  ultimately show "raised = map to_signal ns" and "e = Run_Stopped \<longleftrightarrow> 0 < ts_counter s"
    by (auto simp: filter_map comp_def)
qed

lemma turn_inv:
  assumes "turn s s'" and "trap_inv t s"
  shows "trap_inv t s'"
  using assms
proof (induction rule: turn.induct)
  case (turn s ns raised e)
  note out = turn_outcome [OF turn.prems turn.hyps(4-6)]
  have "length (ns @ drop (length ns) (ts_buffer s)) = signal_info_buffer_size"
    using turn by (simp add: trap_inv_def)
  moreover have "outstanding n (ts_history s @ map Relayed raised) \<longleftrightarrow> n \<in> ts_pending s - set ns" for n
    using turn.prems by (simp only: out outstanding_relays) (simp add: trap_inv_def)
  moreover have "justified t (ts_history s @ map Relayed raised)"
    unfolding out by (rule justified_relays) (use turn in \<open>auto simp: trap_inv_def\<close>)
  ultimately show ?case using turn.prems by (auto simp: trap_inv_def)
qed

lemma around_inv: "around s s' \<Longrightarrow> trap_inv t s \<Longrightarrow> trap_inv t s'"
  by (induction rule: around.induct) (auto simp: trap_inv_def justified_snoc)

interpretation trap_at_work: invariant_system "trap_initial t" trap_step "trap_inv t" for t
proof
  show "trap_inv t s" if "trap_initial t s" for s
    using that by (auto simp: trap_initial_def trap_inv_def justified_def)
  show "trap_inv t s'" if "trap_step s s'" and "trap_inv t s" for s s'
    using that turn_inv around_inv by (auto simp: trap_step_def)
qed

lemma trap_reachable_inv: "trap_reachable t s \<Longrightarrow> trap_inv t s"
  by (auto simp: trap_reachable_def dest: trap_at_work.reach_inv)

lemma by_around: "trap_reachable t s \<Longrightarrow> around s s' \<Longrightarrow> trap_reachable t s'"
  unfolding trap_reachable_def by (meson rtranclp.rtrancl_into_rtrancl trap_step_def)

section \<open>The counter\<close>

lemma stop_call_positive: "0 < snd (stop_call err c)"
proof (cases "c \<ge> - 2")
  case True
  then have "c \<noteq> 0" by auto
  with True show ?thesis by (simp add: stop_call_def eventfd_write_def word_neq_0_conv)
next
  case False
  then have "c + 1 \<noteq> 0" by (auto simp: add_eq_0_iff2)
  with False show ?thesis by (simp add: stop_call_def eventfd_write_def word_neq_0_conv)
qed

text \<open>The signals a turn can be handed.\<close>

lemma some_signals:
  assumes "finite A"
  shows "\<exists>ns. distinct ns \<and> set ns \<subseteq> A \<and> length ns = min n (card A)"
proof -
  from finite_distinct_list [OF assms] obtain xs where "set xs = A" "distinct xs" by blast
  then show ?thesis
    by (intro exI [of _ "take n xs"]) (auto simp: distinct_card [symmetric] min.commute dest: in_set_takeD)
qed

lemma turn_enabled:
  assumes "trap_inv t s" and "state (ts_trap s) = running" and "ts_pending s \<noteq> {} \<or> 0 < ts_counter s"
  shows "\<exists>s'. turn s s'"
proof -
  from assms(1) some_signals [of "ts_pending s" signal_info_buffer_size] obtain ns
    where "distinct ns" "set ns \<subseteq> ts_pending s"
      "length ns = min signal_info_buffer_size (card (ts_pending s))" by (auto simp: trap_inv_def)
  from turn [OF assms(2,3) this] show ?thesis by (meson surj_pair)
qed

lemma turn_effect:
  assumes "turn s s'" and "trap_inv t s"
  shows "state (ts_trap s') = (if 0 < ts_counter s then not_running else running) \<and>
    ts_counter s' = 0 \<and> card (ts_pending s') = card (ts_pending s) - 5"
  using assms(1)
proof cases
  case (turn ns raised e)
  have "e = Run_Stopped \<longleftrightarrow> 0 < ts_counter s" by (rule turn_outcome(2) [OF assms(2) turn(5-7)])
  moreover have "card (ts_pending s') = card (ts_pending s) - length ns"
    using turn(1,4,5) by (simp add: card_Diff_subset distinct_card)
  ultimately show ?thesis using turn(1,2,6) by (simp add: signal_info_buffer_size_def)
qed

definition chld_trap :: SignalTrap where
  "chld_trap = \<lparr>scope = Scope_process, state = not_running, event_fd = 3, old_signals_mask = 0,
     blocked_signals_mask = sigaddset 0 17\<rparr>"

definition chld_start :: trap_sys where
  "chld_start = \<lparr>ts_trap = chld_trap, ts_buffer = [0, 0, 0, 0, 0], ts_pending = {}, ts_counter = 0, ts_history = []\<rparr>"

lemma chld_start_reachable: "trap_reachable chld_trap chld_start"
  by (auto simp: trap_reachable_def trap_initial_def chld_start_def chld_trap_def signal_info_buffer_size_def
      intro!: exI [of _ "[0, 0, 0, 0, 0]"])

section \<open>Properties\<close>

text \<open>
  C18: no signal is lost and none invented. At every moment a trapped signal is outstanding, that
  is, has arrived after it was last relayed, exactly if it is still pending in the kernel, where
  the next turn of a run takes it; and a signal is relayed only if it is trapped and
  outstanding, so between two relays of a signal it has arrived anew.
\<close>

theorem trap_loses_no_signal:
  assumes "trap_reachable t s"
  shows "(\<forall>n. outstanding n (ts_history s) \<longleftrightarrow> n \<in> ts_pending s) \<and> justified t (ts_history s)"
  using trap_reachable_inv [OF assms] by (simp add: trap_inv_def)

theorem trap_loses_no_signal_witness:
  "\<exists>s. trap_reachable chld_trap s \<and> ts_history s = [Arrived 17] \<and> outstanding 17 (ts_history s) \<and> 17 \<in> ts_pending s"
proof -
  let ?s = "chld_start\<lparr>ts_pending := insert 17 (ts_pending chld_start), ts_history := ts_history chld_start @ [Arrived 17]\<rparr>"
  have "trapped (ts_trap chld_start) 17"
    by (simp add: trapped_def chld_start_def chld_trap_def sigismember_def bit_sigaddset valid_signo_def)
  from by_around [OF chld_start_reachable arrive [OF this]] have "trap_reachable chld_trap ?s" .
  with trap_loses_no_signal [OF this] show ?thesis
    by (intro exI [of _ ?s]) (simp add: chld_start_def)
qed

text \<open>
  C19: \<open>stop\<close> ends \<open>run\<close>, whenever it is called, also before \<open>run\<close>. A call of \<open>stop\<close> makes the
  counter of the eventfd positive, also when it fails because the counter is at its limit; it
  stays positive, and \<open>run\<close> stays running, under everything else that can happen until the loop
  makes a turn; that turn can be made, and it is the last. While the counter is 0, a turn can be
  made when a signal is pending, and it relays five of them or all.
\<close>

theorem trap_stop_ends_run:
  assumes "trap_reachable t s"
  shows "0 < snd (stop_call err (ts_counter s)) \<and>
    (state (ts_trap s) = running \<longrightarrow> 0 < ts_counter s \<longrightarrow>
      (\<exists>s'. turn s s') \<and>
      (\<forall>s'. turn s s' \<longrightarrow> state (ts_trap s') = not_running \<and> ts_counter s' = 0) \<and>
      (\<forall>s'. around s s' \<longrightarrow> state (ts_trap s') = running \<and> 0 < ts_counter s')) \<and>
    (state (ts_trap s) = running \<longrightarrow> ts_counter s = 0 \<longrightarrow> ts_pending s \<noteq> {} \<longrightarrow>
      (\<exists>s'. turn s s') \<and>
      (\<forall>s'. turn s s' \<longrightarrow> state (ts_trap s') = running \<and> card (ts_pending s') = card (ts_pending s) - 5))"
proof (intro conjI impI allI)
  note inv = trap_reachable_inv [OF assms]
  show "0 < snd (stop_call err (ts_counter s))" by (rule stop_call_positive)
  show "\<exists>s'. turn s s'" if "state (ts_trap s) = running" and "0 < ts_counter s"
    using turn_enabled [OF inv that(1)] that(2) by blast
  show "\<exists>s'. turn s s'" if "state (ts_trap s) = running" and "ts_pending s \<noteq> {}"
    using turn_enabled [OF inv that(1)] that(2) by blast
  show "state (ts_trap s') = not_running" "ts_counter s' = 0" if "0 < ts_counter s" and "turn s s'" for s'
    using turn_effect [OF that(2) inv] that(1) by simp_all
  show "state (ts_trap s') = running" "0 < ts_counter s'"
    if "state (ts_trap s) = running" and "0 < ts_counter s" and "around s s'" for s'
    using that(3,1,2) by (cases rule: around.cases; simp add: stop_call_positive)+
  show "state (ts_trap s') = running" "card (ts_pending s') = card (ts_pending s) - 5"
    if "ts_counter s = 0" and "turn s s'" for s'
    using turn_effect [OF that(2) inv] that(1) by simp_all
qed

theorem trap_stop_ends_run_witness:
  "\<exists>s s'. trap_reachable chld_trap s \<and> state (ts_trap s) = running \<and> turn s s' \<and> state (ts_trap s') = not_running"
proof -
  let ?a = "chld_start\<lparr>ts_counter := snd (stop_call EINTR (ts_counter chld_start))\<rparr>"
  let ?b = "?a\<lparr>ts_trap := (ts_trap ?a)\<lparr>state := running\<rparr>, ts_buffer := [0, 0, 0, 0, 0]\<rparr>"
  have "trap_reachable chld_trap ?a" by (rule by_around [OF chld_start_reachable stop])
  moreover have "around ?a ?b"
    by (rule start) (simp_all add: chld_start_def chld_trap_def signal_info_buffer_size_def)
  ultimately have r: "trap_reachable chld_trap ?b" by (rule by_around)
  have "0 < ts_counter ?b" and "state (ts_trap ?b) = running" by (simp_all add: stop_call_positive)
  with trap_stop_ends_run [OF r] r show ?thesis by blast
qed

end
