(* ===== verification/Observer_Race.thy ===== *)
theory Observer_Race
  imports Death_Observer Transition_Systems
begin

text \<open>
  The death observer under concurrency (\<open>DeathObserverImpl\<close> of \<open>child_process.cpp\<close>). The thread
  that runs the signal trap goes through the rounds of \<open>on_sig_child\<close>; other threads call \<open>add\<close>.
  Both hold \<open>guard\<close> while they use the map, but waitpid(2) is called by the handler before it
  locks, and by \<open>add\<close> between the insertion and the rest, so that a child can be reaped by
  either at any moment between. Children are born and die at any time; \<open>SIGCHLD\<close> is pending from
  a death, or a stray one, until the handler starts. In theory \<open>Death_Observer\<close> the same operations are one step
  each. All children are in the process group of the caller, and nobody else waits for them.
\<close>

section \<open>The system\<close>

datatype proc_state = Unborn | Living | Dead | Gone

datatype handler_pc = Idle | Polling | Reaped int

datatype adder_pc = Adder_Out | Inserted int | Missed int

text \<open>
  \<open>rs_entered\<close> records the insertions into the map, \<open>rs_died\<close> the reports, \<open>rs_false_report\<close>
  whether a process was reported that lives.
\<close>

record race_sys =
  rs_children :: "int set"
  rs_guard :: "nat option"
  rs_handler :: handler_pc
  rs_adder :: "nat \<Rightarrow> adder_pc"
  rs_proc :: "int \<Rightarrow> proc_state"
  rs_sigchld :: bool
  rs_entered :: "int list"
  rs_died :: "int list"
  rs_false_report :: bool

text \<open>Emit \<open>child_died\<close> and erase, in a round of the handler and in \<open>add\<close>.\<close>

definition report_death :: "int \<Rightarrow> race_sys \<Rightarrow> race_sys" where
  "report_death p s = s\<lparr>rs_died := rs_died s @ [p], rs_children := rs_children s - {p},
     rs_false_report := (rs_false_report s \<or> rs_proc s p = Living)\<rparr>"

text \<open>
  With \<open>reuse\<close> the number of a child that has been reaped may be given to a new one. \<open>add\<close> of a
  child that is in the map changes nothing and is not a step. Any answer of waitpid but 0 counts
  as a death: the child's own, and the error for a child the handler has reaped. A \<open>SIGCHLD\<close> may
  also come without a death, when a child is stopped or continued, or from anyone who sends it.
\<close>

inductive race_step :: "bool \<Rightarrow> race_sys \<Rightarrow> race_sys \<Rightarrow> bool" for reuse where
  spawn: "rs_proc s p = Unborn \<or> reuse \<and> rs_proc s p = Gone \<Longrightarrow>
    race_step reuse s (s\<lparr>rs_proc := (rs_proc s)(p := Living)\<rparr>)"
| die: "rs_proc s p = Living \<Longrightarrow>
    race_step reuse s (s\<lparr>rs_proc := (rs_proc s)(p := Dead), rs_sigchld := True\<rparr>)"
| stray: "\<not> rs_sigchld s \<Longrightarrow> race_step reuse s (s\<lparr>rs_sigchld := True\<rparr>)"
| handler_start: "rs_handler s = Idle \<Longrightarrow> rs_sigchld s \<Longrightarrow>
    race_step reuse s (s\<lparr>rs_sigchld := False, rs_handler := Polling\<rparr>)"
| handler_reap: "rs_handler s = Polling \<Longrightarrow> rs_proc s p = Dead \<Longrightarrow>
    race_step reuse s (s\<lparr>rs_proc := (rs_proc s)(p := Gone), rs_handler := Reaped p\<rparr>)"
| handler_done: "rs_handler s = Polling \<Longrightarrow> (\<And>p. rs_proc s p \<noteq> Dead) \<Longrightarrow>
    race_step reuse s (s\<lparr>rs_handler := Idle\<rparr>)"
| handler_round: "rs_handler s = Reaped p \<Longrightarrow> rs_guard s = None \<Longrightarrow>
    race_step reuse s ((if p \<in> rs_children s then report_death p s else s)\<lparr>rs_handler := Polling\<rparr>)"
| add_insert: "rs_adder s i = Adder_Out \<Longrightarrow> rs_guard s = None \<Longrightarrow> rs_proc s p \<noteq> Unborn \<Longrightarrow>
    p \<notin> rs_children s \<Longrightarrow>
    race_step reuse s (s\<lparr>rs_guard := Some i, rs_adder := (rs_adder s)(i := Inserted p),
      rs_children := insert p (rs_children s), rs_entered := rs_entered s @ [p]\<rparr>)"
| add_alive: "rs_adder s i = Inserted p \<Longrightarrow> rs_proc s p = Living \<Longrightarrow>
    race_step reuse s (s\<lparr>rs_guard := None, rs_adder := (rs_adder s)(i := Adder_Out)\<rparr>)"
| add_dead: "rs_adder s i = Inserted p \<Longrightarrow> rs_proc s p = Dead \<or> rs_proc s p = Gone \<Longrightarrow>
    race_step reuse s (s\<lparr>rs_proc := (rs_proc s)(p := Gone), rs_adder := (rs_adder s)(i := Missed p)\<rparr>)"
| add_report: "rs_adder s i = Missed p \<Longrightarrow>
    race_step reuse s ((report_death p s)\<lparr>rs_guard := None, rs_adder := (rs_adder s)(i := Adder_Out)\<rparr>)"

definition race_start :: race_sys where
  "race_start = \<lparr>rs_children = {}, rs_guard = None, rs_handler = Idle, rs_adder = (\<lambda>_. Adder_Out),
     rs_proc = (\<lambda>_. Unborn), rs_sigchld = False, rs_entered = [], rs_died = [], rs_false_report = False\<rparr>"

section \<open>The invariant\<close>

fun adder_pid :: "adder_pc \<Rightarrow> int option" where
  "adder_pid Adder_Out = None"
| "adder_pid (Inserted p) = Some p"
| "adder_pid (Missed p) = Some p"

definition adding :: "race_sys \<Rightarrow> int option" where
  "adding s = (case rs_guard s of None \<Rightarrow> None | Some i \<Rightarrow> adder_pid (rs_adder s i))"

fun inside_ok :: "int set \<Rightarrow> (int \<Rightarrow> proc_state) \<Rightarrow> adder_pc \<Rightarrow> bool" where
  "inside_ok C P Adder_Out \<longleftrightarrow> False"
| "inside_ok C P (Inserted p) \<longleftrightarrow> p \<in> C"
| "inside_ok C P (Missed p) \<longleftrightarrow> p \<in> C \<and> P p = Gone"

text \<open>The mutex: at most the thread that holds it is inside \<open>add\<close>, with a pid of the map.\<close>

definition lock_ok :: "race_sys \<Rightarrow> bool" where
  "lock_ok s \<longleftrightarrow> (\<forall>i. rs_guard s \<noteq> Some i \<longrightarrow> rs_adder s i = Adder_Out) \<and>
     (\<forall>i. rs_guard s = Some i \<longrightarrow> inside_ok (rs_children s) (rs_proc s) (rs_adder s i))"

text \<open>
  A child of the map that has been reaped is about to be reported, by the handler or by \<open>add\<close>;
  a dead child that has not been reaped has its \<open>SIGCHLD\<close> before it or the handler at work.
\<close>

definition deaths_ok :: "race_sys \<Rightarrow> bool" where
  "deaths_ok s \<longleftrightarrow>
     (\<forall>p. rs_handler s = Reaped p \<longrightarrow> rs_proc s p = Gone) \<and>
     (\<forall>p \<in> rs_children s. rs_proc s p \<noteq> Unborn \<and>
        (rs_proc s p = Gone \<longrightarrow> rs_handler s = Reaped p \<or> adding s = Some p)) \<and>
     (\<forall>p. rs_proc s p = Dead \<longrightarrow> rs_sigchld s \<or> rs_handler s \<noteq> Idle) \<and>
     \<not> rs_false_report s"

definition reports_ok :: "race_sys \<Rightarrow> bool" where
  "reports_ok s \<longleftrightarrow> (\<forall>p. count_list (rs_entered s) p = count_list (rs_died s) p + of_bool (p \<in> rs_children s))"

lemma report_death_simps [simp]:
  "rs_children (report_death p s) = rs_children s - {p}" "rs_guard (report_death p s) = rs_guard s"
  "rs_handler (report_death p s) = rs_handler s" "rs_adder (report_death p s) = rs_adder s"
  "rs_proc (report_death p s) = rs_proc s" "rs_sigchld (report_death p s) = rs_sigchld s"
  "rs_entered (report_death p s) = rs_entered s" "rs_died (report_death p s) = rs_died s @ [p]"
  "rs_false_report (report_death p s) \<longleftrightarrow> rs_false_report s \<or> rs_proc s p = Living"
  by (simp_all add: report_death_def)

lemma lock_holder:
  assumes "lock_ok s" and "rs_adder s i = Inserted p \<or> rs_adder s i = Missed p"
  shows "rs_guard s = Some i \<and> p \<in> rs_children s \<and> adding s = Some p \<and> (\<forall>j. j \<noteq> i \<longrightarrow> rs_adder s j = Adder_Out)"
proof -
  have g: "rs_guard s = Some i" using assms by (cases "rs_guard s = Some i") (auto simp: lock_ok_def)
  with assms have "p \<in> rs_children s" by (auto simp: lock_ok_def)
  moreover have "rs_adder s j = Adder_Out" if "j \<noteq> i" for j
    using assms(1) g that unfolding lock_ok_def by simp
  moreover have "adding s = adder_pid (rs_adder s i)" by (simp add: adding_def g)
  ultimately show ?thesis using assms(2) g by (elim disjE) simp_all
qed

lemma inside_ok_proc: "inside_ok C P a \<Longrightarrow> P p \<noteq> Gone \<Longrightarrow> inside_ok C (P(p := x)) a"
  by (cases a) auto

lemma lock_ok_step:
  assumes "race_step False s s'" and "lock_ok s"
  shows "lock_ok s'"
  using assms
proof (induction rule: race_step.induct)
  case (add_alive s i p)
  note lock_holder [OF add_alive.prems disjI1 [OF add_alive.hyps(1)]]
  then show ?case by (simp add: lock_ok_def)
next
  case (add_dead s i p)
  note lock_holder [OF add_dead.prems disjI1 [OF add_dead.hyps(1)]]
  then show ?case by (simp add: lock_ok_def)
next
  case (add_report s i p)
  note lock_holder [OF add_report.prems disjI2 [OF add_report.hyps]]
  then show ?case by (simp add: lock_ok_def)
qed (simp_all add: lock_ok_def inside_ok_proc)

lemma adding_frame [simp]:
  "adding (s\<lparr>rs_proc := P\<rparr>) = adding s" "adding (s\<lparr>rs_sigchld := b\<rparr>) = adding s"
  "adding (s\<lparr>rs_handler := h\<rparr>) = adding s"
  by (simp_all add: adding_def cong: option.case_cong)

lemma deaths_okD:
  assumes "deaths_ok s" and "q \<in> rs_children s"
  shows "rs_proc s q \<noteq> Unborn" and "rs_proc s q = Gone \<Longrightarrow> rs_handler s = Reaped q \<or> adding s = Some q"
  using assms unfolding deaths_ok_def by blast+

text \<open>Steps that change the map or the one who holds it, but no process.\<close>

lemma deaths_ok_transfer:
  assumes "deaths_ok s" and "rs_proc s' = rs_proc s" and "rs_sigchld s' = rs_sigchld s"
    and "rs_false_report s' = rs_false_report s"
    and "rs_handler s' = rs_handler s \<or> rs_handler s' = Polling"
    and "\<And>q. q \<in> rs_children s' \<Longrightarrow> rs_proc s q \<noteq> Unborn \<and>
      (rs_proc s q = Gone \<longrightarrow> rs_handler s' = Reaped q \<or> adding s' = Some q)"
  shows "deaths_ok s'"
proof -
  have "rs_handler s' = Reaped p \<longrightarrow> rs_handler s = Reaped p" for p using assms(5) by auto
  moreover have "rs_handler s \<noteq> Idle \<longrightarrow> rs_handler s' \<noteq> Idle" using assms(5) by auto
  ultimately show ?thesis using assms(1,6) unfolding deaths_ok_def assms(2,3,4) by blast
qed

lemma deaths_ok_step:
  assumes "race_step False s s'" and "lock_ok s" and "deaths_ok s"
  shows "deaths_ok s'"
  using assms
proof (induction rule: race_step.induct)
  case (handler_round s p)
  note D = deaths_okD [OF handler_round.prems(2)]
  have none: "adding s = None" using handler_round.hyps(2) by (simp add: adding_def)
  have gone: "rs_proc s p = Gone" using handler_round.hyps(1) handler_round.prems(2) unfolding deaths_ok_def by blast
  have "rs_proc s q \<noteq> Gone" if "q \<in> rs_children s" "q \<noteq> p" for q
    using D(2) [of q] none handler_round.hyps(1) that by auto
  with D(1) gone show ?case
    by (intro deaths_ok_transfer [OF handler_round.prems(2)]) (auto split: if_splits)
next
  case (add_insert s i p)
  note D = deaths_okD [OF add_insert.prems(2)]
  have none: "adding s = None" using add_insert.hyps by (simp add: adding_def)
  show ?case
    by (rule deaths_ok_transfer [OF add_insert.prems(2)])
      (use D none add_insert.hyps in \<open>auto simp: adding_def\<close>)
next
  case (add_alive s i p)
  note D = deaths_okD [OF add_alive.prems(2)]
    and h = lock_holder [OF add_alive.prems(1) disjI1 [OF add_alive.hyps(1)]]
  have "rs_handler s = Reaped q" if "q \<in> rs_children s" "rs_proc s q = Gone" for q
    using D(2) [OF that] h add_alive.hyps(2) that(2) by auto
  with D(1) show ?case by (intro deaths_ok_transfer [OF add_alive.prems(2)]) auto
next
  case (add_dead s i p)
  let ?s = "s\<lparr>rs_proc := (rs_proc s)(p := Gone), rs_adder := (rs_adder s)(i := Missed p)\<rparr>"
  note h = lock_holder [OF add_dead.prems(1) disjI1 [OF add_dead.hyps(1)]]
  then have "adding s = Some p" by simp
  moreover from h have "adding ?s = Some p" unfolding adding_def by simp
  moreover have "rs_proc ?s q = (if q = p then Gone else rs_proc s q)" for q by simp
  ultimately show ?case using add_dead.prems(2) unfolding deaths_ok_def by auto
next
  case (add_report s i p)
  note D = deaths_okD [OF add_report.prems(2)]
    and h = lock_holder [OF add_report.prems(1) disjI2 [OF add_report.hyps]]
  have "rs_proc s p = Gone" using h add_report by (simp add: lock_ok_def)
  with D h show ?case by (intro deaths_ok_transfer [OF add_report.prems(2)]) auto
qed (auto simp: deaths_ok_def)

lemma reports_ok_step:
  assumes "race_step reuse s s'" and "lock_ok s" and "reports_ok s"
  shows "reports_ok s'"
  using assms
proof (induction rule: race_step.induct)
  case (add_report s i p)
  note lock_holder [OF add_report.prems(1) disjI2 [OF add_report.hyps]]
  with add_report.prems(2) show ?case by (simp add: reports_ok_def)
qed (simp_all add: reports_ok_def split: if_splits)

interpretation race: invariant_system "\<lambda>s. s = race_start" "race_step False"
  "\<lambda>s. lock_ok s \<and> deaths_ok s \<and> reports_ok s"
proof
  show "lock_ok s \<and> deaths_ok s \<and> reports_ok s" if "s = race_start" for s
    using that by (simp add: race_start_def lock_ok_def deaths_ok_def reports_ok_def)
qed (use lock_ok_step deaths_ok_step reports_ok_step in blast)

section \<open>The steps are those of the operations\<close>

text \<open>
  Without interference, the steps of \<open>add\<close> and of a round of the handler do what \<open>add\<close> and \<open>reap\<close>
  of theory \<open>Death_Observer\<close> do, where waitpid answers according to the state of the child.
\<close>

definition agrees :: "race_sys \<Rightarrow> observer \<Rightarrow> bool" where
  "agrees s ob \<longleftrightarrow> rs_children s = dom (children ob) \<and> rs_died s = map Process_pid (died ob)"

fun answers :: "proc_state \<Rightarrow> int \<Rightarrow> errno + int \<times> 32 word \<Rightarrow> bool" where
  "answers Living p r \<longleftrightarrow> (\<exists>status. r = Inr (0, status))"
| "answers Dead p r \<longleftrightarrow> (\<exists>status. r = Inr (p, status))"
| "answers Gone p r \<longleftrightarrow> r = Inl ECHILD"
| "answers Unborn p r \<longleftrightarrow> False"

theorem race_add_is_add:
  assumes "agrees s ob" and "rs_guard s = None" and "rs_adder s i = Adder_Out"
    and "0 < Process_pid c" and "Process_pid c \<notin> rs_children s"
    and "sys_waitpid K (Process_pid c) WNOHANG k = (r, k1)" and "answers (rs_proc s (Process_pid c)) (Process_pid c) r"
    and "add K react c ob k = (b, ob', k')"
  shows "\<exists>s'. (race_step reuse)\<^sup>*\<^sup>* s s' \<and> agrees s' ob' \<and> rs_guard s' = None \<and> rs_adder s' i = Adder_Out \<and>
    (b \<longleftrightarrow> rs_proc s (Process_pid c) = Living)"
proof -
  let ?p = "Process_pid c"
  let ?s1 = "s\<lparr>rs_guard := Some i, rs_adder := (rs_adder s)(i := Inserted ?p),
      rs_children := insert ?p (rs_children s), rs_entered := rs_entered s @ [?p]\<rparr>"
  have new: "children ob ?p = None" using assms(1,5) by (auto simp: agrees_def)
  have "rs_proc s ?p \<noteq> Unborn" using assms(7) by auto
  then have s1: "race_step reuse s ?s1" by (rule add_insert [OF assms(3,2) _ assms(5)])
  show ?thesis
  proof (cases "rs_proc s ?p = Living")
    case True
    let ?s2 = "?s1\<lparr>rs_guard := None, rs_adder := (rs_adder ?s1)(i := Adder_Out)\<rparr>"
    have "race_step reuse ?s1 ?s2" by (rule add_alive [of _ i ?p]) (simp_all add: True)
    with s1 have "(race_step reuse)\<^sup>*\<^sup>* s ?s2" by (meson converse_rtranclp_into_rtranclp rtranclp.rtrancl_refl)
    moreover have "agrees ?s2 ob' \<and> b"
      using True assms new by (auto simp: add_def agrees_def)
    ultimately show ?thesis using True by (intro exI [of _ ?s2]) simp
  next
    case False
    let ?s2 = "?s1\<lparr>rs_proc := (rs_proc ?s1)(?p := Gone), rs_adder := (rs_adder ?s1)(i := Missed ?p)\<rparr>"
    let ?s3 = "(report_death ?p ?s2)\<lparr>rs_guard := None, rs_adder := (rs_adder ?s2)(i := Adder_Out)\<rparr>"
    have dead: "rs_proc s ?p = Dead \<or> rs_proc s ?p = Gone"
      using False assms(7) by (cases "rs_proc s ?p") auto
    have "race_step reuse ?s1 ?s2" by (rule add_dead [of _ i ?p]) (use dead in simp_all)
    moreover have "race_step reuse ?s2 ?s3" by (rule add_report [of _ i ?p]) simp
    ultimately have "(race_step reuse)\<^sup>*\<^sup>* s ?s3"
      using s1 by (meson converse_rtranclp_into_rtranclp rtranclp.rtrancl_refl)
    moreover have "agrees ?s3 ob' \<and> \<not> b"
      using dead assms new by (auto simp: add_def agrees_def split: if_splits)
    ultimately show ?thesis using False by (intro exI [of _ ?s3]) simp
  qed
qed

theorem race_round_is_reap:
  assumes "agrees s ob" and "rs_guard s = None" and "rs_handler s = Reaped p"
    and "WIFSIGNALED status \<or> WIFEXITED status" and "\<And>it. children ob p = Some it \<Longrightarrow> Process_pid it = p"
    and "reap react p status ob k = (ob', k')"
  shows "\<exists>s'. race_step reuse s s' \<and> agrees s' ob' \<and> rs_handler s' = Polling"
proof -
  let ?s = "(if p \<in> rs_children s then report_death p s else s)\<lparr>rs_handler := Polling\<rparr>"
  have "race_step reuse s ?s" by (rule handler_round [OF assms(3,2)])
  moreover have "agrees ?s ob'"
    using assms(1,4,5,6) by (auto simp: agrees_def reap_def dom_def split: option.splits if_splits)
  ultimately show ?thesis by (intro exI [of _ ?s]) simp
qed

section \<open>Properties\<close>

text \<open>
  C13: no death of an observed child is lost, and none is made up. However \<open>add\<close> and the handler
  interleave, as long as numbers are not reused, a child is reported as often as it was put
  into the map and is not in it any more, and only when it is dead; and when nothing is under way
  (no \<open>SIGCHLD\<close> pending, the handler done, no \<open>add\<close> in progress) every child still in the map lives.
\<close>

theorem observer_loses_no_death:
  assumes "(race_step False)\<^sup>*\<^sup>* race_start s"
  shows "\<not> rs_false_report s \<and>
    (\<forall>p. count_list (rs_entered s) p = count_list (rs_died s) p + of_bool (p \<in> rs_children s)) \<and>
    (rs_handler s = Idle \<and> \<not> rs_sigchld s \<and> rs_guard s = None \<longrightarrow> (\<forall>p \<in> rs_children s. rs_proc s p = Living))"
proof (intro conjI impI)
  from race.reach_inv [OF assms refl] have l: "lock_ok s" and d: "deaths_ok s" and r: "reports_ok s" by simp_all
  show "\<not> rs_false_report s" using d by (simp add: deaths_ok_def)
  show "\<forall>p. count_list (rs_entered s) p = count_list (rs_died s) p + of_bool (p \<in> rs_children s)"
    using r by (simp add: reports_ok_def)
  assume quiet: "rs_handler s = Idle \<and> \<not> rs_sigchld s \<and> rs_guard s = None"
  show "\<forall>p \<in> rs_children s. rs_proc s p = Living"
  proof
    fix p
    assume "p \<in> rs_children s"
    with d quiet have "rs_proc s p \<noteq> Unborn" "rs_proc s p \<noteq> Dead"
      "rs_proc s p = Gone \<longrightarrow> rs_handler s = Reaped p \<or> adding s = Some p"
      unfolding deaths_ok_def by blast+
    with quiet show "rs_proc s p = Living" by (cases "rs_proc s p") (simp_all add: adding_def)
  qed
qed

theorem observer_loses_no_death_witness:
  "\<exists>s. (race_step False)\<^sup>*\<^sup>* race_start s \<and> rs_entered s = [7] \<and> rs_died s = [7] \<and> rs_handler s = Reaped 7 \<and>
    \<not> rs_false_report s"
proof -
  let ?s1 = "race_start\<lparr>rs_proc := (rs_proc race_start)(7 := Living)\<rparr>"
  let ?s2 = "?s1\<lparr>rs_proc := (rs_proc ?s1)(7 := Dead), rs_sigchld := True\<rparr>"
  let ?s3 = "?s2\<lparr>rs_sigchld := False, rs_handler := Polling\<rparr>"
  let ?s4 = "?s3\<lparr>rs_proc := (rs_proc ?s3)(7 := Gone), rs_handler := Reaped 7\<rparr>"
  let ?s5 = "?s4\<lparr>rs_guard := Some 0, rs_adder := (rs_adder ?s4)(0 := Inserted 7),
      rs_children := insert 7 (rs_children ?s4), rs_entered := rs_entered ?s4 @ [7]\<rparr>"
  let ?s6 = "?s5\<lparr>rs_proc := (rs_proc ?s5)(7 := Gone), rs_adder := (rs_adder ?s5)(0 := Missed 7)\<rparr>"
  let ?s7 = "(report_death 7 ?s6)\<lparr>rs_guard := None, rs_adder := (rs_adder ?s6)(0 := Adder_Out)\<rparr>"
  let ?R = "race_step False"
  have "?R race_start ?s1" by (rule spawn [of _ 7]) (simp add: race_start_def)
  moreover have "?R ?s1 ?s2" by (rule die [of _ 7]) simp
  moreover have "?R ?s2 ?s3" by (rule handler_start) (simp_all add: race_start_def)
  moreover have "?R ?s3 ?s4" by (rule handler_reap [of _ 7]) simp_all
  moreover have "?R ?s4 ?s5" by (rule add_insert [of _ 0 7]) (simp_all add: race_start_def)
  moreover have "?R ?s5 ?s6" by (rule add_dead [of _ 0 7]) simp_all
  moreover have "?R ?s6 ?s7" by (rule add_report [of _ 0 7]) simp
  ultimately have r: "?R\<^sup>*\<^sup>* race_start ?s7"
    by (meson converse_rtranclp_into_rtranclp rtranclp.rtrancl_refl)
  with observer_loses_no_death [OF r] show ?thesis
    by (intro exI [of _ ?s7]) (simp add: race_start_def)
qed

text \<open>
  With reuse of process numbers a living child can be reported dead. The handler reaps a child
  that is not observed; before it locks the map, a new child gets the number and is added; the
  handler then finds the number in the map, reports the new child and stops observing it.
\<close>

theorem observer_reports_living_child:
  "\<exists>s p. (race_step True)\<^sup>*\<^sup>* race_start s \<and> rs_proc s p = Living \<and> rs_false_report s \<and>
     rs_died s = [p] \<and> p \<notin> rs_children s"
proof -
  let ?s1 = "race_start\<lparr>rs_proc := (rs_proc race_start)(7 := Living)\<rparr>"
  let ?s2 = "?s1\<lparr>rs_proc := (rs_proc ?s1)(7 := Dead), rs_sigchld := True\<rparr>"
  let ?s3 = "?s2\<lparr>rs_sigchld := False, rs_handler := Polling\<rparr>"
  let ?s4 = "?s3\<lparr>rs_proc := (rs_proc ?s3)(7 := Gone), rs_handler := Reaped 7\<rparr>"
  let ?s5 = "?s4\<lparr>rs_proc := (rs_proc ?s4)(7 := Living)\<rparr>"
  let ?s6 = "?s5\<lparr>rs_guard := Some 0, rs_adder := (rs_adder ?s5)(0 := Inserted 7),
      rs_children := insert 7 (rs_children ?s5), rs_entered := rs_entered ?s5 @ [7]\<rparr>"
  let ?s7 = "?s6\<lparr>rs_guard := None, rs_adder := (rs_adder ?s6)(0 := Adder_Out)\<rparr>"
  let ?s8 = "(if 7 \<in> rs_children ?s7 then report_death 7 ?s7 else ?s7)\<lparr>rs_handler := Polling\<rparr>"
  let ?R = "race_step True"
  have "?R race_start ?s1" by (rule spawn [of _ 7]) (simp add: race_start_def)
  moreover have "?R ?s1 ?s2" by (rule die [of _ 7]) simp
  moreover have "?R ?s2 ?s3" by (rule handler_start) (simp_all add: race_start_def)
  moreover have "?R ?s3 ?s4" by (rule handler_reap [of _ 7]) simp_all
  moreover have "?R ?s4 ?s5" by (rule spawn [of _ 7]) simp
  moreover have "?R ?s5 ?s6" by (rule add_insert [of _ 0 7]) (simp_all add: race_start_def)
  moreover have "?R ?s6 ?s7" by (rule add_alive [of _ 0 7]) simp_all
  moreover have "?R ?s7 ?s8" by (rule handler_round) (simp_all add: race_start_def)
  ultimately have "?R\<^sup>*\<^sup>* race_start ?s8"
    by (meson converse_rtranclp_into_rtranclp rtranclp.rtrancl_refl)
  then show ?thesis by (intro exI [of _ ?s8] exI [of _ 7]) (simp add: race_start_def)
qed

end
