(* ===== verification/Observer_Liveness.thy ===== *)
theory Observer_Liveness
  imports Observer_Race
begin

text \<open>
  The death observer comes to rest (\<open>DeathObserverImpl\<close> of \<open>child_process.cpp\<close>). Once no child is
  born or dies, no stray \<open>SIGCHLD\<close> arrives and no further \<open>add\<close> begins, what the handler and the calls of \<open>add\<close> under way still
  do comes to an end, and then every death is reported.
\<close>

section \<open>Steps that only work off\<close>

definition calm_step :: "race_sys \<Rightarrow> race_sys \<Rightarrow> bool" where
  "calm_step s s' \<longleftrightarrow> race_step False s s' \<and> rs_entered s' = rs_entered s \<and> (rs_sigchld s' \<longrightarrow> rs_sigchld s) \<and>
     (\<forall>p. rs_proc s' p = Living \<longleftrightarrow> rs_proc s p = Living)"

fun handler_weight :: "handler_pc \<Rightarrow> nat" where
  "handler_weight Idle = 0"
| "handler_weight Polling = 1"
| "handler_weight (Reaped p) = 2"

fun adder_weight :: "adder_pc \<Rightarrow> nat" where
  "adder_weight Adder_Out = 0"
| "adder_weight (Missed p) = 1"
| "adder_weight (Inserted p) = 2"

definition dead_count :: "(int \<Rightarrow> proc_state) \<Rightarrow> nat" where
  "dead_count P = card {p. P p = Dead}"

definition work_left :: "race_sys \<Rightarrow> nat \<times> nat" where
  "work_left s = (dead_count (rs_proc s),
     (if rs_sigchld s then 3 else 0) + handler_weight (rs_handler s) +
     (case rs_guard s of None \<Rightarrow> 0 | Some i \<Rightarrow> adder_weight (rs_adder s i)))"

definition known :: "race_sys \<Rightarrow> int set" where
  "known s = {p. rs_proc s p \<noteq> Unborn}"

definition race_inv :: "race_sys \<Rightarrow> bool" where
  "race_inv s \<longleftrightarrow> lock_ok s \<and> deaths_ok s \<and> reports_ok s \<and> finite (known s)"

lemma known_step: "race_step reuse s s' \<Longrightarrow> \<exists>p. known s' \<subseteq> insert p (known s)"
proof (induction rule: race_step.induct)
  case (spawn s p)
  then show ?case by (intro exI [of _ p]) (auto simp: known_def)
qed (auto simp: known_def)

lemma finite_known_step: "race_step reuse s s' \<Longrightarrow> finite (known s) \<Longrightarrow> finite (known s')"
  using known_step by (meson finite_insert finite_subset)

lemma race_inv_step: "race_step False s s' \<Longrightarrow> race_inv s \<Longrightarrow> race_inv s'"
  unfolding race_inv_def using lock_ok_step deaths_ok_step reports_ok_step finite_known_step by blast

lemma race_inv_start: "race_inv race_start"
  using race.start_inv [of race_start] by (simp add: race_inv_def known_def race_start_def)

interpretation race_known: invariant_system "\<lambda>s. s = race_start" "race_step False" race_inv
  by unfold_locales (auto intro: race_inv_start race_inv_step)

lemma fewer_dead:
  assumes "race_inv s" and "rs_proc s p = Dead"
  shows "dead_count ((rs_proc s)(p := Gone)) < dead_count (rs_proc s)"
  unfolding dead_count_def
proof (rule psubset_card_mono)
  show "finite {q. rs_proc s q = Dead}"
    using assms(1) by (auto simp: race_inv_def known_def elim: rev_finite_subset)
  show "{q. ((rs_proc s)(p := Gone)) q = Dead} \<subset> {q. rs_proc s q = Dead}" using assms(2) by auto
qed

lemma calm_step_decreases:
  assumes "calm_step s s'" and "race_inv s"
  shows "(work_left s', work_left s) \<in> less_than <*lex*> less_than"
proof -
  have l: "lock_ok s" using assms(2) by (simp add: race_inv_def)
  from assms(1) have step: "race_step False s s'" and entered: "rs_entered s' = rs_entered s"
    and living: "\<And>p. rs_proc s' p = Living \<longleftrightarrow> rs_proc s p = Living" and sig: "rs_sigchld s' \<longrightarrow> rs_sigchld s"
    by (auto simp: calm_step_def)
  from step show ?thesis
  proof cases
    case (spawn p)
    with living [of p] show ?thesis by auto
  next
    case (die p)
    with living [of p] show ?thesis by auto
  next
    case (handler_reap p)
    with fewer_dead [OF assms(2), of p] show ?thesis by (simp add: work_left_def)
  next
    case (add_alive i p)
    with lock_holder [OF l, of i p] show ?thesis by (simp add: work_left_def)
  next
    case (add_dead i p)
    from add_dead(3) have "dead_count ((rs_proc s)(p := Gone)) < dead_count (rs_proc s) \<or>
        dead_count ((rs_proc s)(p := Gone)) = dead_count (rs_proc s)"
      using fewer_dead [OF assms(2), of p] by (auto simp: fun_upd_idem)
    moreover have "rs_guard s = Some i" using lock_holder [OF l, of i p] add_dead(2) by simp
    ultimately show ?thesis using add_dead(2) unfolding work_left_def add_dead(1) by simp
  next
    case (add_report i p)
    with lock_holder [OF l, of i p] show ?thesis by (simp add: work_left_def)
  next
    case stray
    with sig show ?thesis by simp
  qed (use entered in \<open>auto simp: work_left_def split: option.split\<close>)
qed

lemma calm_race: "calm_step s s' \<Longrightarrow> race_step False s s'"
  by (simp add: calm_step_def)

interpretation calm: terminating_system "\<lambda>s. (race_step False)\<^sup>*\<^sup>* race_start s" calm_step race_inv work_left
proof
  show "race_inv s" if "(race_step False)\<^sup>*\<^sup>* race_start s" for s
    using race_known.reach_inv [OF that] by simp
qed (auto intro: race_inv_step calm_race calm_step_decreases simp del: in_lex_prod)

lemma calm_keeps:
  "calm_step\<^sup>*\<^sup>* s t \<Longrightarrow> rs_entered t = rs_entered s \<and> (\<forall>p. rs_proc t p = Living \<longleftrightarrow> rs_proc s p = Living)"
  by (induction rule: rtranclp_induct) (simp_all add: calm_step_def)

text \<open>Where nothing more can be done, nothing is under way.\<close>

lemma calm_guard:
  assumes inv: "race_inv s" and stuck: "\<And>s'. \<not> calm_step s s'"
  shows "rs_guard s = None"
proof (cases "rs_guard s")
  case (Some i)
  with inv have ok: "inside_ok (rs_children s) (rs_proc s) (rs_adder s i)"
    by (simp add: race_inv_def lock_ok_def)
  show ?thesis
  proof (cases "rs_adder s i")
    case (Missed p)
    then have "calm_step s ((report_death p s)\<lparr>rs_guard := None, rs_adder := (rs_adder s)(i := Adder_Out)\<rparr>)"
      unfolding calm_step_def by (auto intro: add_report)
    with stuck show ?thesis by blast
  next
    case (Inserted p)
    with ok inv have "rs_proc s p \<noteq> Unborn" using deaths_okD(1) [of s p] by (simp add: race_inv_def)
    then consider "rs_proc s p = Living" | "rs_proc s p = Dead \<or> rs_proc s p = Gone" by (cases "rs_proc s p") auto
    then show ?thesis
    proof cases
      case 1
      then have "calm_step s (s\<lparr>rs_guard := None, rs_adder := (rs_adder s)(i := Adder_Out)\<rparr>)"
        unfolding calm_step_def using add_alive [OF Inserted] by auto
      with stuck show ?thesis by blast
    next
      case 2
      then have "calm_step s (s\<lparr>rs_proc := (rs_proc s)(p := Gone), rs_adder := (rs_adder s)(i := Missed p)\<rparr>)"
        unfolding calm_step_def using add_dead [OF Inserted] by auto
      with stuck show ?thesis by blast
    qed
  qed (use ok in simp)
qed simp

lemma calm_handler:
  assumes guard: "rs_guard s = None" and stuck: "\<And>s'. \<not> calm_step s s'"
  shows "rs_handler s = Idle"
proof (cases "rs_handler s")
  case Polling
  have "rs_proc s p \<noteq> Dead" for p
  proof
    assume "rs_proc s p = Dead"
    then have "calm_step s (s\<lparr>rs_proc := (rs_proc s)(p := Gone), rs_handler := Reaped p\<rparr>)"
      unfolding calm_step_def using handler_reap [OF Polling] by auto
    with stuck show False by blast
  qed
  then have "calm_step s (s\<lparr>rs_handler := Idle\<rparr>)"
    unfolding calm_step_def using handler_done [OF Polling] by auto
  with stuck show ?thesis by blast
next
  case (Reaped p)
  have "calm_step s ((if p \<in> rs_children s then report_death p s else s)\<lparr>rs_handler := Polling\<rparr>)"
    unfolding calm_step_def using handler_round [OF Reaped guard] by auto
  with stuck show ?thesis by blast
qed simp

lemma calm_end:
  assumes "race_inv s" and stuck: "\<And>s'. \<not> calm_step s s'"
  shows "rs_guard s = None \<and> rs_handler s = Idle \<and> \<not> rs_sigchld s"
proof (intro conjI notI)
  show guard: "rs_guard s = None" by (rule calm_guard [OF assms])
  show idle: "rs_handler s = Idle" by (rule calm_handler [OF guard stuck])
  assume "rs_sigchld s"
  with idle have "calm_step s (s\<lparr>rs_sigchld := False, rs_handler := Polling\<rparr>)"
    unfolding calm_step_def by (auto intro: handler_start)
  with stuck show False by blast
qed

lemma calm_rest:
  assumes inv: "race_inv t" and stuck: "\<And>t'. \<not> calm_step t t'"
  shows "rs_proc t p \<noteq> Dead"
    and "p \<in> set (rs_entered t) \<Longrightarrow> rs_proc t p \<noteq> Living \<Longrightarrow> p \<in> set (rs_died t)"
proof -
  note rest = calm_end [OF assms]
  have d: "deaths_ok t" and r: "reports_ok t" using inv by (simp_all add: race_inv_def)
  show alive: "rs_proc t p \<noteq> Dead" using d rest unfolding deaths_ok_def by blast
  assume p: "p \<in> set (rs_entered t)" "rs_proc t p \<noteq> Living"
  have "p \<notin> rs_children t"
  proof
    assume c: "p \<in> rs_children t"
    from deaths_okD [OF d c] p(2) alive have "rs_proc t p = Gone" by (cases "rs_proc t p") auto
    with deaths_okD(2) [OF d c] rest show False by (simp add: adding_def)
  qed
  with r have "count_list (rs_entered t) p = count_list (rs_died t) p" by (simp add: reports_ok_def)
  with p(1) show "p \<in> set (rs_died t)" by (metis count_list_0_iff)
qed

section \<open>Properties\<close>

text \<open>
  The observer comes to rest with every death reported. From any state reached, when no
  child is born or dies, no stray \<open>SIGCHLD\<close> arrives and no \<open>add\<close> begins, there is no infinite run; and where no step is left,
  no call is under way, no \<open>SIGCHLD\<close> is pending, no child is dead and unreaped, every child still
  in the map lives, and every child that was put into the map and does not live was reported.
\<close>

theorem observer_settles:
  assumes "(race_step False)\<^sup>*\<^sup>* race_start s"
  shows "\<not> (\<exists>r. r 0 = s \<and> (\<forall>n. calm_step (r n) (r (Suc n)))) \<and>
    (\<forall>t. calm_step\<^sup>*\<^sup>* s t \<longrightarrow> (\<forall>t'. \<not> calm_step t t') \<longrightarrow>
      rs_guard t = None \<and> rs_handler t = Idle \<and> \<not> rs_sigchld t \<and> (\<forall>p. rs_proc t p \<noteq> Dead) \<and>
      (\<forall>p \<in> set (rs_entered t). rs_proc t p \<noteq> Living \<longrightarrow> p \<in> set (rs_died t)))"
proof (intro conjI allI impI)
  show "\<not> (\<exists>r. r 0 = s \<and> (\<forall>n. calm_step (r n) (r (Suc n))))"
    using calm.no_infinite_run assms by blast
  fix t
  assume "calm_step\<^sup>*\<^sup>* s t" and stuck: "\<forall>t'. \<not> calm_step t t'"
  from calm.reach_inv [OF this(1) assms] have inv: "race_inv t" .
  note rest = calm_end [OF inv] calm_rest [OF inv]
  show "rs_guard t = None" "rs_handler t = Idle" "\<not> rs_sigchld t" "rs_proc t p \<noteq> Dead" for p
    using rest stuck by blast+
  show "\<forall>p \<in> set (rs_entered t). rs_proc t p \<noteq> Living \<longrightarrow> p \<in> set (rs_died t)"
    using rest stuck by blast
qed

theorem observer_settles_witness:
  "\<exists>s t. (race_step False)\<^sup>*\<^sup>* race_start s \<and> rs_died s = [] \<and> calm_step\<^sup>*\<^sup>* s t \<and> (\<forall>t'. \<not> calm_step t t') \<and>
    7 \<in> set (rs_died t)"
proof -
  let ?s1 = "race_start\<lparr>rs_proc := (rs_proc race_start)(7 := Living)\<rparr>"
  let ?s2 = "?s1\<lparr>rs_guard := Some 0, rs_adder := (rs_adder ?s1)(0 := Inserted 7),
      rs_children := insert 7 (rs_children ?s1), rs_entered := rs_entered ?s1 @ [7]\<rparr>"
  let ?s3 = "?s2\<lparr>rs_guard := None, rs_adder := (rs_adder ?s2)(0 := Adder_Out)\<rparr>"
  let ?s4 = "?s3\<lparr>rs_proc := (rs_proc ?s3)(7 := Dead), rs_sigchld := True\<rparr>"
  have "race_step False race_start ?s1" by (rule spawn [of _ 7]) (simp add: race_start_def)
  moreover have "race_step False ?s1 ?s2" by (rule add_insert [of _ 0 7]) (simp_all add: race_start_def)
  moreover have "race_step False ?s2 ?s3" by (rule add_alive [of _ 0 7]) simp_all
  moreover have "race_step False ?s3 ?s4" by (rule die [of _ 7]) simp
  ultimately have r: "(race_step False)\<^sup>*\<^sup>* race_start ?s4"
    by (meson converse_rtranclp_into_rtranclp rtranclp.rtrancl_refl)
  from calm.reach_end [OF r] obtain t where t: "calm_step\<^sup>*\<^sup>* ?s4 t" "\<forall>t'. \<not> calm_step t t'" by blast
  from calm_keeps [OF t(1)] have "7 \<in> set (rs_entered t)" and "rs_proc t 7 \<noteq> Living" by simp_all
  with observer_settles [OF r] t have "7 \<in> set (rs_died t)" by blast
  with r t show ?thesis by (intro exI [of _ ?s4] exI [of _ t]) (simp add: race_start_def)
qed

end
