(* ===== verification/Trap_Observer.thy ===== *)
theory Trap_Observer
  imports Trap_System Observer_Liveness
begin

text \<open>
  The trap and the observer connected to it, at work together (\<open>signal.cpp\<close>, \<open>child_process.cpp\<close>).
  A death makes \<open>SIGCHLD\<close> pending in the kernel; a turn of \<open>run\<close> takes it from the signalfd together
  with other signals and emits them one after the other; the slot calls \<open>on_sig_child\<close> in the
  thread of \<open>run\<close>, which goes on when the handler returns. Meanwhile other threads call \<open>add\<close> and
  \<open>stop\<close>, and children are born and die.
\<close>

section \<open>The system\<close>

text \<open>
  \<open>wh_queue\<close> are the signals the current turn has still to emit. The pending \<open>SIGCHLD\<close> is that of the
  trap's part; the flag \<open>rs_sigchld\<close> of the observer's part is not used and stays \<open>False\<close>.
\<close>

record whole =
  wh_trap :: trap_sys
  wh_obs :: race_sys
  wh_queue :: "Signal list"

text \<open>
  What the thread of \<open>run\<close> and the threads in \<open>add\<close> do: the thread of \<open>run\<close> makes a turn when all
  signals of the turn before are delivered, delivers them when the handler has returned, and is in
  the handler otherwise.
\<close>

inductive inside_step :: "bool \<Rightarrow> whole \<Rightarrow> whole \<Rightarrow> bool" for reuse where
  take_turn: "wh_queue w = [] \<Longrightarrow> rs_handler (wh_obs w) = Idle \<Longrightarrow> turn (wh_trap w) t' \<Longrightarrow>
    ts_history t' = ts_history (wh_trap w) @ map Relayed raised \<Longrightarrow>
    inside_step reuse w (w\<lparr>wh_trap := t', wh_queue := raised\<rparr>)"
| emit: "wh_queue w = sig # rest \<Longrightarrow> rs_handler (wh_obs w) = Idle \<Longrightarrow>
    inside_step reuse w (w\<lparr>wh_queue := rest,
      wh_obs := (if sig = sig_chld then (wh_obs w)\<lparr>rs_handler := Polling\<rparr> else wh_obs w)\<rparr>)"
| observe: "race_step reuse (wh_obs w) o' \<Longrightarrow> \<not> rs_sigchld o' \<Longrightarrow> inside_step reuse w (w\<lparr>wh_obs := o'\<rparr>)"

text \<open>
  What happens around them: deaths, and what theory \<open>Trap_System\<close> has around a trap, arrivals of any
  signal, \<open>stop\<close>, and a new call of \<open>run\<close> once the one before has returned. A turn that ends the loop
  reads the eventfd after it has emitted its signals, so that a \<open>stop\<close> in between leaves no trace.
\<close>

inductive outside_step :: "whole \<Rightarrow> whole \<Rightarrow> bool" where
  death: "rs_proc (wh_obs w) p = Living \<Longrightarrow> around (wh_trap w) t' \<Longrightarrow>
    t' = (wh_trap w)\<lparr>ts_pending := insert 17 (ts_pending (wh_trap w)), ts_history := ts_history (wh_trap w) @ [Arrived 17]\<rparr> \<Longrightarrow>
    outside_step w (w\<lparr>wh_trap := t', wh_obs := (wh_obs w)\<lparr>rs_proc := (rs_proc (wh_obs w))(p := Dead)\<rparr>\<rparr>)"
| trap: "around (wh_trap w) t' \<Longrightarrow> ts_trap t' = ts_trap (wh_trap w) \<or> wh_queue w = [] \<and> rs_handler (wh_obs w) = Idle \<Longrightarrow>
    ts_counter t' = ts_counter (wh_trap w) \<or> state (ts_trap (wh_trap w)) = running \<or>
      wh_queue w = [] \<and> rs_handler (wh_obs w) = Idle \<Longrightarrow>
    outside_step w (w\<lparr>wh_trap := t'\<rparr>)"

definition whole_step :: "bool \<Rightarrow> whole \<Rightarrow> whole \<Rightarrow> bool" where
  "whole_step reuse w w' \<longleftrightarrow> inside_step reuse w w' \<or> outside_step w w'"

text \<open>The constructor of the observer demands that the trap has \<open>SIGCHLD\<close>.\<close>

definition whole_initial :: "SignalTrap \<Rightarrow> whole \<Rightarrow> bool" where
  "whole_initial t w \<longleftrightarrow> trap_has t sig_chld \<and> trap_initial t (wh_trap w) \<and> wh_obs w = race_start \<and> wh_queue w = []"

section \<open>The observer's view\<close>

text \<open>
  For the observer, the handler has started when its signal has been taken from the kernel, and
  \<open>SIGCHLD\<close> is pending when it is in the kernel.
\<close>

definition observer_view :: "whole \<Rightarrow> race_sys" where
  "observer_view w = (wh_obs w)\<lparr>rs_sigchld := (17 \<in> ts_pending (wh_trap w)),
     rs_handler := (if sig_chld \<in> set (wh_queue w) then Polling else rs_handler (wh_obs w))\<rparr>"

definition whole_inv :: "SignalTrap \<Rightarrow> whole \<Rightarrow> bool" where
  "whole_inv t w \<longleftrightarrow> trap_inv t (wh_trap w) \<and> \<not> rs_sigchld (wh_obs w) \<and> distinct (wh_queue w) \<and>
     (sig_chld \<in> set (wh_queue w) \<longrightarrow> rs_handler (wh_obs w) = Idle)"

lemma observer_view_simps [simp]:
  "rs_proc (observer_view w) = rs_proc (wh_obs w)" "rs_children (observer_view w) = rs_children (wh_obs w)"
  "rs_guard (observer_view w) = rs_guard (wh_obs w)" "rs_adder (observer_view w) = rs_adder (wh_obs w)"
  "rs_entered (observer_view w) = rs_entered (wh_obs w)" "rs_died (observer_view w) = rs_died (wh_obs w)"
  "rs_sigchld (observer_view w) \<longleftrightarrow> 17 \<in> ts_pending (wh_trap w)"
  by (simp_all add: observer_view_def)

text \<open>A step of the observer alone depends on neither the flag nor, while it is idle, the handler.\<close>

lemma race_step_retag:
  assumes "race_step reuse s s'" and "\<not> rs_sigchld s" and "\<not> rs_sigchld s'"
    and "rs_handler s = Idle \<or> h = rs_handler s \<and> h' = rs_handler s'"
    and "rs_handler s = Idle \<longrightarrow> h' = h"
  shows "race_step reuse (s\<lparr>rs_sigchld := b, rs_handler := h\<rparr>) (s'\<lparr>rs_sigchld := b, rs_handler := h'\<rparr>)"
  using assms(1)
proof cases
  case (spawn p)
  with race_step.spawn [of "s\<lparr>rs_sigchld := b, rs_handler := h\<rparr>" p reuse] assms(4,5) show ?thesis by (cases s) auto
next
  case (handler_reap p)
  with race_step.handler_reap [of "s\<lparr>rs_sigchld := b, rs_handler := h\<rparr>" p reuse] assms(4,5) show ?thesis by (cases s) auto
next
  case handler_done
  with race_step.handler_done [of "s\<lparr>rs_sigchld := b, rs_handler := h\<rparr>" reuse] assms(4,5) show ?thesis by (cases s) auto
next
  case (handler_round p)
  with race_step.handler_round [of "s\<lparr>rs_sigchld := b, rs_handler := h\<rparr>" p reuse] assms(4,5) show ?thesis
    by (cases s) (auto simp: report_death_def split: if_splits)
next
  case (add_insert i p)
  with race_step.add_insert [of "s\<lparr>rs_sigchld := b, rs_handler := h\<rparr>" i p reuse] assms(4,5) show ?thesis by (cases s) auto
next
  case (add_alive i p)
  with race_step.add_alive [of "s\<lparr>rs_sigchld := b, rs_handler := h\<rparr>" i p reuse] assms(4,5) show ?thesis by (cases s) auto
next
  case (add_dead i p)
  with race_step.add_dead [of "s\<lparr>rs_sigchld := b, rs_handler := h\<rparr>" i p reuse] assms(4,5) show ?thesis by (cases s) auto
next
  case (add_report i p)
  with race_step.add_report [of "s\<lparr>rs_sigchld := b, rs_handler := h\<rparr>" i p reuse] assms(4,5) show ?thesis
    by (cases s) (auto simp: report_death_def)
qed (use assms(2,3) in auto)

lemma race_step_idle:
  "race_step reuse s s' \<Longrightarrow> \<not> rs_sigchld s \<Longrightarrow> rs_handler s = Idle \<Longrightarrow> rs_handler s' = Idle"
  by (induction rule: race_step.induct) (auto simp: report_death_def)

lemma to_signal_chld: "to_signal n = sig_chld \<longleftrightarrow> n = 17"
proof -
  have "sig_chld = to_signal 17" by (simp add: to_signal_def sig_chld_def)
  then show ?thesis using to_signal_inj by metis
qed

text \<open>What a turn takes from the kernel and hands to the slots.\<close>

lemma turn_raised:
  assumes "turn s s'" and "trap_inv t s" and "ts_history s' = ts_history s @ map Relayed raised"
  shows "\<exists>ns. raised = map to_signal ns \<and> distinct ns \<and> set ns \<subseteq> ts_pending s \<and>
    ts_pending s' = ts_pending s - set ns \<and> (ts_pending s \<noteq> {} \<longrightarrow> ns \<noteq> [])"
  using assms(1)
proof cases
  case (turn ns out e)
  have "map Relayed raised = map Relayed out" using turn(1) assms(3) by simp
  then have "raised = out" by (metis (no_types, lifting) injI inj_map_eq_map trap_event.inject(2))
  moreover have "out = map to_signal ns" by (rule turn_outcome(1) [OF assms(2) turn(5-7)])
  moreover have "finite (ts_pending s)" using assms(2) by (simp add: trap_inv_def)
  then have "ns \<noteq> []" if "ts_pending s \<noteq> {}"
    using that turn(6) by (auto simp: signal_info_buffer_size_def card_gt_0_iff min_def split: if_splits)
  ultimately show ?thesis using turn by (intro exI [of _ ns]) simp
qed

lemma inside_inv: "inside_step reuse w w' \<Longrightarrow> whole_inv t w \<Longrightarrow> whole_inv t w'"
proof (induction rule: inside_step.induct)
  case (take_turn w t' raised)
  then have i: "trap_inv t (wh_trap w)" by (simp add: whole_inv_def)
  from turn_raised [OF take_turn.hyps(3) i take_turn.hyps(4)] obtain ns where
    "raised = map to_signal ns" "distinct ns" by blast
  then have "distinct raised" by (simp add: distinct_map inj_on_def)
  with take_turn turn_inv [OF take_turn.hyps(3) i] show ?case by (simp add: whole_inv_def)
next
  case (emit w sig rest)
  then show ?case by (auto simp: whole_inv_def)
next
  case (observe w o')
  then show ?case using race_step_idle by (auto simp: whole_inv_def)
qed

lemma outside_inv: "outside_step w w' \<Longrightarrow> whole_inv t w \<Longrightarrow> whole_inv t w'"
proof (induction rule: outside_step.induct)
  case (death w p t')
  with around_inv [OF death.hyps(2), of t] show ?case by (simp add: whole_inv_def)
next
  case (trap w t')
  with around_inv [OF trap.hyps(1), of t] show ?case by (simp add: whole_inv_def)
qed

interpretation whole: invariant_system "whole_initial t" "whole_step reuse" "whole_inv t" for t reuse
proof
  show "whole_inv t w" if "whole_initial t w" for w
    using that trap_at_work.start_inv [of t "wh_trap w"] by (simp add: whole_initial_def whole_inv_def race_start_def)
qed (auto simp: whole_step_def intro: inside_inv outside_inv)

section \<open>The system refines its parts\<close>

lemma observe_view:
  assumes "race_step reuse (wh_obs w) o'" and "\<not> rs_sigchld o'" and "whole_inv t w"
  shows "race_step reuse (observer_view w) (observer_view (w\<lparr>wh_obs := o'\<rparr>))"
proof -
  let ?in = "sig_chld \<in> set (wh_queue w)" and ?b = "17 \<in> ts_pending (wh_trap w)"
  have flag: "\<not> rs_sigchld (wh_obs w)" and idle: "?in \<longrightarrow> rs_handler (wh_obs w) = Idle"
    using assms(3) by (simp_all add: whole_inv_def)
  have "race_step reuse ((wh_obs w)\<lparr>rs_sigchld := ?b, rs_handler := (if ?in then Polling else rs_handler (wh_obs w))\<rparr>)
      (o'\<lparr>rs_sigchld := ?b, rs_handler := (if ?in then Polling else rs_handler o')\<rparr>)"
    by (rule race_step_retag [OF assms(1) flag assms(2)])
      (use idle race_step_idle [OF assms(1) flag] in auto)
  then show ?thesis
    by (cases w) (simp only: observer_view_def whole.simps)
qed

lemma inside_view:
  assumes "inside_step reuse w w'" and "whole_inv t w"
  shows "observer_view w' = observer_view w \<or> race_step reuse (observer_view w) (observer_view w')"
  using assms
proof (induction rule: inside_step.induct)
  case (take_turn w t' raised)
  then have i: "trap_inv t (wh_trap w)" by (simp add: whole_inv_def)
  from turn_raised [OF take_turn.hyps(3) i take_turn.hyps(4)] obtain ns where
    ns: "raised = map to_signal ns" "set ns \<subseteq> ts_pending (wh_trap w)" "ts_pending t' = ts_pending (wh_trap w) - set ns"
    by blast
  have chld: "sig_chld \<in> set raised \<longleftrightarrow> 17 \<in> set ns" using ns(1) to_signal_chld by (metis (mono_tags, lifting) image_iff list.set_map)
  show ?case
  proof (cases "17 \<in> set ns")
    case True
    with ns take_turn.hyps(1,2) chld handler_start [of "observer_view w" reuse] show ?thesis
      by (auto simp: observer_view_def)
  next
    case False
    with ns take_turn.hyps(1) chld show ?thesis by (simp add: observer_view_def)
  qed
next
  case (emit w sig rest)
  then show ?case by (auto simp: observer_view_def whole_inv_def)
next
  case (observe w o')
  then show ?case by (simp add: observe_view)
qed

lemma outside_view:
  assumes "outside_step w w'"
  shows "observer_view w' = observer_view w \<or> race_step reuse (observer_view w) (observer_view w')"
  using assms
proof (induction rule: outside_step.induct)
  case (death w p t')
  with die [of "observer_view w" p reuse] show ?case by (cases "wh_obs w") (auto simp: observer_view_def)
next
  case (trap w t')
  from trap.hyps(1) show ?case
  proof cases
    case (arrive n)
    with stray [of "observer_view w" reuse] show ?thesis
      by (cases "n = 17 \<and> 17 \<notin> ts_pending (wh_trap w)"; cases "wh_obs w") (auto simp: observer_view_def insert_absorb)
  qed (simp_all add: observer_view_def)
qed

lemma whole_parts:
  assumes "(whole_step reuse)\<^sup>*\<^sup>* w0 w" and "whole_initial t w0"
  shows "trap_reachable t (wh_trap w)" and "(race_step reuse)\<^sup>*\<^sup>* race_start (observer_view w)"
proof -
  have view0: "observer_view w0 = race_start"
    using assms(2) by (auto simp: observer_view_def whole_initial_def trap_initial_def race_start_def)
  have "trap_step\<^sup>*\<^sup>* (wh_trap w0) (wh_trap w) \<and> (race_step reuse)\<^sup>*\<^sup>* race_start (observer_view w)"
    using assms(1)
  proof (induction rule: rtranclp_induct)
    case (step w w')
    have inv: "whole_inv t w" by (rule whole.reach_inv [OF step.hyps(1) assms(2)])
    have "wh_trap w' = wh_trap w \<or> trap_step (wh_trap w) (wh_trap w')"
      using step.hyps(2) by (auto simp: whole_step_def trap_step_def elim!: inside_step.cases outside_step.cases)
    moreover have "observer_view w' = observer_view w \<or> race_step reuse (observer_view w) (observer_view w')"
      using step.hyps(2) inside_view [OF _ inv] outside_view unfolding whole_step_def by blast
    ultimately show ?case using step.IH by (metis rtranclp.rtrancl_into_rtrancl)
  qed (simp add: view0)
  then show "trap_reachable t (wh_trap w)" and "(race_step reuse)\<^sup>*\<^sup>* race_start (observer_view w)"
    using assms(2) by (auto simp: trap_reachable_def whole_initial_def)
qed

section \<open>Coming to rest\<close>

definition calm_inside :: "whole \<Rightarrow> whole \<Rightarrow> bool" where
  "calm_inside w w' \<longleftrightarrow> inside_step False w w' \<and> rs_entered (wh_obs w') = rs_entered (wh_obs w) \<and>
     (\<forall>p. rs_proc (wh_obs w') p = Living \<longleftrightarrow> rs_proc (wh_obs w) p = Living)"

definition all_inv :: "SignalTrap \<Rightarrow> whole \<Rightarrow> bool" where
  "all_inv t w \<longleftrightarrow> whole_inv t w \<and> race_inv (observer_view w)"

lemma inside_pending:
  assumes "inside_step reuse w w'" and "whole_inv t w"
  shows "17 \<in> ts_pending (wh_trap w') \<Longrightarrow> 17 \<in> ts_pending (wh_trap w)"
  using assms
proof (induction rule: inside_step.induct)
  case (take_turn w t' raised)
  then have "trap_inv t (wh_trap w)" by (simp add: whole_inv_def)
  from turn_raised [OF take_turn.hyps(3) this take_turn.hyps(4)] obtain ns where
    "ts_pending t' = ts_pending (wh_trap w) - set ns" by blast
  with take_turn.prems show ?case by simp
qed simp_all

lemma calm_inside_view:
  assumes "calm_inside w w'" and "all_inv t w"
  shows "observer_view w' = observer_view w \<or> calm_step (observer_view w) (observer_view w')"
proof -
  have step: "inside_step False w w'" and inv: "whole_inv t w" using assms by (simp_all add: calm_inside_def all_inv_def)
  have "rs_sigchld (observer_view w') \<longrightarrow> rs_sigchld (observer_view w)" using inside_pending [OF step inv] by simp
  with inside_view [OF step inv] assms(1) show ?thesis unfolding calm_step_def calm_inside_def by simp
qed

lemma all_inv_step:
  assumes "calm_inside w w'" and "all_inv t w"
  shows "all_inv t w'"
proof -
  have "whole_inv t w'" using inside_inv assms by (auto simp: calm_inside_def all_inv_def)
  moreover have "race_inv (observer_view w')"
    using calm_inside_view [OF assms] assms(2) race_inv_step calm_race unfolding all_inv_def by metis
  ultimately show ?thesis by (simp add: all_inv_def)
qed

text \<open>Taking and emitting signals never makes more work for the observer, and less is left to take.\<close>

definition signals_left :: "whole \<Rightarrow> nat" where
  "signals_left w = 6 * card (ts_pending (wh_trap w)) + length (wh_queue w) + of_bool (0 < ts_counter (wh_trap w))"

lemma turn_signals_left:
  assumes "turn (wh_trap w) t'" and "trap_inv t (wh_trap w)" and "wh_queue w = []"
    and "ts_history t' = ts_history (wh_trap w) @ map Relayed raised"
  shows "signals_left (w\<lparr>wh_trap := t', wh_queue := raised\<rparr>) < signals_left w"
proof -
  from turn_raised [OF assms(1,2,4)] obtain ns where ns: "raised = map to_signal ns" "distinct ns"
    "set ns \<subseteq> ts_pending (wh_trap w)" "ts_pending t' = ts_pending (wh_trap w) - set ns"
    "ts_pending (wh_trap w) \<noteq> {} \<longrightarrow> ns \<noteq> []" by blast
  have fin: "finite (ts_pending (wh_trap w))" using assms(2) by (simp add: trap_inv_def)
  have card: "card (ts_pending t') + length ns = card (ts_pending (wh_trap w))"
    using card_mono [OF fin ns(3)] distinct_card [OF ns(2)] unfolding ns(4) by (simp add: card_Diff_subset ns(3))
  have "ts_counter t' = 0" using turn_effect [OF assms(1,2)] by simp
  moreover have "ns \<noteq> [] \<or> 0 < ts_counter (wh_trap w)" using assms(1) ns(5) by (auto elim: turn.cases)
  ultimately show ?thesis using card assms(3) ns(1) by (cases ns) (auto simp: signals_left_def)
qed

definition whole_left :: "whole \<Rightarrow> nat \<times> nat" where
  "whole_left w = (fst (work_left (observer_view w)), snd (work_left (observer_view w)) + signals_left w)"

lemma lex_less_iff: "(x, y) \<in> less_than <*lex*> less_than \<longleftrightarrow> fst x < fst y \<or> fst x = fst y \<and> snd x < snd (y :: nat \<times> nat)"
  by (cases x; cases y) simp

lemma calm_inside_decreases:
  assumes "calm_inside w w'" and "all_inv t w"
  shows "(whole_left w', whole_left w) \<in> less_than <*lex*> less_than"
proof -
  have inv: "whole_inv t w" and rinv: "race_inv (observer_view w)" using assms(2) by (simp_all add: all_inv_def)
  have "observer_view w' = observer_view w \<or>
      (work_left (observer_view w'), work_left (observer_view w)) \<in> less_than <*lex*> less_than"
    using calm_inside_view [OF assms] calm_step_decreases [OF _ rinv] by blast
  moreover have "signals_left w' < signals_left w \<or> signals_left w' = signals_left w \<and>
      calm_step (observer_view w) (observer_view w')"
    using assms(1) [unfolded calm_inside_def, THEN conjunct1]
  proof cases
    case (take_turn t' raised)
    have "trap_inv t (wh_trap w)" using inv by (simp add: whole_inv_def)
    from turn_signals_left [OF take_turn(4) this take_turn(2,5)] take_turn(1) show ?thesis by simp
  next
    case (emit sig rest)
    then show ?thesis by (simp add: signals_left_def)
  next
    case (observe o')
    then have "race_step False (observer_view w) (observer_view w')" using observe_view inv by blast
    then have "calm_step (observer_view w) (observer_view w')"
      using assms(1) observe unfolding calm_inside_def calm_step_def by simp
    with observe show ?thesis by (simp add: signals_left_def)
  qed
  then have "signals_left w' < signals_left w \<or> signals_left w' = signals_left w \<and>
      (work_left (observer_view w'), work_left (observer_view w)) \<in> less_than <*lex*> less_than"
    using calm_step_decreases [OF _ rinv] by blast
  ultimately show ?thesis unfolding lex_less_iff whole_left_def by auto
qed

interpretation whole_calm: terminating_system "\<lambda>w. \<exists>w0. whole_initial t w0 \<and> (whole_step False)\<^sup>*\<^sup>* w0 w"
  calm_inside "all_inv t" whole_left for t
proof
  show "all_inv t w" if "\<exists>w0. whole_initial t w0 \<and> (whole_step False)\<^sup>*\<^sup>* w0 w" for w
  proof -
    from that obtain w0 where r: "(whole_step False)\<^sup>*\<^sup>* w0 w" and i: "whole_initial t w0" by blast
    from race_known.reach_inv [OF whole_parts(2) [OF r i]] whole.reach_inv [OF r i] show ?thesis
      by (simp add: all_inv_def)
  qed
qed (use all_inv_step calm_inside_decreases in blast)+

text \<open>Where the observer could go on, the system can.\<close>

lemma emit_calm:
  assumes "wh_queue w \<noteq> []" and "rs_handler (wh_obs w) = Idle"
  shows "\<exists>w'. calm_inside w w'"
proof -
  from assms(1) obtain sig rest where "wh_queue w = sig # rest" by (cases "wh_queue w") auto
  from inside_step.emit [OF this assms(2), of False] show ?thesis unfolding calm_inside_def by (auto split: if_splits)
qed

lemma turn_calm:
  assumes "whole_inv t w" and "wh_queue w = []" and "rs_handler (wh_obs w) = Idle"
    and "state (ts_trap (wh_trap w)) = running" and "ts_pending (wh_trap w) \<noteq> {}"
  shows "\<exists>w'. calm_inside w w'"
proof -
  have "trap_inv t (wh_trap w)" using assms(1) by (simp add: whole_inv_def)
  with turn_enabled assms(4,5) obtain t' where t': "turn (wh_trap w) t'" by blast
  then have "\<exists>raised. ts_history t' = ts_history (wh_trap w) @ map Relayed raised"
    by (induction rule: turn.induct) auto
  with inside_step.take_turn [OF assms(2,3) t', of _ False] show ?thesis
    unfolding calm_inside_def by fastforce
qed

lemma observe_calm:
  assumes "race_step False (wh_obs w) o'" and "\<not> rs_sigchld o'" and "rs_entered o' = rs_entered (wh_obs w)"
    and "\<And>p. rs_proc o' p = Living \<longleftrightarrow> rs_proc (wh_obs w) p = Living"
  shows "\<exists>w'. calm_inside w w'"
  using inside_step.observe [OF assms(1,2)] assms(3,4) unfolding calm_inside_def by fastforce

lemma calm_lift:
  assumes inv: "whole_inv t w" and run: "state (ts_trap (wh_trap w)) = running"
    and calm: "calm_step (observer_view w) x"
  shows "\<exists>w'. calm_inside w w'"
proof (cases "wh_queue w \<noteq> [] \<and> rs_handler (wh_obs w) = Idle")
  case False
  have flag: "\<not> rs_sigchld (wh_obs w)" using inv by (simp add: whole_inv_def)
  have h: "rs_handler (observer_view w) = rs_handler (wh_obs w)"
    using False inv by (auto simp: observer_view_def whole_inv_def)
  have keep: "rs_entered x = rs_entered (wh_obs w)" "rs_proc x p = Living \<longleftrightarrow> rs_proc (wh_obs w) p = Living" for p
    using calm by (simp_all add: calm_step_def)
  from calm have "race_step False (observer_view w) x" by (simp add: calm_step_def)
  then show ?thesis
  proof cases
    case handler_start
    then show ?thesis using turn_calm [OF inv _ _ run] False h by auto
  next
    case (handler_reap p)
    with flag h show ?thesis by (intro observe_calm [OF race_step.handler_reap [of "wh_obs w" p]]) auto
  next
    case handler_done
    with flag h show ?thesis by (intro observe_calm [OF race_step.handler_done [of "wh_obs w"]]) auto
  next
    case (handler_round p)
    with flag h show ?thesis by (intro observe_calm [OF race_step.handler_round [of "wh_obs w" p]]) (auto simp: report_death_def)
  next
    case (add_alive i p)
    with flag h show ?thesis by (intro observe_calm [OF race_step.add_alive [of "wh_obs w" i p]]) auto
  next
    case (add_dead i p)
    with flag h show ?thesis by (intro observe_calm [OF race_step.add_dead [of "wh_obs w" i p]]) auto
  next
    case (add_report i p)
    with flag h show ?thesis by (intro observe_calm [OF race_step.add_report [of "wh_obs w" i p]]) (auto simp: report_death_def)
  next
    case (spawn p)
    then show ?thesis using keep(2) [of p] by auto
  next
    case (die p)
    then show ?thesis using keep(2) [of p] by auto
  next
    case stray
    then show ?thesis using calm by (simp add: calm_step_def)
  next
    case (add_insert i p)
    then show ?thesis using keep(1) by simp
  qed
qed (simp add: emit_calm)

lemma whole_rest:
  assumes "all_inv t w" and run: "state (ts_trap (wh_trap w)) = running" and stuck: "\<And>w'. \<not> calm_inside w w'"
  shows "ts_pending (wh_trap w) = {} \<and> wh_queue w = [] \<and> rs_handler (wh_obs w) = Idle \<and> rs_guard (wh_obs w) = None \<and>
    rs_proc (wh_obs w) p \<noteq> Dead \<and>
    (p \<in> set (rs_entered (wh_obs w)) \<and> rs_proc (wh_obs w) p \<noteq> Living \<longrightarrow> p \<in> set (rs_died (wh_obs w)))"
proof -
  have inv: "whole_inv t w" and r: "race_inv (observer_view w)" using assms(1) by (simp_all add: all_inv_def)
  have none: "\<not> calm_step (observer_view w) x" for x using calm_lift [OF inv run] stuck by blast
  from calm_end [OF r none] have g: "rs_guard (wh_obs w) = None" and h: "rs_handler (observer_view w) = Idle" by simp_all
  then have idle: "rs_handler (wh_obs w) = Idle" by (simp add: observer_view_def split: if_splits)
  then have q: "wh_queue w = []" using emit_calm stuck by blast
  then have "ts_pending (wh_trap w) = {}" using turn_calm [OF inv _ idle run] stuck by blast
  with q idle g calm_rest [OF r none, of p] show ?thesis by simp
qed

lemma calm_keeps_running:
  assumes "calm_inside\<^sup>*\<^sup>* w w'" and "all_inv t w" and "state (ts_trap (wh_trap w)) = running" and "ts_counter (wh_trap w) = 0"
  shows "all_inv t w' \<and> state (ts_trap (wh_trap w')) = running \<and> ts_counter (wh_trap w') = 0 \<and>
    rs_entered (wh_obs w') = rs_entered (wh_obs w) \<and>
    (\<forall>p. rs_proc (wh_obs w') p = Living \<longleftrightarrow> rs_proc (wh_obs w) p = Living)"
  using assms(1)
proof (induction rule: rtranclp_induct)
  case base
  then show ?case using assms by simp
next
  case (step v v')
  have step': "inside_step False v v'" using step.hyps(2) by (simp add: calm_inside_def)
  have "trap_inv t (wh_trap v)" using step.IH by (simp add: all_inv_def whole_inv_def)
  then have "state (ts_trap (wh_trap v')) = running \<and> ts_counter (wh_trap v') = 0"
    using step' step.IH turn_effect by (auto elim!: inside_step.cases)
  with step.IH step.hyps(2) all_inv_step [OF step.hyps(2)] show ?case by (simp add: calm_inside_def)
qed

text \<open>A run in which the child 7 is observed and dies.\<close>

definition watching :: whole where
  "watching = \<lparr>wh_trap = chld_start, wh_obs = race_start, wh_queue = []\<rparr>"

lemma watching_initial: "whole_initial chld_trap watching"
  by (auto simp: whole_initial_def watching_def trap_initial_def chld_start_def chld_trap_def trap_has_def sig_chld_def
      signal_info_buffer_size_def sigismember_def bit_sigaddset valid_signo_def intro!: exI [of _ "[0, 0, 0, 0, 0]"])

lemma watched_death:
  obtains w where "(whole_step False)\<^sup>*\<^sup>* watching w" "state (ts_trap (wh_trap w)) = running" "ts_counter (wh_trap w) = 0"
    "ts_pending (wh_trap w) = {17}" "rs_entered (wh_obs w) = [7]" "rs_died (wh_obs w) = []" "rs_proc (wh_obs w) 7 = Dead"
proof -
  let ?t = "chld_start\<lparr>ts_trap := chld_trap\<lparr>state := running\<rparr>, ts_buffer := [0, 0, 0, 0, 0]\<rparr>"
  let ?t' = "?t\<lparr>ts_pending := insert 17 (ts_pending ?t), ts_history := ts_history ?t @ [Arrived 17]\<rparr>"
  let ?o1 = "race_start\<lparr>rs_proc := (rs_proc race_start)(7 := Living)\<rparr>"
  let ?o2 = "?o1\<lparr>rs_guard := Some 0, rs_adder := (rs_adder ?o1)(0 := Inserted 7),
      rs_children := insert 7 (rs_children ?o1), rs_entered := rs_entered ?o1 @ [7]\<rparr>"
  let ?o3 = "?o2\<lparr>rs_guard := None, rs_adder := (rs_adder ?o2)(0 := Adder_Out)\<rparr>"
  let ?o4 = "?o3\<lparr>rs_proc := (rs_proc ?o3)(7 := Dead)\<rparr>"
  have "around chld_start ?t"
    using around.start [of chld_start "[0, 0, 0, 0, 0]"] by (simp add: chld_start_def chld_trap_def signal_info_buffer_size_def)
  then have s1: "whole_step False watching (watching\<lparr>wh_trap := ?t\<rparr>)"
    unfolding whole_step_def by (intro disjI2 outside_step.trap) (simp_all add: watching_def race_start_def)
  have o: "race_step False race_start ?o1" "race_step False ?o1 ?o2" "race_step False ?o2 ?o3"
    by (rule spawn [of _ 7] add_insert [of _ 0 7] add_alive [of _ 0 7]; simp add: race_start_def)+
  have obs: "whole_step False (watching\<lparr>wh_trap := ?t, wh_obs := o1\<rparr>) (watching\<lparr>wh_trap := ?t, wh_obs := o2\<rparr>)"
    if "race_step False o1 o2" "\<not> rs_sigchld o2" for o1 o2
    using inside_step.observe [of False "watching\<lparr>wh_trap := ?t, wh_obs := o1\<rparr>" o2] that by (simp add: whole_step_def)
  have "trapped (ts_trap ?t) 17"
    by (simp add: trapped_def chld_start_def chld_trap_def sigismember_def bit_sigaddset valid_signo_def)
  then have "around ?t ?t'" by (rule around.arrive)
  then have s5: "whole_step False (watching\<lparr>wh_trap := ?t, wh_obs := ?o3\<rparr>) (watching\<lparr>wh_trap := ?t', wh_obs := ?o4\<rparr>)"
    using outside_step.death [of "watching\<lparr>wh_trap := ?t, wh_obs := ?o3\<rparr>" 7 ?t'] by (simp add: whole_step_def)
  have "watching\<lparr>wh_trap := ?t\<rparr> = watching\<lparr>wh_trap := ?t, wh_obs := race_start\<rparr>" by (simp add: watching_def)
  with s1 obs [OF o(1)] obs [OF o(2)] obs [OF o(3)] s5
  have "(whole_step False)\<^sup>*\<^sup>* watching (watching\<lparr>wh_trap := ?t', wh_obs := ?o4\<rparr>)"
    by (simp add: race_start_def)
  then show ?thesis by (rule that) (simp_all add: chld_start_def race_start_def)
qed

section \<open>Properties\<close>

text \<open>
  C12: the parts work together as they do alone. In every run of the whole, however deaths,
  arrivals of signals, calls of \<open>add\<close>, \<open>stop\<close> and \<open>run\<close> and the turns of the loop interleave, the trap
  goes through a run of theory \<open>Trap_System\<close>, and the observer, whose handler is now called by the
  trap once its signal's turn comes, through a run of theory \<open>Observer_Race\<close>, in which the handler
  starts by itself. What is proved of each holds of the whole.
\<close>

theorem trap_and_observer_refine:
  assumes "whole_initial t w0" and "(whole_step reuse)\<^sup>*\<^sup>* w0 w"
  shows "trap_reachable t (wh_trap w) \<and> (race_step reuse)\<^sup>*\<^sup>* race_start (observer_view w)"
  using whole_parts [OF assms(2,1)] by simp

theorem trap_and_observer_refine_witness:
  "\<exists>w. (whole_step False)\<^sup>*\<^sup>* watching w \<and> 17 \<in> ts_pending (wh_trap w) \<and> rs_proc (wh_obs w) 7 = Dead \<and>
     trap_reachable chld_trap (wh_trap w) \<and> (race_step False)\<^sup>*\<^sup>* race_start (observer_view w)"
proof -
  obtain w where w: "(whole_step False)\<^sup>*\<^sup>* watching w" "ts_pending (wh_trap w) = {17}" "rs_proc (wh_obs w) 7 = Dead"
    by (rule watched_death)
  with trap_and_observer_refine [OF watching_initial w(1)] show ?thesis by auto
qed

text \<open>
  C11: from a death to its report. Take any state of the whole in which \<open>run\<close> is running and no \<open>stop\<close>
  is outstanding. If from then on no child is born or dies, no signal arrives, and no \<open>add\<close>, \<open>run\<close>
  or \<open>stop\<close> is called, the threads at work come to a halt, and then no signal is pending or left
  to be emitted, no child is dead and unreaped, and every child that was put into the map and
  does not live has been reported.
\<close>

theorem deaths_reach_subscribers:
  assumes "whole_initial t w0" and "(whole_step False)\<^sup>*\<^sup>* w0 w"
    and "state (ts_trap (wh_trap w)) = running" and "ts_counter (wh_trap w) = 0"
  shows "\<not> (\<exists>r. r 0 = w \<and> (\<forall>n. calm_inside (r n) (r (Suc n)))) \<and>
    (\<forall>w'. calm_inside\<^sup>*\<^sup>* w w' \<longrightarrow> (\<forall>w''. \<not> calm_inside w' w'') \<longrightarrow>
      ts_pending (wh_trap w') = {} \<and> wh_queue w' = [] \<and> (\<forall>p. rs_proc (wh_obs w') p \<noteq> Dead) \<and>
      (\<forall>p \<in> set (rs_entered (wh_obs w')). rs_proc (wh_obs w') p \<noteq> Living \<longrightarrow> p \<in> set (rs_died (wh_obs w'))))"
proof -
  have start: "\<exists>w0. whole_initial t w0 \<and> (whole_step False)\<^sup>*\<^sup>* w0 w" using assms(1,2) by blast
  then have inv: "all_inv t w" by (rule whole_calm.start_inv)
  have "\<not> (\<exists>r. r 0 = w \<and> (\<forall>n. calm_inside (r n) (r (Suc n))))" using whole_calm.no_infinite_run start by blast
  moreover have "ts_pending (wh_trap w') = {} \<and> wh_queue w' = [] \<and> rs_proc (wh_obs w') p \<noteq> Dead \<and>
      (p \<in> set (rs_entered (wh_obs w')) \<longrightarrow> rs_proc (wh_obs w') p \<noteq> Living \<longrightarrow> p \<in> set (rs_died (wh_obs w')))"
    if "calm_inside\<^sup>*\<^sup>* w w'" and "\<forall>w''. \<not> calm_inside w' w''" for w' p
    using calm_keeps_running [OF that(1) inv assms(3,4)] whole_rest [of t w' p] that(2) by blast
  ultimately show ?thesis by blast
qed

theorem deaths_reach_subscribers_witness:
  "\<exists>w w'. (whole_step False)\<^sup>*\<^sup>* watching w \<and> rs_died (wh_obs w) = [] \<and> calm_inside\<^sup>*\<^sup>* w w' \<and>
     (\<forall>w''. \<not> calm_inside w' w'') \<and> ts_pending (wh_trap w') = {} \<and> 7 \<in> set (rs_died (wh_obs w'))"
proof -
  obtain w where w: "(whole_step False)\<^sup>*\<^sup>* watching w" "state (ts_trap (wh_trap w)) = running" "ts_counter (wh_trap w) = 0"
    "rs_entered (wh_obs w) = [7]" "rs_died (wh_obs w) = []" "rs_proc (wh_obs w) 7 = Dead"
    by (rule watched_death)
  have s: "\<exists>w0. whole_initial chld_trap w0 \<and> (whole_step False)\<^sup>*\<^sup>* w0 w" using w(1) watching_initial by blast
  from whole_calm.reach_end [OF s] obtain w' where w': "calm_inside\<^sup>*\<^sup>* w w'" "\<forall>w''. \<not> calm_inside w' w''" by blast
  from calm_keeps_running [OF w'(1) whole_calm.start_inv [OF s] w(2,3)] w(4,6)
  have "7 \<in> set (rs_entered (wh_obs w'))" "rs_proc (wh_obs w') 7 \<noteq> Living" by simp_all
  with deaths_reach_subscribers [OF watching_initial w(1-3)] w' have
    "ts_pending (wh_trap w') = {}" "7 \<in> set (rs_died (wh_obs w'))" by blast+
  with w(1,5) w' show ?thesis by blast
qed

end
