(* ===== verification/Fork_Siblings.thy ===== *)
theory Fork_Siblings
  imports Fork
begin

text \<open>
  Several children of one process (\<open>fork.cpp\<close>): a child starts with a copy of all descriptors of
  its parent, also of those through which the parent talks to its other children, and nothing
  in \<open>fork\<close> closes them or marks them close-on-exec.
\<close>

lemma fork_child_inherits:
  assumes "fd_kernel K fdt" and "s = None \<or> s = Some closed_pipe" and "{0, 1, 2} \<subseteq> dom (fdt k)"
    and "fr_parent (posix_fork K env main flags s k) = Inr c"
    and "fr_child (posix_fork K env main flags s k) = Some ch" and "cr_main ch = Some km"
    and "fdt k fd = Some d" and "fd \<notin> {0, 1, 2}"
  shows "fdt km fd = Some d"
proof -
  let ?in = "stream_set flags stream_stdin" and ?out = "stream_set flags stream_stdout"
    and ?err = "stream_set flags stream_stderr"
  from fd_kernel.posix_fork_success [OF assms(1,2,4)] obtain pin pout perr i j l kc k3 where
    o: "three_opened ?in ?out ?err (fdt k) pin pout perr (fdt k3) i j l" and kc: "fdt kc = fdt k3"
    and ch: "fr_child (posix_fork K env main flags s k) = Some (fork_child K env main flags pin pout perr kc)"
    by metis
  from ch assms(5,6) obtain ps where cs: "child_streams K flags pin pout perr kc = (Inr (), ps, km)"
    by (auto simp: fork_child_def split: prod.splits sum.splits)
  note ct = fd_kernel.child_streams_table [OF assms(1) cs]
  have child: "fdt km = (\<lambda>x. if x = 0 \<and> ?in then Some (Pipe_Read i) else if x = 1 \<and> ?out then Some (Pipe_Write j)
      else if x = 2 \<and> ?err then Some (Pipe_Write l)
      else if x \<in> {write_fd pin, read_fd pout, read_fd perr} then None else fdt k3 x)"
    using child_table_eq [OF o assms(3) fd_kernel.fdt_minus_one [OF assms(1)] ct(2-4)] ct(1) by (simp add: kc)
  note tab = three_opened_table [OF o]
  have "fd \<noteq> - 1" using fd_kernel.fdt_minus_one [OF assms(1), of k] assms(7) by auto
  moreover have out: "fd \<notin> pipe_fds pin" "fd \<notin> pipe_fds pout" "fd \<notin> pipe_fds perr"
    using tab(2-4) assms(7) by auto
  ultimately have "fd \<notin> {write_fd pin, read_fd pout, read_fd perr}" by (auto simp: pipe_fds_def)
  moreover have "fdt k3 fd = Some d" using out assms(7) by (subst tab(1)) simp
  ultimately show ?thesis using assms(8) by (simp add: child)
qed

text \<open>
  C25: a later child keeps an earlier child's standard input open. When a process has forked a
  first child with its standard input redirected and then forks a second one, the second holds
  the writing end of the first one's input. The parent may destroy both objects, after which
  its descriptors are those before and none of them is a writing end of that pipe; the first
  child still sees no end of file while the second child lives.
\<close>

theorem fork_sibling_holds_stdin:
  assumes K: "fd_kernel K fdt" and std: "{0, 1, 2} \<subseteq> dom (fdt k)"
    and s1: "s1 = None \<or> s1 = Some closed_pipe"
    and want: "stream_set flags1 stream_stdin"
    and r1: "fr_parent (posix_fork K env main1 flags1 s1 k) = Inr c1"
      "fr_child (posix_fork K env main1 flags1 s1 k) = Some ch1" "cr_main ch1 = Some km1"
    and cin: "ChildProcess_cin c1 \<noteq> - 1"
    and k1: "k1 = fr_kernel (posix_fork K env main1 flags1 s1 k)"
    and s2: "s2 = fr_static (posix_fork K env main1 flags1 s1 k)"
    and r2: "fr_parent (posix_fork K env main2 flags2 s2 k1) = Inr c2"
      "fr_child (posix_fork K env main2 flags2 s2 k1) = Some ch2" "cr_main ch2 = Some km2"
    and k2: "k2 = fr_kernel (posix_fork K env main2 flags2 s2 k1)"
  shows "\<exists>n. fdt km1 0 = Some (Pipe_Read n) \<and> Pipe_Write n \<in> ran (fdt km2) \<and>
    fdt (Private_dtor K (child_d c1) (Private_dtor K (child_d c2) k2)) = fdt k \<and> Pipe_Write n \<notin> ran (fdt k)"
proof -
  have st: "s2 = None \<or> s2 = Some closed_pipe" unfolding s2 by (rule fd_kernel.posix_fork_frame(3) [OF K s1])
  from posix_fork_wired [OF K s1 std r1] want cin obtain n where
    n: "new_pipe_number (fdt k) n" "fdt km1 0 = Some (Pipe_Read n)" "fdt k1 (ChildProcess_cin c1) = Some (Pipe_Write n)"
    by (auto simp: Let_def stream_wired_def k1)
  note l1 = fd_kernel.posix_fork_frame(2) [OF K s1 r1(1), folded k1]
    and l2 = fd_kernel.posix_fork_frame(2) [OF K st r2(1), folded k2]
  from l1 have sub: "fdt k x = Some y \<Longrightarrow> fdt k1 x = Some y" for x y
    by (metis (mono_tags) option.distinct(1) restrict_map_def)
  then have std1: "{0, 1, 2} \<subseteq> dom (fdt k1)" using std by blast
  have "fdt k1 x = Some (Pipe_Write n) \<Longrightarrow> x \<notin> dom (fdt k)" for x
    using sub n(1) by (fastforce simp: new_pipe_number_def ran_def)
  with n(3) std have "ChildProcess_cin c1 \<notin> {0, 1, 2}" by blast
  from fork_child_inherits [OF K st std1 r2 n(3) this] have "Pipe_Write n \<in> ran (fdt km2)" by (rule ranI)
  moreover have "fdt (Private_dtor K (child_d c1) (Private_dtor K (child_d c2) k2)) = fdt k"
    using l1 l2 by (simp add: fd_kernel.Private_dtor_fdt [OF K])
  moreover have "Pipe_Write n \<notin> ran (fdt k)" using n(1) by (simp add: new_pipe_number_def)
  ultimately show ?thesis using n(2) by blast
qed

definition second_fork :: "(ref_kernel, nat) fork_result" where
  "second_fork = posix_fork ref_api sample_env sample_main sample_flags (fr_static sample_fork) (fr_kernel sample_fork)"

lemma second_fork_shape:
  "\<not> isl (fr_parent second_fork)" "fr_child second_fork \<noteq> None" "cr_main (the (fr_child second_fork)) \<noteq> None"
  by code_simp+

theorem fork_sibling_holds_stdin_witness:
  "\<exists>n ch1 ch2. fr_child sample_fork = Some ch1 \<and> fr_child second_fork = Some ch2 \<and>
     rk_fdt (the (cr_main ch1)) 0 = Some (Pipe_Read n) \<and> Pipe_Write n \<in> ran (rk_fdt (the (cr_main ch2)))"
proof -
  from sample_fork_shape obtain c1 ch1 km1 where r1: "fr_parent sample_fork = Inr c1"
    "fr_child sample_fork = Some ch1" "cr_main ch1 = Some km1" by (cases "fr_parent sample_fork") auto
  from second_fork_shape obtain c2 ch2 km2 where r2: "fr_parent second_fork = Inr c2"
    "fr_child second_fork = Some ch2" "cr_main ch2 = Some km2" by (cases "fr_parent second_fork") auto
  have std: "{0, 1, 2} \<subseteq> dom (rk_fdt (ref_boot 16))" by (auto simp: rk_fdt_def ref_boot_def)
  have "stream_set sample_flags stream_stdin" by code_simp
  moreover have "ChildProcess_cin (projr (fr_parent sample_fork)) \<noteq> - 1" by code_simp
  then have "ChildProcess_cin c1 \<noteq> - 1" by (simp add: r1(1))
  ultimately show ?thesis
    using fork_sibling_holds_stdin [OF rk.fd_kernel_axioms std disjI1 [OF refl] _
        r1(1,2) [unfolded sample_fork_def] r1(3) _ refl refl r2(1,2) [unfolded second_fork_def sample_fork_def] r2(3) refl]
      r1 r2 by auto
qed

end
