(* ===== verification/Observed_Fork.thy ===== *)
theory Observed_Fork
  imports Fork_Siblings Observer_Liveness
begin

text \<open>
  \<open>fork\<close> and the death observer together: a child is forked, given to \<open>add\<close>, and dies, before or
  after that.
\<close>

lemma posix_fork_pid:
  assumes "fd_kernel K fdt" and "s = None \<or> s = Some closed_pipe"
    and "fr_parent (posix_fork K env main flags s k) = Inr c"
  shows "0 < Process_pid c"
proof -
  from fd_kernel.posix_fork_success [OF assms] obtain pin pout perr pid k3 where "0 < pid"
    and "fork_parent K pid pin pout perr k3 = (Inr c, fr_kernel (posix_fork K env main flags s k))" by metis
  then show ?thesis
    by (auto simp: fork_parent_def Let_def Process_pid_def run_iff split: prod.splits)
qed

lemma count_reported:
  assumes "reported ob ob' D ds" and "observer_ok ob"
  shows "count_list ds c = of_bool (Process_pid c \<in> D \<and> children ob (Process_pid c) = Some c)"
proof -
  from assms(1) have ds: "distinct ds" "set ds = {c. \<exists>pid \<in> D. children ob pid = Some c}"
    by (auto simp: reported_def distinct_map)
  have "c \<in> set ds \<longleftrightarrow> Process_pid c \<in> D \<and> children ob (Process_pid c) = Some c"
    using assms(2) ds(2) by (auto simp: observer_ok_def)
  with ds(1) show ?thesis by (simp add: count_list_distinct)
qed

text \<open>
  C14: the death of a forked child that is given to the observer is reported exactly once. Whether
  the child is dead when \<open>add\<close> asks, so that \<open>add\<close> reports it, or dies later and is dead when the
  handler runs next, it is reported once more than before, and it is observed no longer.
\<close>

theorem forked_child_reported_once:
  assumes "fd_kernel K fdt" and "wait_kernel K dead" and "\<forall>c k. dead (react c k) = dead k"
    and "s = None \<or> s = Some closed_pipe" and "fr_parent (posix_fork K env main flags s k) = Inr c"
    and "observer_ok ob" and "\<not> has ob c"
    and "add K react c ob (fr_kernel (posix_fork K env main flags s k)) = (b, ob1, k2)"
    and "b \<longrightarrow> Process_pid c \<in> dom (dead k3)"
  shows "\<exists>ob2 k4. on_sig_child K react ob1 k3 = Some (ob2, k4) \<and>
    count_list (died ob2) c = count_list (died ob) c + 1 \<and> \<not> has ob2 c"
proof -
  have "Process_pid c \<noteq> - 1" using posix_fork_pid [OF assms(1,4,5)] by simp
  with assms(7,8) have add: "if b then died ob1 = died ob \<and> children ob1 (Process_pid c) = Some c
      else died ob1 = died ob @ [c] \<and> children ob1 (Process_pid c) = None"
    by (auto simp: add_def has_def Let_def split: prod.splits if_splits sum.splits)
  have ok: "observer_ok ob1" using assms(6,8) by (rule observer_ok_add)
  from wait_kernel.on_sig_child_spec [OF assms(2) _ ok, of react k3] assms(3) obtain ob2 k4 ds where
    run: "on_sig_child K react ob1 k3 = Some (ob2, k4)" and rep: "reported ob1 ob2 (dom (dead k3)) ds" by blast
  have "count_list (died ob2) c = count_list (died ob1) c + count_list ds c"
    and "children ob2 = children ob1 |` (- dom (dead k3))" using rep by (simp_all add: reported_def)
  with count_reported [OF rep ok, of c] add assms(9) have
    "count_list (died ob2) c = count_list (died ob) c + 1 \<and> \<not> has ob2 c"
    by (cases b) (auto simp: has_def restrict_map_def)
  with run show ?thesis by blast
qed

theorem forked_child_reported_once_witness:
  "\<exists>c ob1 k2 ob2 k4. fr_parent sample_fork = Inr c \<and>
     add ref_api (\<lambda>c k. k) c \<lparr>children = Map.empty, died = []\<rparr> (fr_kernel sample_fork) = (True, ob1, k2) \<and>
     on_sig_child ref_api (\<lambda>c k. k) ob1 (k2\<lparr>rk_children := [(101, 100, Zombie (Ev_Exited 0))]\<rparr>) = Some (ob2, k4) \<and>
     count_list (died ob2) c = 1"
proof -
  let ?ob = "\<lparr>children = Map.empty, died = []\<rparr>"
  from sample_fork_shape(1) obtain c where c: "fr_parent sample_fork = Inr c" by (cases "fr_parent sample_fork") auto
  obtain b ob1 k2 where a: "add ref_api (\<lambda>c k. k) c ?ob (fr_kernel sample_fork) = (b, ob1, k2)" by (metis prod_cases3)
  have "fst (add ref_api (\<lambda>c k. k) (projr (fr_parent sample_fork)) ?ob (fr_kernel sample_fork))" by code_simp
  with a c have b by simp
  have "rk_pgid (snd (snd (add ref_api (\<lambda>c k. k) (projr (fr_parent sample_fork)) ?ob (fr_kernel sample_fork)))) = 100"
    by code_simp
  with a c have pg: "rk_pgid k2 = 100" by simp
  have "Process_pid (projr (fr_parent sample_fork)) = 101" by code_simp
  with c have pid: "Process_pid c = 101" by simp
  let ?k3 = "k2\<lparr>rk_children := [(101, 100, Zombie (Ev_Exited 0))]\<rparr>"
  have "Process_pid c \<in> dom (rk_dead ?k3)"
    by (simp add: pid pg rk_dead_def rk_dead_list_def rk_dead_of_def rk_waitable_def rk_addressed_def dom_def)
  then obtain ob2 k4 where "on_sig_child ref_api (\<lambda>c k. k) ob1 ?k3 = Some (ob2, k4)"
    "count_list (died ob2) c = count_list (died ?ob) c + 1"
    using forked_child_reported_once [OF rk.fd_kernel_axioms rk.wait_kernel_axioms _ disjI1 [OF refl]
        c [unfolded sample_fork_def] _ _ a [unfolded sample_fork_def], of ?k3]
    by (auto simp: observer_ok_def has_def)
  with c a \<open>b\<close> show ?thesis by auto
qed

end
