(* ===== verification/Observer_Lifetime.thy ===== *)
theory Observer_Lifetime
  imports Transition_Systems
begin

text \<open>
  The life of a death observer (\<open>DeathObserverImpl\<close> of \<open>child_process.cpp\<close>). Its members are built
  in the order of their declaration and destroyed in the opposite order; the slot is connected
  to the trap when the connection is built and disconnected when it is destroyed, and the thread
  that runs the trap may call it at any time between. A destroyed member is not to be used.
\<close>

section \<open>Members and steps\<close>

datatype member = M_guard | M_children | M_connection | M_signals

definition member_order :: "member list" where
  "member_order = [M_guard, M_children, M_connection, M_signals]"

text \<open>
  \<open>built\<close> counts the members that are alive, a prefix of the order; \<open>dying\<close> says that destruction
  has begun, by the destructor or because the constructor throws; \<open>misused\<close> records a use of a
  member that is not alive.
\<close>

record life_sys =
  built :: nat
  dying :: bool
  observed :: "int set"
  misused :: bool

definition alive :: "life_sys \<Rightarrow> member set" where
  "alive s = set (take (built s) member_order)"

text \<open>
  What the slot uses when it has reaped the child \<open>p\<close>: it locks \<open>guard\<close> and looks \<open>p\<close> up in
  \<open>children\<close>, and emits \<open>signals.child_died\<close> if it finds it there.
\<close>

definition slot_uses :: "int \<Rightarrow> life_sys \<Rightarrow> member set" where
  "slot_uses p s = {M_guard, M_children} \<union> (if p \<in> observed s then {M_signals} else {})"

inductive life_step :: "life_sys \<Rightarrow> life_sys \<Rightarrow> bool" where
  build: "\<not> dying s \<Longrightarrow> built s < length member_order \<Longrightarrow> life_step s (s\<lparr>built := built s + 1\<rparr>)"
| observe: "\<not> dying s \<Longrightarrow> built s = length member_order \<Longrightarrow> life_step s (s\<lparr>observed := insert p (observed s)\<rparr>)"
| slot: "M_connection \<in> alive s \<Longrightarrow>
    life_step s (s\<lparr>observed := observed s - {p}, misused := (misused s \<or> \<not> slot_uses p s \<subseteq> alive s)\<rparr>)"
| end_life: "\<not> dying s \<Longrightarrow> built s = length member_order \<Longrightarrow> life_step s (s\<lparr>dying := True\<rparr>)"
| destroy: "dying s \<Longrightarrow> 0 < built s \<Longrightarrow> life_step s (s\<lparr>built := built s - 1\<rparr>)"

definition life_start :: life_sys where
  "life_start = \<lparr>built = 0, dying = False, observed = {}, misused = False\<rparr>"

section \<open>The invariant\<close>

lemma alive_connection: "built s \<le> 4 \<Longrightarrow> M_connection \<in> alive s \<longleftrightarrow> 3 \<le> built s"
  by (auto simp: alive_def member_order_def take_Cons' split: if_splits)

lemma alive_three: "3 \<le> built s \<Longrightarrow> {M_guard, M_children, M_connection} \<subseteq> alive s"
  by (simp add: alive_def member_order_def take_Cons')

lemma alive_four: "4 \<le> built s \<Longrightarrow> M_signals \<in> alive s"
  by (simp add: alive_def member_order_def take_Cons')

definition life_inv :: "life_sys \<Rightarrow> bool" where
  "life_inv s \<longleftrightarrow> built s \<le> 4 \<and> (\<not> dying s \<and> built s < 4 \<longrightarrow> observed s = {}) \<and> (misused s \<longrightarrow> dying s)"

interpretation life: invariant_system "\<lambda>s. s = life_start" life_step life_inv
proof
  show "life_inv s" if "s = life_start" for s using that by (simp add: life_inv_def life_start_def)
  show "life_inv s'" if "life_step s s'" and "life_inv s" for s s'
    using that
  proof (induction rule: life_step.induct)
    case (slot s p)
    then have three: "3 \<le> built s" using alive_connection by (simp add: life_inv_def)
    have "slot_uses p s \<subseteq> alive s" if "\<not> dying s"
      using alive_three [OF three] alive_four [of s] slot.prems that
      by (cases "built s = 4") (auto simp: slot_uses_def life_inv_def)
    with slot.prems show ?case by (auto simp: life_inv_def)
  qed (auto simp: life_inv_def member_order_def)
qed

lemma life_built: "n \<le> 4 \<Longrightarrow> life_step\<^sup>*\<^sup>* life_start (life_start\<lparr>built := n\<rparr>)"
proof (induction n)
  case 0
  have "life_start\<lparr>built := 0\<rparr> = life_start" by (simp add: life_start_def)
  then show ?case by simp
next
  case (Suc n)
  have "life_step (life_start\<lparr>built := n\<rparr>) (life_start\<lparr>built := Suc n\<rparr>)"
    using build [of "life_start\<lparr>built := n\<rparr>"] Suc.prems by (simp add: life_start_def member_order_def)
  with Suc show ?case by (simp add: rtranclp.rtrancl_into_rtrancl)
qed

section \<open>Properties\<close>

text \<open>
  C37: the slot is connected before \<open>signals\<close> is built and disconnected after it is destroyed. The
  first is harmless: until destruction begins, no member is used that is not alive, since the
  map is empty while the observer is being built. The second is not: when a child is observed
  and dies while the observer is being destroyed, the slot emits the destroyed signal.
\<close>

theorem observer_destroyed_while_connected:
  "(\<forall>s. life_step\<^sup>*\<^sup>* life_start s \<longrightarrow> \<not> dying s \<longrightarrow> \<not> misused s) \<and>
   (\<exists>s s'. life_step\<^sup>*\<^sup>* life_start s \<and> \<not> misused s \<and> M_connection \<in> alive s \<and> M_signals \<notin> alive s \<and>
      life_step s s' \<and> misused s')"
proof (intro conjI allI impI)
  show "\<not> misused s" if "life_step\<^sup>*\<^sup>* life_start s" and "\<not> dying s" for s
    using life.reach_inv [OF that(1) refl] that(2) by (auto simp: life_inv_def)
  let ?s = "\<lambda>n. life_start\<lparr>built := n\<rparr>"
  let ?o = "(?s 4)\<lparr>observed := {7}\<rparr>" and ?d = "(?s 4)\<lparr>observed := {7}, dying := True\<rparr>"
  have four: "life_step\<^sup>*\<^sup>* life_start (?s 4)" by (simp add: life_built)
  have "life_step (?s 4) ?o" using observe [of "?s 4" 7] by (simp add: life_start_def member_order_def)
  moreover have "life_step ?o ?d" using end_life [of ?o] by (simp add: life_start_def member_order_def)
  moreover have "life_step ?d (?d\<lparr>built := 3\<rparr>)" using destroy [of ?d] by (simp add: life_start_def)
  ultimately have r: "life_step\<^sup>*\<^sup>* life_start (?d\<lparr>built := 3\<rparr>)"
    using four by (meson rtranclp.rtrancl_into_rtrancl)
  have al: "alive (?d\<lparr>built := 3\<rparr>) = {M_guard, M_children, M_connection}"
    by (auto simp: alive_def member_order_def take_Cons')
  then have "life_step (?d\<lparr>built := 3\<rparr>) ((?d\<lparr>built := 3\<rparr>)\<lparr>observed := {}, misused := True\<rparr>)"
    using slot [of "?d\<lparr>built := 3\<rparr>" 7] by (simp add: slot_uses_def)
  with r al show "\<exists>s s'. life_step\<^sup>*\<^sup>* life_start s \<and> \<not> misused s \<and> M_connection \<in> alive s \<and> M_signals \<notin> alive s \<and>
      life_step s s' \<and> misused s'"
    by (intro exI [of _ "?d\<lparr>built := 3\<rparr>"] exI [of _ "(?d\<lparr>built := 3\<rparr>)\<lparr>observed := {}, misused := True\<rparr>"])
      (simp add: life_start_def)
qed

theorem observer_destroyed_while_connected_witness:
  "\<exists>s s'. life_step\<^sup>*\<^sup>* life_start s \<and> M_connection \<in> alive s \<and> M_signals \<notin> alive s \<and>
     life_step s s' \<and> \<not> dying s' \<and> \<not> misused s'"
proof -
  let ?s = "life_start\<lparr>built := 3\<rparr>"
  have al: "alive ?s = {M_guard, M_children, M_connection}"
    by (auto simp: alive_def member_order_def take_Cons')
  then obtain s' where step: "life_step ?s s'" and d: "\<not> dying s'"
    using slot [of ?s 7] by (fastforce simp: life_start_def)
  have r: "life_step\<^sup>*\<^sup>* life_start ?s" by (simp add: life_built)
  from r step have "life_step\<^sup>*\<^sup>* life_start s'" by (rule rtranclp.rtrancl_into_rtrancl)
  with d have "\<not> misused s'" using observer_destroyed_while_connected by blast
  with al r step d show ?thesis by (intro exI [of _ ?s] exI [of _ s']) simp
qed

end
