(* ===== verification/Observer_Reentry.thy ===== *)
theory Observer_Reentry
  imports Observer_Race
begin

text \<open>
  Subscribers that call back into the observer (\<open>DeathObserverImpl\<close> of \<open>child_process.cpp\<close>). The
  signal \<open>child_died\<close> is emitted with \<open>guard\<close> locked, by a round of the handler and by \<open>add\<close>; the mutex
  is not recursive, and \<open>has\<close> locks it too. In theory \<open>Observer_Race\<close> an emission is part of one
  step; here it takes time, while subscribers run in the thread that emits.
\<close>

section \<open>The system\<close>

text \<open>
  \<open>re_emit\<close> is the emission under way: the thread, \<open>None\<close> for the one that runs the trap and \<open>Some i\<close>
  for one in \<open>add\<close>, the child, and the calls of \<open>has\<close> that the subscribers have still to make, of
  which they make \<open>subs p\<close> for the child \<open>p\<close>.
\<close>

record reentry =
  re_core :: race_sys
  re_emit :: "(nat option \<times> int \<times> nat) option"

text \<open>Whether \<open>guard\<close> is locked: by a round of the handler while it emits, or by \<open>add\<close>.\<close>

definition guard_free :: "reentry \<Rightarrow> bool" where
  "guard_free s \<longleftrightarrow> rs_guard (re_core s) = None \<and> (\<forall>p n. re_emit s \<noteq> Some (None, p, n))"

text \<open>
  The other threads as they run beside an emission: they find \<open>guard\<close> locked. The thread that runs the
  trap has no number, so that another holder stands for it.
\<close>

definition locked_core :: "reentry \<Rightarrow> race_sys" where
  "locked_core s =
     (case re_emit s of
        Some (None, _) \<Rightarrow> (re_core s)\<lparr>rs_guard := Some 0\<rparr>
      | _ \<Rightarrow> re_core s)"

text \<open>
  While a thread emits, others make the steps that are possible with the mutex locked, and it makes
  none of its own (\<open>beside\<close>); \<open>has\<close> waits for the mutex; when the subscribers have returned, the child is
  erased and the mutex unlocked.
\<close>

inductive reentry_step :: "(int \<Rightarrow> nat) \<Rightarrow> reentry \<Rightarrow> reentry \<Rightarrow> bool" for subs where
  plain: "re_emit s = None \<Longrightarrow> race_step False (re_core s) c \<Longrightarrow> rs_died c = rs_died (re_core s) \<Longrightarrow>
    reentry_step subs s (s\<lparr>re_core := c\<rparr>)"
| emit_in_round: "re_emit s = None \<Longrightarrow> rs_handler (re_core s) = Reaped p \<Longrightarrow> guard_free s \<Longrightarrow> p \<in> rs_children (re_core s) \<Longrightarrow>
    reentry_step subs s (s\<lparr>re_emit := Some (None, p, subs p)\<rparr>)"
| emit_in_add: "re_emit s = None \<Longrightarrow> rs_adder (re_core s) i = Missed p \<Longrightarrow>
    reentry_step subs s (s\<lparr>re_emit := Some (Some i, p, subs p)\<rparr>)"
| beside: "re_emit s = Some (who, p, n) \<Longrightarrow> race_step False (locked_core s) c \<Longrightarrow>
    (\<And>i. who = Some i \<Longrightarrow> rs_adder c i = rs_adder (re_core s) i) \<Longrightarrow>
    reentry_step subs s (s\<lparr>re_core := c\<lparr>rs_guard := rs_guard (re_core s)\<rparr>\<rparr>)"
| call_has: "re_emit s = Some (who, p, Suc n) \<Longrightarrow> guard_free s \<Longrightarrow> reentry_step subs s (s\<lparr>re_emit := Some (who, p, n)\<rparr>)"
| round_done: "re_emit s = Some (None, p, 0) \<Longrightarrow>
    reentry_step subs s \<lparr>re_core = (report_death p (re_core s))\<lparr>rs_handler := Polling\<rparr>, re_emit = None\<rparr>"
| add_done: "re_emit s = Some (Some i, p, 0) \<Longrightarrow>
    reentry_step subs s \<lparr>re_core = (report_death p (re_core s))\<lparr>rs_guard := None, rs_adder := (rs_adder (re_core s))(i := Adder_Out)\<rparr>,
      re_emit = None\<rparr>"

definition reentry_start :: reentry where
  "reentry_start = \<lparr>re_core = race_start, re_emit = None\<rparr>"

section \<open>The invariant\<close>

text \<open>The thread that emits is where \<open>Observer_Race\<close> has it before its report, with the mutex locked.\<close>

fun emitting_ok :: "race_sys \<Rightarrow> (nat option \<times> int \<times> nat) option \<Rightarrow> bool" where
  "emitting_ok c None \<longleftrightarrow> True"
| "emitting_ok c (Some (None, p, n)) \<longleftrightarrow> rs_handler c = Reaped p \<and> rs_guard c = None \<and> p \<in> rs_children c"
| "emitting_ok c (Some (Some i, p, n)) \<longleftrightarrow> rs_adder c i = Missed p \<and> rs_guard c = Some i"

definition reentry_inv :: "reentry \<Rightarrow> bool" where
  "reentry_inv s \<longleftrightarrow> (race_step False)\<^sup>*\<^sup>* race_start (re_core s) \<and> emitting_ok (re_core s) (re_emit s)"

lemma emitting_locked: "emitting_ok (re_core s) (re_emit s) \<Longrightarrow> re_emit s \<noteq> None \<Longrightarrow> \<not> guard_free s"
  by (cases "(re_core s, re_emit s)" rule: emitting_ok.cases) (auto simp: guard_free_def)

text \<open>What the locked mutex leaves the other threads to do: nothing with the map or with \<open>add\<close>.\<close>

lemma unlocked_adder: "lock_ok c \<Longrightarrow> rs_guard c \<noteq> Some i \<Longrightarrow> rs_adder c i = Adder_Out"
  by (simp add: lock_ok_def)

lemma beside_trap_thread:
  assumes "race_step False (c\<lparr>rs_guard := Some 0\<rparr>) c'" and "lock_ok c" and "rs_guard c = None" and "rs_handler c = Reaped p"
  shows "race_step False c (c'\<lparr>rs_guard := None\<rparr>) \<and> rs_adder c' = rs_adder c \<and> rs_children c' = rs_children c \<and>
    rs_handler c' = rs_handler c \<and> rs_died c' = rs_died c \<and> rs_entered c' = rs_entered c"
  using assms(1)
proof cases
  case (spawn q)
  with race_step.spawn [of c q False] assms(3) show ?thesis by (cases c) simp
next
  case (die q)
  with race_step.die [of c q False] assms(3) show ?thesis by (cases c) simp
next
  case stray
  with race_step.stray [of c False] assms(3) show ?thesis by (cases c) simp
qed (use assms(2-4) unlocked_adder [OF assms(2)] in \<open>simp_all\<close>)

lemma beside_adder:
  assumes "race_step False c c'" and "lock_ok c" and "rs_guard c = Some i" and "rs_adder c i = Missed p"
    and "rs_adder c' i = rs_adder c i"
  shows "rs_guard c' = rs_guard c \<and> rs_adder c' = rs_adder c \<and> rs_children c' = rs_children c \<and>
    rs_died c' = rs_died c \<and> rs_entered c' = rs_entered c"
proof -
  have other: "rs_adder c j = Adder_Out" if "j \<noteq> i" for j using unlocked_adder [OF assms(2), of j] assms(3) that by auto
  have mine: "j = i" if "rs_adder c j \<noteq> Adder_Out" for j using other that by blast
  from assms(1) show ?thesis
  proof cases
    case (add_alive j q)
    with mine [of j] assms(4) show ?thesis by simp
  next
    case (add_dead j q)
    with mine [of j] assms(4) show ?thesis by simp
  next
    case (add_report j q)
    with mine [of j] assms(4,5) show ?thesis by (auto simp: report_death_def)
  qed (use assms(3) in simp_all)
qed

lemma beside_frame:
  assumes "re_emit s = Some (who, p, n)" and "race_step False (locked_core s) c" and "reentry_inv s"
    and "\<And>i. who = Some i \<Longrightarrow> rs_adder c i = rs_adder (re_core s) i"
  shows "reentry_inv (s\<lparr>re_core := c\<lparr>rs_guard := rs_guard (re_core s)\<rparr>\<rparr>) \<and>
    rs_died c = rs_died (re_core s) \<and> rs_entered c = rs_entered (re_core s) \<and> rs_children c = rs_children (re_core s)"
proof -
  from assms(3) have reach: "(race_step False)\<^sup>*\<^sup>* race_start (re_core s)" and em: "emitting_ok (re_core s) (Some (who, p, n))"
    using assms(1) by (simp_all add: reentry_inv_def)
  from race.reach_inv [OF reach] have lock: "lock_ok (re_core s)" by simp
  show ?thesis
  proof (cases who)
    case None
    with assms(1,2) em have step: "race_step False ((re_core s)\<lparr>rs_guard := Some 0\<rparr>) c"
      and g: "rs_guard (re_core s) = None" and h: "rs_handler (re_core s) = Reaped p" by (simp_all add: locked_core_def)
    note b = beside_trap_thread [OF step lock g h]
    from reach b have "(race_step False)\<^sup>*\<^sup>* race_start (c\<lparr>rs_guard := None\<rparr>)" by (meson rtranclp.rtrancl_into_rtrancl)
    with b em assms(1) None g show ?thesis by (simp add: reentry_inv_def)
  next
    case (Some i)
    with assms(1,2) em have step: "race_step False (re_core s) c"
      and g: "rs_guard (re_core s) = Some i" and a: "rs_adder (re_core s) i = Missed p" by (simp_all add: locked_core_def)
    note b = beside_adder [OF step lock g a assms(4) [OF Some]]
    have c: "c\<lparr>rs_guard := Some i\<rparr> = c" using b g by (cases c) simp
    from reach step have "(race_step False)\<^sup>*\<^sup>* race_start c" by (rule rtranclp.rtrancl_into_rtrancl)
    with b em assms(1) Some g show ?thesis by (simp add: reentry_inv_def c)
  qed
qed

lemma reentry_inv_step: "reentry_step subs s s' \<Longrightarrow> reentry_inv s \<Longrightarrow> reentry_inv s'"
proof (induction rule: reentry_step.induct)
  case (plain s c)
  then show ?case by (auto simp: reentry_inv_def intro: rtranclp.rtrancl_into_rtrancl)
next
  case (emit_in_round s p)
  then show ?case by (simp add: reentry_inv_def guard_free_def)
next
  case (emit_in_add s i p)
  from race.reach_inv [of race_start "re_core s"] emit_in_add have "lock_ok (re_core s)" by (simp add: reentry_inv_def)
  with lock_holder [OF this, of i p] emit_in_add show ?case by (simp add: reentry_inv_def)
next
  case (beside s who p n c)
  then show ?case using beside_frame by blast
next
  case (call_has s who p n)
  then show ?case using emitting_locked by (auto simp: reentry_inv_def)
next
  case (round_done s p)
  with handler_round [of "re_core s" p False] show ?case
    by (auto simp: reentry_inv_def intro: rtranclp.rtrancl_into_rtrancl)
next
  case (add_done s i p)
  with add_report [of "re_core s" i p False] show ?case
    by (auto simp: reentry_inv_def intro: rtranclp.rtrancl_into_rtrancl)
qed

interpretation reentry: invariant_system "\<lambda>s. s = reentry_start" "reentry_step subs" reentry_inv for subs
proof
  show "reentry_inv s" if "s = reentry_start" for s using that by (simp add: reentry_inv_def reentry_start_def)
qed (rule reentry_inv_step)

lemma stuck_emission:
  assumes "(reentry_step subs)\<^sup>*\<^sup>* s s'" and "reentry_inv s" and "re_emit s = Some (who, p, Suc n)"
  shows "reentry_inv s' \<and> re_emit s' = Some (who, p, Suc n) \<and> rs_died (re_core s') = rs_died (re_core s) \<and>
    rs_entered (re_core s') = rs_entered (re_core s) \<and> rs_children (re_core s') = rs_children (re_core s)"
  using assms(1)
proof (induction rule: rtranclp_induct)
  case base
  with assms(2,3) show ?case by simp
next
  case (step v v')
  have inv: "reentry_inv v" and em: "re_emit v = Some (who, p, Suc n)" using step.IH by simp_all
  then have "\<not> guard_free v" by (intro emitting_locked) (simp_all add: reentry_inv_def)
  with step.hyps(2) em show ?case
  proof cases
    case (beside who' p' n' c)
    with beside_frame [OF beside(2,3) inv beside(4)] em step.IH show ?thesis by simp
  qed (use em in simp_all)
qed

section \<open>Properties\<close>

text \<open>
  C36: a subscriber of \<open>child_died\<close> must not call the observer. Whoever emits, as long as subscribers make
  no call the emission can end, with the child reported and erased, and the observer goes
  through a run of theory \<open>Observer_Race\<close>; but once a subscriber is to call \<open>has\<close>, its thread waits for
  ever for the mutex it holds itself: no child is reported, added or erased any more.
\<close>

theorem subscriber_callback_deadlocks:
  assumes "(reentry_step subs)\<^sup>*\<^sup>* reentry_start s" and "re_emit s = Some (who, p, n)"
  shows "(race_step False)\<^sup>*\<^sup>* race_start (re_core s) \<and>
    (if n = 0
     then \<exists>s'. reentry_step subs s s' \<and> re_emit s' = None \<and> rs_died (re_core s') = rs_died (re_core s) @ [p] \<and>
       p \<notin> rs_children (re_core s')
     else \<forall>s'. (reentry_step subs)\<^sup>*\<^sup>* s s' \<longrightarrow> re_emit s' = Some (who, p, n) \<and>
       rs_died (re_core s') = rs_died (re_core s) \<and> rs_entered (re_core s') = rs_entered (re_core s) \<and>
       rs_children (re_core s') = rs_children (re_core s))"
proof -
  from reentry.reach_inv [OF assms(1)] have inv: "reentry_inv s" by simp
  then have reach: "(race_step False)\<^sup>*\<^sup>* race_start (re_core s)" by (simp add: reentry_inv_def)
  show ?thesis
  proof (cases n)
    case 0
    have "\<exists>s'. reentry_step subs s s' \<and> re_emit s' = None \<and> rs_died (re_core s') = rs_died (re_core s) @ [p] \<and>
        p \<notin> rs_children (re_core s')"
    proof (cases who)
      case None
      have "re_emit s = Some (None, p, 0)" using assms(2) 0 None by simp
      then show ?thesis by (intro exI conjI, rule round_done) (simp_all add: report_death_def)
    next
      case (Some i)
      have "re_emit s = Some (Some i, p, 0)" using assms(2) 0 Some by simp
      then show ?thesis by (intro exI conjI, rule add_done) (simp_all add: report_death_def)
    qed
    with 0 reach show ?thesis by simp
  next
    case (Suc m)
    have e: "re_emit s = Some (who, p, Suc m)" using assms(2) Suc by simp
    have stuck: "re_emit s' = Some (who, p, n) \<and> rs_died (re_core s') = rs_died (re_core s) \<and>
        rs_entered (re_core s') = rs_entered (re_core s) \<and> rs_children (re_core s') = rs_children (re_core s)"
      if "(reentry_step subs)\<^sup>*\<^sup>* s s'" for s' using stuck_emission [OF that inv e] Suc by blast
    have "n \<noteq> 0" using Suc by simp
    then show ?thesis by (intro conjI reach, subst if_not_P, assumption) (intro allI impI stuck)
  qed
qed

theorem subscriber_callback_deadlocks_witness:
  "\<exists>s. (reentry_step (\<lambda>_. 1))\<^sup>*\<^sup>* reentry_start s \<and> re_emit s = Some (None, 7, 1) \<and>
    (\<forall>s'. (reentry_step (\<lambda>_. 1))\<^sup>*\<^sup>* s s' \<longrightarrow> rs_died (re_core s') = [])"
proof -
  let ?s1 = "race_start\<lparr>rs_proc := (rs_proc race_start)(7 := Living)\<rparr>"
  let ?s2 = "?s1\<lparr>rs_guard := Some 0, rs_adder := (rs_adder ?s1)(0 := Inserted 7),
      rs_children := insert 7 (rs_children ?s1), rs_entered := rs_entered ?s1 @ [7]\<rparr>"
  let ?s3 = "?s2\<lparr>rs_guard := None, rs_adder := (rs_adder ?s2)(0 := Adder_Out)\<rparr>"
  let ?s4 = "?s3\<lparr>rs_proc := (rs_proc ?s3)(7 := Dead), rs_sigchld := True\<rparr>"
  let ?s5 = "?s4\<lparr>rs_sigchld := False, rs_handler := Polling\<rparr>"
  let ?s6 = "?s5\<lparr>rs_proc := (rs_proc ?s5)(7 := Gone), rs_handler := Reaped 7\<rparr>"
  let ?R = "reentry_step (\<lambda>_. 1)"
  have plain': "?R \<lparr>re_core = c, re_emit = None\<rparr> \<lparr>re_core = c', re_emit = None\<rparr>"
    if "race_step False c c'" "rs_died c' = rs_died c" for c c'
    using reentry_step.plain [of "\<lparr>re_core = c, re_emit = None\<rparr>" c' "\<lambda>_. 1"] that by simp
  have steps: "race_step False race_start ?s1" "race_step False ?s1 ?s2" "race_step False ?s2 ?s3"
    "race_step False ?s3 ?s4" "race_step False ?s4 ?s5" "race_step False ?s5 ?s6"
    by (rule spawn [of _ 7] add_insert [of _ 0 7] add_alive [of _ 0 7] die [of _ 7] handler_start handler_reap [of _ 7];
        simp add: race_start_def)+
  let ?s = "\<lparr>re_core = ?s6, re_emit = Some (None, 7, 1)\<rparr>"
  have "?R \<lparr>re_core = ?s6, re_emit = None\<rparr> ?s"
    using emit_in_round [of "\<lparr>re_core = ?s6, re_emit = None\<rparr>" 7 "\<lambda>_. 1"] by (simp add: guard_free_def race_start_def)
  with plain' [OF steps(1)] plain' [OF steps(2)] plain' [OF steps(3)] plain' [OF steps(4)] plain' [OF steps(5)] plain' [OF steps(6)]
  have r: "?R\<^sup>*\<^sup>* reentry_start ?s" unfolding reentry_start_def by simp
  from subscriber_callback_deadlocks [OF r, of None 7 1] have "\<forall>s'. ?R\<^sup>*\<^sup>* ?s s' \<longrightarrow> rs_died (re_core s') = []"
    by (simp add: race_start_def)
  with r show ?thesis by (intro exI [of _ ?s]) simp
qed

end
