(* ===== verification/Iostream.thy ===== *)
theory Iostream
  imports Prelude
begin

text \<open>
  Formatted input of the C++ standard library, as the extraction operators of the sources
  use it: a stream is what is left to read with its two state bits; an operator first skips
  white space (the sentry), and leaves its operand alone if the stream is not good. Integers
  are \<open>w word\<close>s, extracted with the range of the signed or the unsigned type of that width.
\<close>

record istream =
  rest :: string
  eofbit :: bool
  failbit :: bool

definition good :: "istream \<Rightarrow> bool" where
  "good is \<longleftrightarrow> \<not> eofbit is \<and> \<not> failbit is"

definition open_stream :: "string option \<Rightarrow> istream" where
  "open_stream content =
     (case content of
        None \<Rightarrow> \<lparr>rest = [], eofbit = False, failbit = True\<rparr>
      | Some s \<Rightarrow> \<lparr>rest = s, eofbit = False, failbit = False\<rparr>)"

definition isspace :: "char \<Rightarrow> bool" where
  "isspace c \<longleftrightarrow> c \<in> {CHR '' '', CHR 0x09, CHR 0x0A, CHR 0x0B, CHR 0x0C, CHR 0x0D}"

definition sentry :: "istream \<Rightarrow> bool \<times> istream" where
  "sentry is =
     (if \<not> good is then (False, is\<lparr>failbit := True\<rparr>)
      else (let r = dropWhile isspace (rest is) in
        if r = [] then (False, is\<lparr>rest := [], eofbit := True, failbit := True\<rparr>)
        else (True, is\<lparr>rest := r\<rparr>)))"

text \<open>An optional sign and the digits after it; what follows them is left in the stream.\<close>

definition scan_sign :: "string \<Rightarrow> bool \<times> string" where
  "scan_sign s =
     (case s of
        [] \<Rightarrow> (False, s)
      | c # cs \<Rightarrow> if c = CHR ''-'' then (True, cs) else if c = CHR ''+'' then (False, cs) else (False, s))"

definition scan_number :: "istream \<Rightarrow> (bool \<times> nat) option \<times> istream" where
  "scan_number is =
     (let (neg, s) = scan_sign (rest is);
          ds = takeWhile is_digit s;
          r = dropWhile is_digit s;
          is' = is\<lparr>rest := r, eofbit := (r = [])\<rparr>
      in (if ds = [] then None else Some (neg, digits_val ds), is'))"

text \<open>
  \<open>in >> v\<close> for a signed type: no digits give 0, a value out of range the nearest limit, both
  with failbit set. For an unsigned type a minus sign negates modulo the width.
\<close>

definition get_signed :: "'w::len word \<Rightarrow> istream \<Rightarrow> 'w word \<times> istream" where
  "get_signed v is =
     (case sentry is of
        (False, is1) \<Rightarrow> (v, is1)
      | (True, is1) \<Rightarrow> (case scan_number is1 of
          (None, is2) \<Rightarrow> (0, is2\<lparr>failbit := True\<rparr>)
        | (Some (neg, n), is2) \<Rightarrow>
            (let z = (if neg then - int n else int n); lim = 2 ^ (LENGTH('w) - 1) in
             if z < - lim then (word_of_int (- lim), is2\<lparr>failbit := True\<rparr>)
             else if lim \<le> z then (word_of_int (lim - 1), is2\<lparr>failbit := True\<rparr>)
             else (word_of_int z, is2))))"

definition get_unsigned :: "'w::len word \<Rightarrow> istream \<Rightarrow> 'w word \<times> istream" where
  "get_unsigned v is =
     (case sentry is of
        (False, is1) \<Rightarrow> (v, is1)
      | (True, is1) \<Rightarrow> (case scan_number is1 of
          (None, is2) \<Rightarrow> (0, is2\<lparr>failbit := True\<rparr>)
        | (Some (neg, n), is2) \<Rightarrow>
            if 2 ^ LENGTH('w) \<le> n then (- 1, is2\<lparr>failbit := True\<rparr>)
            else (if neg then - of_nat n else of_nat n, is2)))"

text \<open>\<open>in >> s\<close> for a string: up to the next white space.\<close>

definition get_string :: "string \<Rightarrow> istream \<Rightarrow> string \<times> istream" where
  "get_string v is =
     (case sentry is of
        (False, is1) \<Rightarrow> (v, is1)
      | (True, is1) \<Rightarrow>
          (let r = dropWhile (\<lambda>c. \<not> isspace c) (rest is1)
           in (takeWhile (\<lambda>c. \<not> isspace c) (rest is1), is1\<lparr>rest := r, eofbit := (r = [])\<rparr>)))"

definition get_char :: "char \<Rightarrow> istream \<Rightarrow> char \<times> istream" where
  "get_char v is =
     (case sentry is of
        (False, is1) \<Rightarrow> (v, is1)
      | (True, is1) \<Rightarrow> (hd (rest is1), is1\<lparr>rest := tl (rest is1)\<rparr>))"

section \<open>Reading back what was printed\<close>

text \<open>A good stream that holds words, each preceded by a blank, and a newline at the end.\<close>

definition words_left :: "string list \<Rightarrow> istream" where
  "words_left ws =
     \<lparr>rest = concat (map (\<lambda>w. CHR '' '' # w) ws) @ [newline], eofbit = False, failbit = False\<rparr>"

definition plain_word :: "string \<Rightarrow> bool" where
  "plain_word w \<longleftrightarrow> w \<noteq> [] \<and> (\<forall>c \<in> set w. \<not> isspace c)"

lemma isspace_blank [simp]: "isspace CHR '' ''" "isspace newline"
  by (simp_all add: isspace_def newline_def)

lemma not_space_digit: "is_digit c \<Longrightarrow> \<not> isspace c"
  by (auto simp: isspace_def is_digit_def)

lemma not_digit_blank [simp]: "\<not> is_digit CHR '' ''" "\<not> is_digit newline" "\<not> is_digit CHR ''-''" "\<not> is_digit CHR ''+''"
  by (simp_all add: is_digit_def newline_def)

lemma plain_word_show_nat [simp]: "plain_word (show_nat n)"
  by (auto simp: plain_word_def dest!: show_nat_digits not_space_digit)

lemma plain_word_show_int [simp]: "plain_word (show_int z)"
  using plain_word_show_nat [of "nat (- z)"] plain_word_show_nat [of "nat z"]
  by (auto simp: plain_word_def show_int_def isspace_def)

lemma rest_after_word:
  "\<exists>c cs. isspace c \<and> rest (words_left ws) = c # cs"
  by (cases ws) (auto simp: words_left_def)

lemma sentry_words_left:
  assumes "plain_word w"
  shows "sentry (words_left (w # ws)) = (True, (words_left ws)\<lparr>rest := w @ rest (words_left ws)\<rparr>)"
proof -
  from assms obtain c cs where w: "w = c # cs" "\<not> isspace c" by (cases w) (auto simp: plain_word_def)
  then show ?thesis by (simp add: sentry_def good_def words_left_def Let_def)
qed

lemma takeWhile_stop: "\<forall>x \<in> set w. P x \<Longrightarrow> \<not> P c \<Longrightarrow> takeWhile P (w @ c # cs) = w \<and> dropWhile P (w @ c # cs) = c # cs"
  by (induction w) auto

lemma scan_number_show_nat:
  assumes "rest is = show_nat n @ c # cs" and "\<not> is_digit c"
  shows "scan_number is = (Some (False, n), is\<lparr>rest := c # cs, eofbit := False\<rparr>)"
proof -
  obtain d ds where d: "show_nat n = d # ds" "is_digit d"
    using show_nat_digits [of _ n] show_nat_nonempty [of n] by (cases "show_nat n") auto
  then have "scan_sign (rest is) = (False, show_nat n @ c # cs)"
    using assms(1) by (auto simp: scan_sign_def)
  moreover have "\<forall>x \<in> set (show_nat n). is_digit x" by (auto dest: show_nat_digits)
  ultimately show ?thesis
    using takeWhile_stop [of "show_nat n" is_digit c cs] assms by (simp add: scan_number_def Let_def)
qed

lemma scan_number_show_int:
  assumes "rest is = show_int z @ c # cs" and "\<not> is_digit c"
  shows "scan_number is = (Some (z < 0, nat \<bar>z\<bar>), is\<lparr>rest := c # cs, eofbit := False\<rparr>)"
proof (cases "z < 0")
  case False
  with assms scan_number_show_nat [of "is" "nat z" c cs] show ?thesis by (simp add: show_int_def)
next
  case True
  with assms have "scan_sign (rest is) = (True, show_nat (nat (- z)) @ c # cs)"
    by (simp add: scan_sign_def show_int_def)
  moreover have "\<forall>x \<in> set (show_nat (nat (- z))). is_digit x" by (auto dest: show_nat_digits)
  ultimately show ?thesis
    using takeWhile_stop [of "show_nat (nat (- z))" is_digit c cs] assms True by (simp add: scan_number_def Let_def)
qed

lemma words_left_restore: "(words_left ws)\<lparr>rest := rest (words_left ws), eofbit := False\<rparr> = words_left ws"
  by (simp add: words_left_def)

lemma get_signed_words [simp]:
  "get_signed v (words_left (show_int (sint x) # ws)) = (x :: 'w::len word, words_left ws)"
proof -
  obtain c cs where r: "isspace c" "rest (words_left ws) = c # cs" using rest_after_word by blast
  then have "\<not> is_digit c" using not_space_digit by blast
  let ?is = "(words_left ws)\<lparr>rest := show_int (sint x) @ rest (words_left ws)\<rparr>"
  have "scan_number ?is = (Some (sint x < 0, nat \<bar>sint x\<bar>), words_left ws)"
    using scan_number_show_int [of ?is "sint x" c cs] \<open>\<not> is_digit c\<close> r(2) words_left_restore [of ws] by simp
  moreover have "- (2 ^ (LENGTH('w) - 1)) \<le> sint x" and "sint x < 2 ^ (LENGTH('w) - 1)"
    by (simp_all add: sint_greater_eq sint_less)
  ultimately show ?thesis
    by (auto simp: get_signed_def sentry_words_left Let_def)
qed

lemma get_unsigned_words [simp]:
  "get_unsigned v (words_left (show_nat (unat x) # ws)) = (x :: 'w::len word, words_left ws)"
proof -
  obtain c cs where r: "isspace c" "rest (words_left ws) = c # cs" using rest_after_word by blast
  then have "\<not> is_digit c" using not_space_digit by blast
  let ?is = "(words_left ws)\<lparr>rest := show_nat (unat x) @ rest (words_left ws)\<rparr>"
  have "scan_number ?is = (Some (False, unat x), words_left ws)"
    using scan_number_show_nat [of ?is "unat x" c cs] \<open>\<not> is_digit c\<close> r(2) words_left_restore [of ws] by simp
  moreover have "\<not> 2 ^ LENGTH('w) \<le> unat x" by (simp add: not_le)
  ultimately show ?thesis
    by (auto simp: get_unsigned_def sentry_words_left)
qed

text \<open>A number printed signed and read into the unsigned type of its width keeps its bits.\<close>

lemma get_unsigned_signed_words [simp]:
  "get_unsigned v (words_left (show_int (sint x) # ws)) = (x :: 'w::len word, words_left ws)"
proof -
  obtain c cs where r: "isspace c" "rest (words_left ws) = c # cs" using rest_after_word by blast
  then have "\<not> is_digit c" using not_space_digit by blast
  let ?is = "(words_left ws)\<lparr>rest := show_int (sint x) @ rest (words_left ws)\<rparr>"
  have "scan_number ?is = (Some (sint x < 0, nat \<bar>sint x\<bar>), words_left ws)"
    using scan_number_show_int [of ?is "sint x" c cs] \<open>\<not> is_digit c\<close> r(2) words_left_restore [of ws] by simp
  moreover have "nat \<bar>sint x\<bar> < 2 ^ LENGTH('w)"
  proof -
    have "- (2 ^ (LENGTH('w) - 1)) \<le> sint x" "sint x < 2 ^ (LENGTH('w) - 1)" by (simp_all add: sint_greater_eq sint_less)
    moreover have "(2 :: int) ^ (LENGTH('w) - 1) < 2 ^ LENGTH('w)" by (rule power_strict_increasing) simp_all
    ultimately have "\<bar>sint x\<bar> < 2 ^ LENGTH('w)" by linarith
    then show ?thesis by (simp add: nat_less_iff)
  qed
  moreover have "(if sint x < 0 then - of_nat (nat \<bar>sint x\<bar>) else of_nat (nat \<bar>sint x\<bar>)) = x"
    by (simp add: of_nat_nat)
  ultimately show ?thesis
    by (auto simp: get_unsigned_def sentry_words_left)
qed

text \<open>A number printed unsigned is read into the signed type of its width if it fits.\<close>

lemma show_unsigned_in_range: "0 \<le> sint (x :: 'w::len word) \<Longrightarrow> show_nat (unat x) = show_int (sint x)"
proof -
  assume nonneg: "0 \<le> sint x"
  moreover have "sint x < 2 ^ LENGTH('w)"
  proof -
    have "sint x < 2 ^ (LENGTH('w) - 1)" by (simp add: sint_less)
    also have "(2 :: int) ^ (LENGTH('w) - 1) \<le> 2 ^ LENGTH('w)" by (rule power_increasing) simp_all
    finally show ?thesis .
  qed
  ultimately have "uint (word_of_int (sint x) :: 'w word) = sint x"
    by (simp only: uint_word_of_int mod_pos_pos_trivial)
  then have "uint x = sint x" by simp
  then have "unat x = nat (sint x)" by (metis nat_uint_eq)
  then show ?thesis using nonneg by (simp add: show_int_def)
qed

lemma get_string_words [simp]:
  assumes "plain_word w"
  shows "get_string v (words_left (w # ws)) = (w, words_left ws)"
proof -
  obtain c cs where r: "isspace c" "rest (words_left ws) = c # cs" using rest_after_word by blast
  have "takeWhile (\<lambda>c. \<not> isspace c) (w @ c # cs) = w \<and> dropWhile (\<lambda>c. \<not> isspace c) (w @ c # cs) = c # cs"
    using assms r(1) by (intro takeWhile_stop) (auto simp: plain_word_def)
  then show ?thesis
    using r words_left_restore [of ws] by (simp add: get_string_def sentry_words_left [OF assms] Let_def)
qed

lemma get_char_words [simp]:
  "\<not> isspace c \<Longrightarrow> get_char v (words_left ([c] # ws)) = (c, words_left ws)"
  using sentry_words_left [of "[c]" ws] by (simp add: get_char_def plain_word_def words_left_def)

text \<open>An extraction from a stream that is not good changes nothing but failbit.\<close>

lemma get_not_good:
  assumes "\<not> good is"
  shows "get_signed v is = (v, is\<lparr>failbit := True\<rparr>)" and "get_unsigned x is = (x, is\<lparr>failbit := True\<rparr>)"
    and "get_string s is = (s, is\<lparr>failbit := True\<rparr>)" and "get_char c is = (c, is\<lparr>failbit := True\<rparr>)"
  using assms by (simp_all add: get_signed_def get_unsigned_def get_string_def get_char_def sentry_def)

lemma not_good_fail [simp]: "\<not> good (is\<lparr>failbit := True\<rparr>)"
  by (simp add: good_def)

text \<open>A text of words separated by blanks, read from its beginning.\<close>

lemma get_signed_first:
  assumes "plain_word w"
  shows "get_signed v (open_stream (Some (tl (concat (map (\<lambda>w. CHR '' '' # w) (w # ws))) @ [newline]))) =
    get_signed v (words_left (w # ws))"
proof -
  from assms obtain c cs where w: "w = c # cs" "\<not> isspace c" by (cases w) (auto simp: plain_word_def)
  then have "sentry (open_stream (Some (tl (concat (map (\<lambda>w. CHR '' '' # w) (w # ws))) @ [newline]))) =
      sentry (words_left (w # ws))"
    by (simp add: sentry_def good_def open_stream_def words_left_def)
  then show ?thesis by (simp add: get_signed_def)
qed

end
