(* ===== verification/Proc_Fs.thy ===== *)
theory Proc_Fs
  imports Iostream Process_Model
begin

text \<open>
  \<open>core/posix/linux/proc/process\<close>: reading the status of a process and reading and writing
  its out-of-memory settings through the files of \<open>/proc\<close>. The file system is a parameter:
  what a file holds, and what writing a text through an \<open>std::ofstream\<close> does.
\<close>

section \<open>Files\<close>

definition proc_path :: "'a Process_scheme \<Rightarrow> string \<Rightarrow> string" where
  "proc_path process name = ''/proc/'' @ show_int (Process_pid process) @ name"

record 'f files =
  contents :: "'f \<Rightarrow> string \<Rightarrow> string option"
  write_out :: "string \<Rightarrow> string \<Rightarrow> 'f \<Rightarrow> 'f"

section \<open>Out-of-memory settings\<close>

text \<open>The constants of \<open>linux/oom.h\<close>.\<close>

definition OOM_DISABLE :: "32 word" where "OOM_DISABLE = - 17"
definition OOM_ADJUST_MIN :: "32 word" where "OOM_ADJUST_MIN = - 16"
definition OOM_ADJUST_MAX :: "32 word" where "OOM_ADJUST_MAX = 15"
definition OOM_SCORE_ADJ_MIN :: "32 word" where "OOM_SCORE_ADJ_MIN = - 1000"
definition OOM_SCORE_ADJ_MAX :: "32 word" where "OOM_SCORE_ADJ_MAX = 1000"

lemmas oom_consts = OOM_DISABLE_def OOM_ADJUST_MIN_def OOM_ADJUST_MAX_def OOM_SCORE_ADJ_MIN_def
  OOM_SCORE_ADJ_MAX_def

record OomAdj = adj_value :: "32 word"

definition OomAdj_min_value :: "32 word" where "OomAdj_min_value = OOM_ADJUST_MIN"


definition OomAdj_read :: "'f files \<Rightarrow> 'a Process_scheme \<Rightarrow> OomAdj \<Rightarrow> 'f \<Rightarrow> OomAdj" where
  "OomAdj_read F process adj f =
     adj\<lparr>adj_value := fst (get_signed (adj_value adj) (open_stream (contents F f (proc_path process ''/oom_adj''))))\<rparr>"


record OomScore = score_value :: "32 word"

definition OomScore_read :: "'f files \<Rightarrow> 'a Process_scheme \<Rightarrow> OomScore \<Rightarrow> 'f \<Rightarrow> OomScore" where
  "OomScore_read F process score f =
     score\<lparr>score_value := fst (get_signed (score_value score) (open_stream (contents F f (proc_path process ''/oom_score''))))\<rparr>"

record OomScoreAdj = score_adj_value :: "32 word"



definition OomScoreAdj_read :: "'f files \<Rightarrow> 'a Process_scheme \<Rightarrow> OomScoreAdj \<Rightarrow> 'f \<Rightarrow> OomScoreAdj" where
  "OomScoreAdj_read F process score_adj f =
     score_adj\<lparr>score_adj_value := fst (get_signed (score_adj_value score_adj)
       (open_stream (contents F f (proc_path process ''/oom_score_adj''))))\<rparr>"


section \<open>Settings behind files\<close>




text \<open>A file system with those properties, with a list of the files that may be written.\<close>

record ref_fs =
  fs_map :: "string \<Rightarrow> string option"
  fs_writable :: "string list"

definition ref_score :: "int \<Rightarrow> int" where
  "ref_score z = (if z = 15 then 1000 else sgn z * (\<bar>z\<bar> * 1000 div 17))"

definition ref_adj :: "int \<Rightarrow> int" where
  "ref_adj z = min 15 (sgn z * (\<bar>z\<bar> * 17 div 1000))"

definition ref_setting :: "string \<Rightarrow> int \<Rightarrow> int \<Rightarrow> ref_fs \<Rightarrow> ref_fs" where
  "ref_setting dir score adj f =
     f\<lparr>fs_map := (fs_map f)(dir @ ''/oom_score_adj'' \<mapsto> show_int score @ [newline],
        dir @ ''/oom_adj'' \<mapsto> show_int adj @ [newline])\<rparr>"

definition ref_number :: "string \<Rightarrow> int" where
  "ref_number s = sint (fst (get_signed 0 (open_stream (Some (s @ [newline])))) :: 32 word)"

definition ref_files :: "ref_fs files" where
  "ref_files =
     \<lparr>contents = fs_map,
      write_out = (\<lambda>path s f.
        let n = length path in
        if path \<notin> set (fs_writable f) then f
        else if drop (n - 14) path = ''/oom_score_adj''
        then ref_setting (take (n - 14) path) (ref_number s) (ref_adj (ref_number s)) f
        else if drop (n - 8) path = ''/oom_adj''
        then ref_setting (take (n - 8) path) (ref_score (ref_number s)) (ref_adj (ref_score (ref_number s))) f
        else f\<lparr>fs_map := (fs_map f)(path \<mapsto> s @ [newline])\<rparr>)\<rparr>"

lemma ref_number_show [simp]: "ref_number (show_int (sint (x :: 32 word))) = sint x"
  using get_signed_first [of "show_int (sint x)" "0 :: 32 word" "[]"] by (simp add: ref_number_def)



section \<open>Properties\<close>





text \<open>
  Errors of the files are not reported: if the file cannot be opened or is empty, the
  value the caller passed stays; if it holds no number, the value becomes 0; no call throws.
\<close>

theorem oom_read_errors_are_silent:
  "(contents F f (proc_path p ''/oom_score'') \<in> {None, Some []} \<longrightarrow> OomScore_read F p sc f = sc) \<and>
   (contents F f (proc_path p ''/oom_adj'') \<in> {None, Some []} \<longrightarrow> OomAdj_read F p a f = a) \<and>
   (contents F f (proc_path p ''/oom_score_adj'') \<in> {None, Some []} \<longrightarrow> OomScoreAdj_read F p sa f = sa) \<and>
   (contents F f (proc_path p ''/oom_score'') = Some (CHR ''x'' # cs) \<longrightarrow> score_value (OomScore_read F p sc f) = 0)"
  by (auto simp: OomScore_read_def OomAdj_read_def OomScoreAdj_read_def get_signed_def sentry_def good_def
      open_stream_def scan_number_def scan_sign_def isspace_def is_digit_def)

theorem oom_read_errors_are_silent_witness:
  "OomScore_read ref_files \<lparr>sig_pid = 7, proc_pid = 7\<rparr> \<lparr>score_value = 42\<rparr>
     \<lparr>fs_map = Map.empty, fs_writable = []\<rparr> = \<lparr>score_value = 42\<rparr>"
  using oom_read_errors_are_silent [of ref_files "\<lparr>fs_map = Map.empty, fs_writable = []\<rparr>"
      "\<lparr>sig_pid = 7, proc_pid = 7\<rparr>" "\<lparr>score_value = 42\<rparr>"]
  by (simp add: ref_files_def)

end
