(* ===== verification/Proc_Stat.thy ===== *)
theory Proc_Stat
  imports Proc_Fs
begin

text \<open>
  \<open>stat.h\<close>, \<open>stat.cpp\<close>, \<open>state.h\<close>: the contents of \<open>/proc/<pid>/stat\<close>. The structure has the
  fields of \<open>struct Stat\<close> with their widths (the prefix \<open>st_\<close> keeps them apart from other names), and the
  extraction operator reads them in the order of the source.
\<close>

section \<open>State and Stat\<close>

text \<open>An enumeration value is the integer it is cast from; \<open>char\<close> is signed.\<close>

datatype State = State (state_int: int)

definition State_undefined :: State where "State_undefined = State (- 1)"
definition State_running :: State where "State_running = State (of_char CHR ''R'')"
definition State_sleeping :: State where "State_sleeping = State (of_char CHR ''S'')"
definition State_disk_sleep :: State where "State_disk_sleep = State (of_char CHR ''D'')"
definition State_zombie :: State where "State_zombie = State (of_char CHR ''Z'')"
definition State_traced_or_stopped :: State where "State_traced_or_stopped = State (of_char CHR ''T'')"
definition State_paging :: State where "State_paging = State (of_char CHR ''W'')"

definition state_of_char :: "char \<Rightarrow> State" where
  "state_of_char c = State (if of_char c < (128 :: int) then of_char c else of_char c - 256)"

record Stat_time =
  time_user :: "64 word"
  time_system :: "64 word"
  time_user_for_children :: "64 word"
  time_system_for_children :: "64 word"

record Stat_size =
  size_virt :: "64 word"
  size_resident_set :: "64 word"
  size_resident_set_limit :: "64 word"

record Stat_addresses =
  addresses_start_code :: "64 word"
  addresses_end_code :: "64 word"
  addresses_start_stack :: "64 word"
  addresses_stack_pointer :: "64 word"
  addresses_instruction_pointer :: "64 word"

record Stat_signals =
  signals_pending :: "64 word"
  signals_blocked :: "64 word"
  signals_ignored :: "64 word"
  signals_caught :: "64 word"

record Stat =
  st_pid :: "32 word"
  st_executable :: string
  st_state :: State
  st_parent :: "32 word"
  st_process_group :: "32 word"
  st_session_id :: "32 word"
  st_tty_nr :: "32 word"
  st_controlling_process_group :: "32 word"
  st_kernel_flags :: "32 word"
  st_minor_faults_count :: "64 word"
  st_minor_faults_count_by_children :: "64 word"
  st_major_faults_count :: "64 word"
  st_major_faults_count_by_children :: "64 word"
  st_time :: Stat_time
  st_priority :: "64 word"
  st_nice :: "64 word"
  st_thread_count :: "64 word"
  st_time_before_next_sig_alarm :: "64 word"
  st_start_time :: "64 word"
  st_size :: Stat_size
  st_addresses :: Stat_addresses
  st_signals :: Stat_signals
  st_channel :: "64 word"
  st_swap_count :: "64 word"
  st_swap_count_children :: "64 word"
  st_exit_signal :: "32 word"
  st_cpu_count :: "32 word"
  st_realtime_priority :: "32 word"
  st_scheduling_policy :: "32 word"
  st_aggregated_block_io_delays :: "64 word"
  st_guest_time :: "64 word"
  st_guest_time_children :: "64 word"

text \<open>The member initialisers.\<close>

definition Stat_default :: Stat where
  "Stat_default =
     \<lparr>st_pid = 1,
      st_executable = [],
      st_state = State_undefined,
      st_parent = - 1,
      st_process_group = - 1,
      st_session_id = - 1,
      st_tty_nr = - 1,
      st_controlling_process_group = - 1,
      st_kernel_flags = 0,
      st_minor_faults_count = 0,
      st_minor_faults_count_by_children = 0,
      st_major_faults_count = 0,
      st_major_faults_count_by_children = 0,
      st_time = \<lparr>time_user = 0, time_system = 0, time_user_for_children = 0, time_system_for_children = 0\<rparr>,
      st_priority = 0,
      st_nice = 0,
      st_thread_count = 0,
      st_time_before_next_sig_alarm = 0,
      st_start_time = 0,
      st_size = \<lparr>size_virt = 0, size_resident_set = 0, size_resident_set_limit = 0\<rparr>,
      st_addresses = \<lparr>addresses_start_code = 0, addresses_end_code = 0, addresses_start_stack = 0, addresses_stack_pointer = 0, addresses_instruction_pointer = 0\<rparr>,
      st_signals = \<lparr>signals_pending = 0, signals_blocked = 0, signals_ignored = 0, signals_caught = 0\<rparr>,
      st_channel = 0,
      st_swap_count = 0,
      st_swap_count_children = 0,
      st_exit_signal = - 1,
      st_cpu_count = - 1,
      st_realtime_priority = 0,
      st_scheduling_policy = 0,
      st_aggregated_block_io_delays = 0,
      st_guest_time = 0,
      st_guest_time_children = 0\<rparr>"

section \<open>Extraction\<close>

text \<open>
  One \<open>>>\<close>: the operand's field is read with the extractor of its type and stored. A chain of
  \<open>>>\<close> is the composition of such steps from left to right. The operator for \<open>State\<close> reads into a local variable
  that is not initialised: what it holds if nothing is read is an argument, \<open>junk\<close>.
\<close>

definition into ::
  "('v \<Rightarrow> istream \<Rightarrow> 'v \<times> istream) \<Rightarrow> ('s \<Rightarrow> 'v) \<Rightarrow> ('v \<Rightarrow> 's \<Rightarrow> 's) \<Rightarrow> istream \<times> 's \<Rightarrow> istream \<times> 's" where
  "into get sel upd = (\<lambda>(is, s). case get (sel s) is of (v, is') \<Rightarrow> (is', upd v s))"

definition get_state :: "char \<Rightarrow> State \<Rightarrow> istream \<Rightarrow> State \<times> istream" where
  "get_state junk state is = (case get_char junk is of (c, is') \<Rightarrow> (state_of_char c, is'))"

definition Stat_steps :: "char \<Rightarrow> (istream \<times> Stat \<Rightarrow> istream \<times> Stat) list" where
  "Stat_steps junk =
      [into get_signed st_pid (\<lambda>v s. s\<lparr>st_pid := v\<rparr>),
       into get_string st_executable (\<lambda>v s. s\<lparr>st_executable := v\<rparr>),
       into (get_state junk) st_state (\<lambda>v s. s\<lparr>st_state := v\<rparr>),
       into get_signed st_parent (\<lambda>v s. s\<lparr>st_parent := v\<rparr>),
       into get_signed st_process_group (\<lambda>v s. s\<lparr>st_process_group := v\<rparr>),
       into get_signed st_session_id (\<lambda>v s. s\<lparr>st_session_id := v\<rparr>),
       into get_signed st_tty_nr (\<lambda>v s. s\<lparr>st_tty_nr := v\<rparr>),
       into get_signed st_controlling_process_group (\<lambda>v s. s\<lparr>st_controlling_process_group := v\<rparr>),
       into get_unsigned st_kernel_flags (\<lambda>v s. s\<lparr>st_kernel_flags := v\<rparr>),
       into get_unsigned st_minor_faults_count (\<lambda>v s. s\<lparr>st_minor_faults_count := v\<rparr>),
       into get_unsigned st_minor_faults_count_by_children (\<lambda>v s. s\<lparr>st_minor_faults_count_by_children := v\<rparr>),
       into get_unsigned st_major_faults_count (\<lambda>v s. s\<lparr>st_major_faults_count := v\<rparr>),
       into get_unsigned st_major_faults_count_by_children (\<lambda>v s. s\<lparr>st_major_faults_count_by_children := v\<rparr>),
       into get_unsigned (\<lambda>s. time_user (st_time s)) (\<lambda>v. st_time_update (time_user_update (\<lambda>_. v))),
       into get_unsigned (\<lambda>s. time_system (st_time s)) (\<lambda>v. st_time_update (time_system_update (\<lambda>_. v))),
       into get_unsigned (\<lambda>s. time_user_for_children (st_time s)) (\<lambda>v. st_time_update (time_user_for_children_update (\<lambda>_. v))),
       into get_unsigned (\<lambda>s. time_system_for_children (st_time s)) (\<lambda>v. st_time_update (time_system_for_children_update (\<lambda>_. v))),
       into get_signed st_priority (\<lambda>v s. s\<lparr>st_priority := v\<rparr>),
       into get_signed st_nice (\<lambda>v s. s\<lparr>st_nice := v\<rparr>),
       into get_signed st_thread_count (\<lambda>v s. s\<lparr>st_thread_count := v\<rparr>),
       into get_signed st_time_before_next_sig_alarm (\<lambda>v s. s\<lparr>st_time_before_next_sig_alarm := v\<rparr>),
       into get_signed st_start_time (\<lambda>v s. s\<lparr>st_start_time := v\<rparr>),
       into get_unsigned (\<lambda>s. size_virt (st_size s)) (\<lambda>v. st_size_update (size_virt_update (\<lambda>_. v))),
       into get_unsigned (\<lambda>s. size_resident_set (st_size s)) (\<lambda>v. st_size_update (size_resident_set_update (\<lambda>_. v))),
       into get_unsigned (\<lambda>s. size_resident_set_limit (st_size s)) (\<lambda>v. st_size_update (size_resident_set_limit_update (\<lambda>_. v))),
       into get_unsigned (\<lambda>s. addresses_start_code (st_addresses s)) (\<lambda>v. st_addresses_update (addresses_start_code_update (\<lambda>_. v))),
       into get_unsigned (\<lambda>s. addresses_end_code (st_addresses s)) (\<lambda>v. st_addresses_update (addresses_end_code_update (\<lambda>_. v))),
       into get_unsigned (\<lambda>s. addresses_start_stack (st_addresses s)) (\<lambda>v. st_addresses_update (addresses_start_stack_update (\<lambda>_. v))),
       into get_unsigned (\<lambda>s. addresses_stack_pointer (st_addresses s)) (\<lambda>v. st_addresses_update (addresses_stack_pointer_update (\<lambda>_. v))),
       into get_unsigned (\<lambda>s. addresses_instruction_pointer (st_addresses s)) (\<lambda>v. st_addresses_update (addresses_instruction_pointer_update (\<lambda>_. v))),
       into get_unsigned (\<lambda>s. signals_pending (st_signals s)) (\<lambda>v. st_signals_update (signals_pending_update (\<lambda>_. v))),
       into get_unsigned (\<lambda>s. signals_blocked (st_signals s)) (\<lambda>v. st_signals_update (signals_blocked_update (\<lambda>_. v))),
       into get_unsigned (\<lambda>s. signals_ignored (st_signals s)) (\<lambda>v. st_signals_update (signals_ignored_update (\<lambda>_. v))),
       into get_unsigned (\<lambda>s. signals_caught (st_signals s)) (\<lambda>v. st_signals_update (signals_caught_update (\<lambda>_. v))),
       into get_unsigned st_channel (\<lambda>v s. s\<lparr>st_channel := v\<rparr>),
       into get_unsigned st_swap_count (\<lambda>v s. s\<lparr>st_swap_count := v\<rparr>),
       into get_unsigned st_swap_count_children (\<lambda>v s. s\<lparr>st_swap_count_children := v\<rparr>),
       into get_signed st_exit_signal (\<lambda>v s. s\<lparr>st_exit_signal := v\<rparr>),
       into get_signed st_cpu_count (\<lambda>v s. s\<lparr>st_cpu_count := v\<rparr>),
       into get_unsigned st_realtime_priority (\<lambda>v s. s\<lparr>st_realtime_priority := v\<rparr>),
       into get_unsigned st_scheduling_policy (\<lambda>v s. s\<lparr>st_scheduling_policy := v\<rparr>),
       into get_unsigned st_aggregated_block_io_delays (\<lambda>v s. s\<lparr>st_aggregated_block_io_delays := v\<rparr>),
       into get_unsigned st_guest_time (\<lambda>v s. s\<lparr>st_guest_time := v\<rparr>),
       into get_unsigned st_guest_time_children (\<lambda>v s. s\<lparr>st_guest_time_children := v\<rparr>)]"

definition Stat_extract :: "char \<Rightarrow> istream \<times> Stat \<Rightarrow> istream \<times> Stat" where
  "Stat_extract junk x = fold (\<lambda>step. step) (Stat_steps junk) x"

definition Stat_read :: "'f files \<Rightarrow> char \<Rightarrow> 'a Process_scheme \<Rightarrow> Stat \<Rightarrow> 'f \<Rightarrow> Stat" where
  "Stat_read F junk process s f =
     snd (Stat_extract junk (open_stream (contents F f (proc_path process ''/stat'')), s))"

section \<open>What the kernel prints\<close>

text \<open>
  proc(5): the fields in order, separated by blanks, the line ended by a newline. The format of
  each is the manual page's, which is not always the one of the member it is read into: four fields
  that are unsigned here are printed signed, and the start time the other way round. The fields
  after the 44th (there are 52) are \<open>others\<close>.
\<close>

definition state_char :: "State \<Rightarrow> char" where
  "state_char st = char_of (state_int st mod 256)"

definition Stat_words :: "Stat \<Rightarrow> string list" where
  "Stat_words s =
     [show_int (sint (st_pid s)),
      st_executable s,
      [state_char (st_state s)],
      show_int (sint (st_parent s)),
      show_int (sint (st_process_group s)),
      show_int (sint (st_session_id s)),
      show_int (sint (st_tty_nr s)),
      show_int (sint (st_controlling_process_group s)),
      show_nat (unat (st_kernel_flags s)),
      show_nat (unat (st_minor_faults_count s)),
      show_nat (unat (st_minor_faults_count_by_children s)),
      show_nat (unat (st_major_faults_count s)),
      show_nat (unat (st_major_faults_count_by_children s)),
      show_nat (unat (time_user (st_time s))),
      show_nat (unat (time_system (st_time s))),
      show_int (sint (time_user_for_children (st_time s))),
      show_int (sint (time_system_for_children (st_time s))),
      show_int (sint (st_priority s)),
      show_int (sint (st_nice s)),
      show_int (sint (st_thread_count s)),
      show_int (sint (st_time_before_next_sig_alarm s)),
      show_nat (unat (st_start_time s)),
      show_nat (unat (size_virt (st_size s))),
      show_int (sint (size_resident_set (st_size s))),
      show_nat (unat (size_resident_set_limit (st_size s))),
      show_nat (unat (addresses_start_code (st_addresses s))),
      show_nat (unat (addresses_end_code (st_addresses s))),
      show_nat (unat (addresses_start_stack (st_addresses s))),
      show_nat (unat (addresses_stack_pointer (st_addresses s))),
      show_nat (unat (addresses_instruction_pointer (st_addresses s))),
      show_nat (unat (signals_pending (st_signals s))),
      show_nat (unat (signals_blocked (st_signals s))),
      show_nat (unat (signals_ignored (st_signals s))),
      show_nat (unat (signals_caught (st_signals s))),
      show_nat (unat (st_channel s)),
      show_nat (unat (st_swap_count s)),
      show_nat (unat (st_swap_count_children s)),
      show_int (sint (st_exit_signal s)),
      show_int (sint (st_cpu_count s)),
      show_nat (unat (st_realtime_priority s)),
      show_nat (unat (st_scheduling_policy s)),
      show_nat (unat (st_aggregated_block_io_delays s)),
      show_nat (unat (st_guest_time s)),
      show_int (sint (st_guest_time_children s))]"

definition Stat_text :: "Stat \<Rightarrow> string list \<Rightarrow> string" where
  "Stat_text s others = tl (concat (map (\<lambda>w. CHR '' '' # w) (Stat_words s @ others))) @ [newline]"

section \<open>Properties\<close>

lemma into_words:
  "into get_signed sel upd (words_left (show_int (sint x) # ws), s) = (words_left ws, upd x s)"
  "into get_unsigned sel upd (words_left (show_nat (unat x) # ws), s) = (words_left ws, upd x s)"
  "into get_unsigned sel upd (words_left (show_int (sint x) # ws), s) = (words_left ws, upd x s)"
  "plain_word w \<Longrightarrow> into get_string sel' upd' (words_left (w # ws), s) = (words_left ws, upd' w s)"
  by (simp_all add: into_def)

lemma into_state_words:
  "\<not> isspace c \<Longrightarrow> into (get_state junk) sel upd (words_left ([c] # ws), s) = (words_left ws, upd (state_of_char c) s)"
  by (simp add: into_def get_state_def)

lemma into_first:
  "plain_word w \<Longrightarrow> into get_signed sel upd (open_stream (Some (tl (concat (map (\<lambda>w. CHR '' '' # w) (w # ws))) @ [newline])), s) =
     into get_signed sel upd (words_left (w # ws), s)"
  by (simp only: into_def get_signed_first split)

text \<open>The values of \<open>State\<close> that a character stands for.\<close>

definition state_ok :: "State \<Rightarrow> bool" where
  "state_ok st \<longleftrightarrow> state_of_char (state_char st) = st \<and> \<not> isspace (state_char st)"

lemma Stat_extract_words:
  assumes "plain_word (st_executable t)" and "state_ok (st_state t)" and "0 \<le> sint (st_start_time t)"
  shows "Stat_extract junk (open_stream (Some (Stat_text t others)), s) = (words_left others, t)"
proof -
  have st: "state_of_char (state_char (st_state t)) = st_state t" "\<not> isspace (state_char (st_state t))"
    using assms(2) by (auto simp: state_ok_def)
  show ?thesis
    unfolding Stat_extract_def Stat_steps_def Stat_text_def Stat_words_def fold_simps append_Cons append_Nil
      show_unsigned_in_range [OF assms(3)]
    unfolding into_first [OF plain_word_show_int]
    by (simp only: into_words into_state_words assms st not_False_eq_True,
        intro conjI refl arg_cong2 [where f = Pair] Stat.equality; 
        (intro Stat_time.equality Stat_size.equality Stat_addresses.equality Stat_signals.equality)?; simp)
qed

text \<open>Once the stream has failed, the steps for numbers and strings change nothing.\<close>

definition lazy :: "(istream \<times> 's \<Rightarrow> istream \<times> 's) \<Rightarrow> bool" where
  "lazy step \<longleftrightarrow> (\<forall>is s. \<not> good is \<longrightarrow> step (is, s) = (is\<lparr>failbit := True\<rparr>, s))"

lemma into_lazy:
  "(\<And>s. upd (sel s) s = s) \<Longrightarrow> lazy (into get_signed sel upd)"
  "(\<And>s. upd' (sel' s) s = s) \<Longrightarrow> lazy (into get_unsigned sel' upd')"
  "(\<And>s. upd'' (sel'' s) s = s) \<Longrightarrow> lazy (into get_string sel'' upd'')"
  by (simp_all add: lazy_def into_def get_not_good)

lemma fold_lazy:
  "\<forall>step \<in> set steps. lazy step \<Longrightarrow> \<not> good is \<Longrightarrow> snd (fold (\<lambda>step. step) steps (is, s)) = s"
  by (induction steps arbitrary: "is") (simp_all add: lazy_def)

lemma Stat_steps_lazy: "\<forall>step \<in> set (drop 3 (Stat_steps junk)). lazy step"
  unfolding Stat_steps_def by (simp add: into_lazy)

lemma Stat_steps_split: "Stat_steps junk =
   [into get_signed st_pid (\<lambda>v s. s\<lparr>st_pid := v\<rparr>), into get_string st_executable (\<lambda>v s. s\<lparr>st_executable := v\<rparr>),
    into (get_state junk) st_state (\<lambda>v s. s\<lparr>st_state := v\<rparr>)] @ drop 3 (Stat_steps junk)"
  by (simp add: Stat_steps_def)


text \<open>
  C23: reading the status of a process yields exactly what the kernel printed in the formats of
  proc(5), for every value of each of the 44 fields at its width, when the executable's name
  contains no white space and the start time, which is printed unsigned and read signed, is below
  2^63. No field is taken for another, and neither what the caller's structure held before nor the
  fields after these matter. A field that is printed signed and read unsigned keeps its bits.
\<close>

theorem stat_round_trip:
  assumes "contents F f (proc_path p ''/stat'') = Some (Stat_text t others)"
    and "plain_word (st_executable t)" and "state_ok (st_state t)" and "0 \<le> sint (st_start_time t)"
  shows "Stat_read F junk p s f = t"
  using Stat_extract_words [OF assms(2-4)] assms(1) by (simp add: Stat_read_def)

theorem stat_round_trip_witness:
  "Stat_read ref_files CHR ''?'' \<lparr>sig_pid = 7, proc_pid = 7\<rparr> Stat_default
     \<lparr>fs_map = [''/proc/7/stat'' \<mapsto> Stat_text (Stat_default\<lparr>st_executable := ''(sh)'', st_state := State_sleeping,
        st_nice := - 20, st_start_time := 4711\<rparr>) [''94002'', ''94105'', ''0'', ''0'', ''0'', ''0'', ''0'', ''0'']], fs_writable = []\<rparr> =
   Stat_default\<lparr>st_executable := ''(sh)'', st_state := State_sleeping, st_nice := - 20, st_start_time := 4711\<rparr>"
proof -
  let ?p = "\<lparr>sig_pid = 7, proc_pid = 7\<rparr> :: Process"
  have "proc_path ?p ''/stat'' = ''/proc/7/stat''" by code_simp
  moreover have "state_ok State_sleeping" and "plain_word ''(sh)''" and "0 \<le> sint (4711 :: 64 word)" by code_simp+
  ultimately show ?thesis
    by (intro stat_round_trip) (simp_all add: ref_files_def)
qed



text \<open>
  If the file cannot be read, for instance because the process is gone, no error is
  reported: the structure keeps its contents, except that the state becomes whatever the
  uninitialised local variable of the extraction operator held.
\<close>

theorem stat_unreadable_gives_junk_state:
  assumes "contents F f (proc_path p ''/stat'') = None"
  shows "Stat_read F junk p s f = s\<lparr>st_state := state_of_char junk\<rparr>"
proof -
  have ng: "\<not> good (open_stream None)" by (simp add: good_def open_stream_def)
  have f: "(open_stream None)\<lparr>failbit := True\<rparr> = open_stream None" by (simp add: open_stream_def)
  have "into get_signed st_pid (\<lambda>v s. s\<lparr>st_pid := v\<rparr>) (open_stream None, s) = (open_stream None, s)"
    and "into get_string st_executable (\<lambda>v s. s\<lparr>st_executable := v\<rparr>) (open_stream None, s) = (open_stream None, s)"
    and "into (get_state junk) st_state (\<lambda>v s. s\<lparr>st_state := v\<rparr>) (open_stream None, s) =
      (open_stream None, s\<lparr>st_state := state_of_char junk\<rparr>)" for s
    by (simp_all add: into_def get_state_def get_not_good [OF ng] f)
  note head = this
  show ?thesis
    unfolding Stat_read_def assms Stat_extract_def
    by (subst Stat_steps_split) (simp only: fold_append fold_simps comp_apply head fold_lazy [OF Stat_steps_lazy ng])
qed

theorem stat_unreadable_gives_junk_state_witness:
  "Stat_read ref_files CHR ''?'' \<lparr>sig_pid = 7, proc_pid = 7\<rparr> Stat_default \<lparr>fs_map = Map.empty, fs_writable = []\<rparr> =
     Stat_default\<lparr>st_state := state_of_char CHR ''?''\<rparr>"
  by (rule stat_unreadable_gives_junk_state) (simp add: ref_files_def)

end
