(* ===== verification/Cross_Process_Sync.thy ===== *)
theory Cross_Process_Sync
  imports Pipe
begin

text \<open>
  \<open>core::testing::CrossProcessSync\<close> (\<open>cross_process_sync.h\<close>, \<open>cross_process_sync.cpp\<close>): a pipe
  through which processes signal each other, and a counter of the signals received. Its
  descriptors are handled as those of \<open>ChildProcess::Pipe\<close> are, and the class is shown to meet
  the same interface \<open>fd_owner\<close>. For the transfer, poll, read and write are parameters.
\<close>

section \<open>The class\<close>

record CrossProcessSync =
  sync_read :: int
  sync_write :: int
  counter :: "32 word"

definition Sync_ctor :: "'k api \<Rightarrow> (exn, CrossProcessSync, 'k) call" where
  "Sync_ctor K k =
     (case sys_pipe K k of
        (Inl errno, k') \<Rightarrow> (Inl (System_Error errno), k')
      | (Inr (r, w), k') \<Rightarrow> (Inr \<lparr>sync_read = r, sync_write = w, counter = 0\<rparr>, k'))"

definition Sync_copy :: "'k api \<Rightarrow> CrossProcessSync \<Rightarrow> 'k \<Rightarrow> CrossProcessSync \<times> 'k" where
  "Sync_copy K rhs k =
     (let (r, k1) = dup_or_minus_one K (sync_read rhs) k;
          (w, k2) = dup_or_minus_one K (sync_write rhs) k1
      in (\<lparr>sync_read = r, sync_write = w, counter = counter rhs\<rparr>, k2))"

definition Sync_dtor :: "'k api \<Rightarrow> CrossProcessSync \<Rightarrow> 'k \<Rightarrow> 'k" where
  "Sync_dtor K s k = snd (sys_close K (sync_write s) (snd (sys_close K (sync_read s) k)))"

definition Sync_assign :: "'k api \<Rightarrow> CrossProcessSync \<Rightarrow> CrossProcessSync \<Rightarrow> 'k \<Rightarrow> CrossProcessSync \<times> 'k" where
  "Sync_assign K this rhs k =
     (let k1 = snd (sys_close K (sync_read this) k);
          k2 = snd (sys_close K (sync_write this) k1);
          (r, k3) = dup_or_minus_one K (sync_read rhs) k2;
          (w, k4) = dup_or_minus_one K (sync_write rhs) k3
      in (\<lparr>sync_read = r, sync_write = w, counter = counter rhs\<rparr>, k4))"

section \<open>Signalling\<close>

text \<open>
  \<open>poll(fd, events, timeout)\<close> answers with the number of ready descriptors, read with the
  bytes, write with the number of bytes written. \<open>io_errno\<close> is the value \<open>errno\<close> happens to have,
  which the sources use where no call has failed.
\<close>

record 'k sync_io =
  io_poll :: "int \<Rightarrow> int \<Rightarrow> (errno, int, 'k) call"
  io_write :: "int \<Rightarrow> 8 word list \<Rightarrow> (errno, int, 'k) call"
  io_read :: "int \<Rightarrow> nat \<Rightarrow> (errno, 8 word list, 'k) call"
  io_errno :: "'k \<Rightarrow> errno"

text \<open>A \<open>std::uint32_t\<close> in memory, least significant byte first.\<close>

definition to_bytes :: "32 word \<Rightarrow> 8 word list" where
  "to_bytes v = [ucast v, ucast (drop_bit 8 v), ucast (drop_bit 16 v), ucast (drop_bit 24 v)]"

definition of_bytes :: "8 word list \<Rightarrow> 32 word" where
  "of_bytes bs = foldr (\<lambda>b v. push_bit 8 v OR ucast b) bs 0"

text \<open>The 64-bit count of a duration is passed to poll as an \<open>int\<close>.\<close>

definition poll_timeout :: "int \<Rightarrow> int" where
  "poll_timeout count = sint (word_of_int count :: 32 word)"

definition try_signal_ready_for :: "'k sync_io \<Rightarrow> CrossProcessSync \<Rightarrow> int \<Rightarrow> (exn, unit, 'k) call" where
  "try_signal_ready_for I s duration k =
     (case io_poll I (sync_write s) (poll_timeout duration) k of
        (Inl errno, k1) \<Rightarrow> (Inl (System_Error errno), k1)
      | (Inr rc, k1) \<Rightarrow>
          if rc = 0 then (Inl Timeout, k1)
          else (case io_write I (sync_write s) (to_bytes 1) k1 of
              (Inl errno, k2) \<Rightarrow> (Inl (System_Error errno), k2)
            | (Inr n, k2) \<Rightarrow> if 4 \<noteq> n then (Inl (System_Error (io_errno I k2)), k2) else (Inr (), k2)))"

definition wait_for_signal_ready_for ::
  "'k sync_io \<Rightarrow> CrossProcessSync \<Rightarrow> int \<Rightarrow> 'k \<Rightarrow> (exn + 32 word) \<times> CrossProcessSync \<times> 'k" where
  "wait_for_signal_ready_for I s duration k =
     (case io_poll I (sync_read s) (poll_timeout duration) k of
        (Inl errno, k1) \<Rightarrow> (Inl (System_Error errno), s, k1)
      | (Inr rc, k1) \<Rightarrow>
          if rc = 0 then (Inl Timeout, s, k1)
          else (case io_read I (sync_read s) 4 k1 of
              (Inl errno, k2) \<Rightarrow> (Inl (System_Error errno), s, k2)
            | (Inr bs, k2) \<Rightarrow>
                if length bs \<noteq> 4 then (Inl (System_Error (io_errno I k2)), s, k2)
                else if of_bytes bs \<noteq> 1 then (Inl (System_Error (io_errno I k2)), s, k2)
                else (let s' = s\<lparr>counter := counter s + of_bytes bs\<rparr> in (Inr (counter s'), s', k2))))"

section \<open>Descriptors\<close>

definition sync_fds :: "CrossProcessSync \<Rightarrow> int set" where
  "sync_fds s = {sync_read s, sync_write s} - {- 1}"

context fd_kernel
begin

lemma dup_or_minus_one_spec:
  assumes "dup_or_minus_one K fd k = (n, k')"
  shows "n = - 1 \<and> fdt k' = fdt k \<or>
    0 \<le> n \<and> fdt k n = None \<and> fd \<in> dom (fdt k) \<and> fdt k' = (fdt k)(n := fdt k fd)"
  using assms dup_ok [of fd k] dup_fail [of fd k]
  by (auto simp: dup_or_minus_one_def split: prod.splits sum.splits)

lemma Sync_copy_spec:
  assumes "Sync_copy K p k = (q, k')"
  shows "sync_fds q \<inter> dom (fdt k) = {}" and "fdt k' |` (- sync_fds q) = fdt k"
proof -
  from assms obtain r w k1 where r: "dup_or_minus_one K (sync_read p) k = (r, k1)"
    and w: "dup_or_minus_one K (sync_write p) k1 = (w, k')"
    and q: "q = \<lparr>sync_read = r, sync_write = w, counter = counter p\<rparr>"
    by (auto simp: Sync_copy_def Let_def split: prod.splits)
  note sr = dup_or_minus_one_spec [OF r] and sw = dup_or_minus_one_spec [OF w]
  show "sync_fds q \<inter> dom (fdt k) = {}"
    using sr sw by (auto simp: q sync_fds_def split: if_splits)
  show "fdt k' |` (- sync_fds q) = fdt k"
    using sr sw by (intro ext) (auto simp: q sync_fds_def restrict_map_def split: if_splits)
qed

lemma Sync_dtor_fdt: "fdt (Sync_dtor K s k) = fdt k |` (- sync_fds s)"
  by (auto simp: Sync_dtor_def close_fdt sync_fds_def restrict_map_def fun_eq_iff)

end

sublocale fd_kernel \<subseteq> syncs: fd_owner fdt "Sync_copy K" "Sync_dtor K" sync_fds
  by unfold_locales (simp_all add: Sync_copy_spec Sync_dtor_fdt)

section \<open>The transfer\<close>

text \<open>The bytes of \<open>m\<close> signals.\<close>

definition tokens :: "nat \<Rightarrow> 8 word list" where
  "tokens m = concat (replicate m (to_bytes 1))"

lemma to_bytes_1: "length (to_bytes 1) = 4" "of_bytes (to_bytes 1) = 1"
  by code_simp+

lemma tokens_Suc: "tokens (Suc m) = to_bytes 1 @ tokens m"
  by (simp add: tokens_def)

lemma tokens_snoc: "tokens m @ to_bytes 1 = tokens (Suc m)"
proof -
  have "concat (replicate m xs) @ xs = concat (replicate (Suc m) xs)" for xs :: "8 word list"
    by (induction m) auto
  then show ?thesis by (simp add: tokens_def)
qed

lemma tokens_0: "tokens 0 = []"
  by (simp add: tokens_def)

text \<open>A sequence of calls on one object: how many signals were sent, and what the waits returned.\<close>

datatype sync_op = Op_Signal int | Op_Wait int

fun sync_run ::
  "'k sync_io \<Rightarrow> sync_op list \<Rightarrow> CrossProcessSync \<Rightarrow> 'k \<Rightarrow> nat \<times> 32 word list \<times> CrossProcessSync \<times> 'k" where
  "sync_run I [] s k = (0, [], s, k)"
| "sync_run I (Op_Signal d # ops) s k =
     (case try_signal_ready_for I s d k of (r, k1) \<Rightarrow>
      case sync_run I ops s k1 of (m, rs, s', k') \<Rightarrow> (if isl r then m else Suc m, rs, s', k'))"
| "sync_run I (Op_Wait d # ops) s k =
     (case wait_for_signal_ready_for I s d k of (r, s1, k1) \<Rightarrow>
      case sync_run I ops s1 k1 of (m, rs, s', k') \<Rightarrow>
        (m, (case r of Inl _ \<Rightarrow> rs | Inr c \<Rightarrow> c # rs), s', k'))"

text \<open>
  What pipe(7) says of small writes and of reads: \<open>desc_of\<close> reads off what a descriptor refers
  to, \<open>bytes\<close> what is in a pipe. A write of at most \<open>PIPE_BUF\<close> bytes is all or nothing; a read
  takes from the front; poll only looks.
\<close>

locale pipe_io =
  fixes I :: "'k sync_io" and desc_of :: "'k \<Rightarrow> int \<rightharpoonup> desc" and bytes :: "'k \<Rightarrow> nat \<Rightarrow> 8 word list"
  assumes write_ok: "io_write I fd bs k = (Inr m, k') \<Longrightarrow> desc_of k fd = Some (Pipe_Write n) \<Longrightarrow> length bs \<le> 4096 \<Longrightarrow>
      m = int (length bs) \<and> bytes k' n = bytes k n @ bs \<and> desc_of k' = desc_of k"
    and write_fail: "io_write I fd bs k = (Inl e, k') \<Longrightarrow> bytes k' = bytes k \<and> desc_of k' = desc_of k"
    and read_ok: "io_read I fd c k = (Inr bs, k') \<Longrightarrow> desc_of k fd = Some (Pipe_Read n) \<Longrightarrow>
      bs = take c (bytes k n) \<and> bytes k' n = drop c (bytes k n) \<and> desc_of k' = desc_of k"
    and read_fail: "io_read I fd c k = (Inl e, k') \<Longrightarrow> bytes k' = bytes k \<and> desc_of k' = desc_of k"
    and poll_same: "io_poll I fd t k = (r, k') \<Longrightarrow> bytes k' = bytes k \<and> desc_of k' = desc_of k"
begin

lemma try_signal_spec:
  assumes "try_signal_ready_for I s d k = (r, k')" and "desc_of k (sync_write s) = Some (Pipe_Write n)"
    and "bytes k n = tokens m"
  shows "desc_of k' = desc_of k \<and> bytes k' n = tokens (if isl r then m else Suc m)"
proof -
  obtain rp k1 where po: "io_poll I (sync_write s) (poll_timeout d) k = (rp, k1)" by fastforce
  note same = poll_same [OF po]
  obtain rw k2 where wr: "io_write I (sync_write s) (to_bytes 1) k1 = (rw, k2)" by fastforce
  show ?thesis
  proof (cases rw)
    case (Inl e)
    with write_fail wr same assms po show ?thesis
      by (auto simp: try_signal_ready_for_def split: sum.splits if_splits)
  next
    case (Inr x)
    have d: "desc_of k1 (sync_write s) = Some (Pipe_Write n)" using same assms(2) by simp
    have "x = 4" and "bytes k2 n = tokens (Suc m)" and "desc_of k2 = desc_of k"
      using write_ok [OF wr [unfolded Inr] d] same assms(3) by (simp_all add: to_bytes_1 tokens_snoc)
    with assms same po wr Inr show ?thesis
      by (auto simp: try_signal_ready_for_def split: sum.splits if_splits)
  qed
qed

lemma wait_spec:
  assumes "wait_for_signal_ready_for I s d k = (r, s', k')" and "desc_of k (sync_read s) = Some (Pipe_Read n)"
    and "bytes k n = tokens m"
  shows "desc_of k' = desc_of k \<and> sync_read s' = sync_read s \<and> sync_write s' = sync_write s \<and>
    (case r of Inl _ \<Rightarrow> s' = s \<and> bytes k' n = tokens m
     | Inr c \<Rightarrow> 0 < m \<and> c = counter s + 1 \<and> counter s' = c \<and> bytes k' n = tokens (m - 1))"
proof -
  obtain rp k1 where po: "io_poll I (sync_read s) (poll_timeout d) k = (rp, k1)" by fastforce
  note same = poll_same [OF po]
  obtain rd k2 where rd: "io_read I (sync_read s) 4 k1 = (rd, k2)" by fastforce
  show ?thesis
  proof (cases rd)
    case (Inl e)
    with read_fail rd same assms po show ?thesis
      by (auto simp: wait_for_signal_ready_for_def split: sum.splits if_splits)
  next
    case (Inr bs)
    have d: "desc_of k1 (sync_read s) = Some (Pipe_Read n)" using same assms(2) by simp
    note ro = read_ok [OF rd [unfolded Inr] d]
    show ?thesis
    proof (cases m)
      case 0
      with ro same assms(3) have "bs = []" and "bytes k2 n = []" and "desc_of k2 = desc_of k" by (simp_all add: tokens_0)
      with assms same po rd Inr 0 show ?thesis
        by (auto simp: wait_for_signal_ready_for_def tokens_0 split: sum.splits if_splits)
    next
      case (Suc m')
      with ro same assms(3) have "bs = to_bytes 1" and "bytes k2 n = tokens m'" and "desc_of k2 = desc_of k"
        by (simp_all add: tokens_Suc to_bytes_1)
      with assms same po rd Inr Suc show ?thesis
        by (auto simp: wait_for_signal_ready_for_def to_bytes_1 Let_def split: sum.splits if_splits)
    qed
  qed
qed

lemma sync_run_spec:
  assumes "sync_run I ops s k = (m, rs, s', k')" and "desc_of k (sync_read s) = Some (Pipe_Read n)"
    and "desc_of k (sync_write s) = Some (Pipe_Write n)" and "bytes k n = tokens m0"
  shows "length rs \<le> m0 + m \<and> rs = map (\<lambda>i. counter s + of_nat i) [1..<Suc (length rs)] \<and>
    counter s' = counter s + of_nat (length rs) \<and> bytes k' n = tokens (m0 + m - length rs)"
  using assms
proof (induction ops arbitrary: s k m rs m0)
  case (Cons op ops)
  show ?case
  proof (cases op)
    case (Op_Signal d)
    obtain r k1 where t: "try_signal_ready_for I s d k = (r, k1)" by fastforce
    obtain m1 rs1 where r1: "sync_run I ops s k1 = (m1, rs1, s', k')" and m: "m = (if isl r then m1 else Suc m1)"
      and rs: "rs = rs1"
      using Cons.prems(1) Op_Signal t by (auto split: prod.splits)
    note sp = try_signal_spec [OF t Cons.prems(3,4)]
    from Cons.IH [OF r1, of "if isl r then m0 else Suc m0"] sp Cons.prems m rs show ?thesis
      by (auto split: if_splits)
  next
    case (Op_Wait d)
    obtain r s1 k1 where w: "wait_for_signal_ready_for I s d k = (r, s1, k1)" by (metis prod_cases3)
    obtain rs1 where r1: "sync_run I ops s1 k1 = (m, rs1, s', k')"
      and rs: "rs = (case r of Inl _ \<Rightarrow> rs1 | Inr c \<Rightarrow> c # rs1)"
      using Cons.prems(1) Op_Wait w by (auto split: prod.splits)
    note sp = wait_spec [OF w Cons.prems(2,4)]
    show ?thesis
    proof (cases r)
      case (Inl e)
      with Cons.IH [OF r1, of m0] sp Cons.prems rs show ?thesis by auto
    next
      case (Inr c)
      with sp have pos: "0 < m0" and c: "c = counter s + 1" "counter s1 = c" by auto
      from Cons.IH [OF r1, of "m0 - 1"] sp Cons.prems Inr have ih:
        "length rs1 \<le> m0 - 1 + m" "rs1 = map (\<lambda>i. counter s1 + of_nat i) [1..<Suc (length rs1)]"
        "counter s' = counter s1 + of_nat (length rs1)" "bytes k' n = tokens (m0 - 1 + m - length rs1)" by auto
      have "map (\<lambda>i. counter s + of_nat i) [1..<Suc (Suc (length rs1))] =
          (counter s + 1) # map (\<lambda>i. counter s1 + of_nat i) [1..<Suc (length rs1)]"
        by (subst upt_conv_Cons) (auto simp: c map_Suc_upt [symmetric] add.assoc simp del: upt_Suc)
      with ih rs Inr c pos show ?thesis by (auto simp: add.assoc)
    qed
  qed
qed (simp add: assms)

end

text \<open>A pipe in memory: reading from an empty pipe fails, writing never does.\<close>

record sync_ref =
  sr_desc :: "int \<rightharpoonup> desc"
  sr_bytes :: "nat \<Rightarrow> 8 word list"

definition ref_io :: "sync_ref sync_io" where
  "ref_io =
     \<lparr>io_poll = (\<lambda>fd t k. (case sr_desc k fd of
          Some (Pipe_Read n) \<Rightarrow> Inr (if sr_bytes k n = [] then 0 else 1)
        | Some _ \<Rightarrow> Inr 1 | None \<Rightarrow> Inl EBADF, k)),
      io_write = (\<lambda>fd bs k. case sr_desc k fd of
          Some (Pipe_Write n) \<Rightarrow> (Inr (int (length bs)), k\<lparr>sr_bytes := (sr_bytes k)(n := sr_bytes k n @ bs)\<rparr>)
        | _ \<Rightarrow> (Inl EBADF, k)),
      io_read = (\<lambda>fd c k. case sr_desc k fd of
          Some (Pipe_Read n) \<Rightarrow> if sr_bytes k n = [] then (Inl EAGAIN, k)
            else (Inr (take c (sr_bytes k n)), k\<lparr>sr_bytes := (sr_bytes k)(n := drop c (sr_bytes k n))\<rparr>)
        | _ \<Rightarrow> (Inl EBADF, k)),
      io_errno = (\<lambda>_. EAGAIN)\<rparr>"

interpretation rp: pipe_io ref_io sr_desc sr_bytes
  by unfold_locales (auto simp: ref_io_def split: option.splits desc.splits if_splits)

section \<open>Properties\<close>

text \<open>
  C30: signals are neither lost nor invented nor counted twice. In any sequence of signals and
  waits on a pipe that already holds some signals, with timeouts and errors in between, the
  waits that succeed return consecutive values of the counter (modulo 2 to the 32), there
  are at most as many as signals were sent, and the difference is what is left in the pipe.
\<close>

theorem sync_counts_signals:
  assumes "pipe_io I desc_of bytes" and "sync_run I ops s k = (m, rs, s', k')"
    and "desc_of k (sync_read s) = Some (Pipe_Read n)" and "desc_of k (sync_write s) = Some (Pipe_Write n)"
    and "bytes k n = tokens m0"
  shows "length rs \<le> m0 + m \<and> rs = map (\<lambda>i. counter s + of_nat i) [1..<Suc (length rs)] \<and>
    counter s' = counter s + of_nat (length rs) \<and> bytes k' n = tokens (m0 + m - length rs)"
  by (rule pipe_io.sync_run_spec [OF assms])

theorem sync_counts_signals_witness:
  "\<exists>s' k'. sync_run ref_io [Op_Wait 0, Op_Signal 0, Op_Signal 0, Op_Wait 0, Op_Wait 0, Op_Wait 0]
      \<lparr>sync_read = 3, sync_write = 4, counter = 7\<rparr>
      \<lparr>sr_desc = [3 \<mapsto> Pipe_Read 1, 4 \<mapsto> Pipe_Write 1], sr_bytes = (\<lambda>_. [])\<rparr> = (2, [8, 9], s', k') \<and> counter s' = 9"
proof -
  let ?ops = "[Op_Wait 0, Op_Signal 0, Op_Signal 0, Op_Wait 0, Op_Wait 0, Op_Wait 0]"
  let ?s = "\<lparr>sync_read = 3, sync_write = 4, counter = 7\<rparr>"
  let ?k = "\<lparr>sr_desc = [3 \<mapsto> Pipe_Read 1, 4 \<mapsto> Pipe_Write 1], sr_bytes = (\<lambda>_. [])\<rparr>"
  have "fst (sync_run ref_io ?ops ?s ?k) = 2" and "fst (snd (sync_run ref_io ?ops ?s ?k)) = [8, 9]"
    by code_simp+
  then obtain s' k' where r: "sync_run ref_io ?ops ?s ?k = (2, [8, 9], s', k')" by (metis prod.collapse)
  from sync_counts_signals [OF rp.pipe_io_axioms r, of 1 0] r show ?thesis by (simp add: tokens_0)
qed

text \<open>
  An object that is constructed, copied, assigned and destroyed gives back every descriptor it
  took: a copy holds descriptors of its own, and destroying copy and original, or assigning
  over the copy first, leaves the table as it was before the construction.
\<close>

theorem sync_life_cycle:
  assumes "fd_kernel K fdt" and "Sync_ctor K k = (Inr a, k1)" and "Sync_copy K a k1 = (b, k2)"
    and "Sync_assign K b a k2 = (c, k3)"
  shows "sync_fds b \<inter> dom (fdt k1) = {} \<and> fdt (Sync_dtor K a (Sync_dtor K b k2)) = fdt k \<and>
    fdt (Sync_dtor K c (Sync_dtor K a k3)) = fdt k"
proof -
  note spec = fd_kernel.Sync_copy_spec [OF assms(1)] and dt = fd_kernel.Sync_dtor_fdt [OF assms(1)]
  from assms(2) have "sys_pipe K k = (Inr (sync_read a, sync_write a), k1)"
    by (auto simp: Sync_ctor_def split: prod.splits sum.splits)
  note sp = fd_kernel.pipe_ok [OF assms(1) this]
  then have k: "fdt k1 |` (- sync_fds a) = fdt k"
    by (auto simp: sync_fds_def restrict_map_def fun_eq_iff)
  have asg: "Sync_copy K a (Sync_dtor K b k2) = (c, k3)"
    using assms(4) by (simp add: Sync_assign_def Sync_copy_def Sync_dtor_def)
  have b: "fdt (Sync_dtor K b k2) = fdt k1" using spec(2) [OF assms(3)] by (simp add: dt)
  have "fdt k3 |` (- sync_fds c) = fdt k1" using spec(2) [OF asg] b by simp
  then have "fdt (Sync_dtor K c (Sync_dtor K a k3)) = fdt k"
    using k by (metis dt Int_commute restrict_restrict)
  then show ?thesis using spec(1) [OF assms(3)] b k by (simp add: dt)
qed

theorem sync_life_cycle_witness:
  "\<exists>a k1 b k2. Sync_ctor ref_api (ref_boot 8) = (Inr a, k1) \<and> Sync_copy ref_api a k1 = (b, k2) \<and>
     rk_fdt (Sync_dtor ref_api a (Sync_dtor ref_api b k2)) = rk_fdt (ref_boot 8)"
proof -
  have "\<not> isl (fst (Sync_ctor ref_api (ref_boot 8)))" by code_simp
  then obtain a k1 where a: "Sync_ctor ref_api (ref_boot 8) = (Inr a, k1)"
    by (cases "Sync_ctor ref_api (ref_boot 8)"; cases "fst (Sync_ctor ref_api (ref_boot 8))") auto
  obtain b k2 where b: "Sync_copy ref_api a k1 = (b, k2)" by fastforce
  obtain c k3 where "Sync_assign ref_api b a k2 = (c, k3)" by fastforce
  from sync_life_cycle [OF rk.fd_kernel_axioms a b this] a b show ?thesis by blast
qed

text \<open>
  The timeout reaches poll unchanged exactly if it fits an \<open>int\<close>; a longer duration is
  reduced modulo 2 to the 32, so that, from about 25 days on, a wait may end at once or never:
  at half of that range it is negative, which poll takes as no limit.
\<close>

theorem sync_timeout_narrowing:
  "(poll_timeout d = d \<longleftrightarrow> - (2 ^ 31) \<le> d \<and> d < 2 ^ 31) \<and>
   poll_timeout (2 ^ 31) = - (2 ^ 31) \<and> poll_timeout (2 ^ 32) = 0"
proof -
  have "poll_timeout d = d \<longleftrightarrow> - (2 ^ 31) \<le> d \<and> d < 2 ^ 31"
    by (simp add: poll_timeout_def sint_sbintrunc' signed_take_bit_int_eq_self_iff)
  moreover have "poll_timeout (2 ^ 31) = - (2 ^ 31)" and "poll_timeout (2 ^ 32) = 0" by code_simp+
  ultimately show ?thesis by blast
qed

end
