(* ===== verification/Fork_And_Run.thy ===== *)
theory Fork_And_Run
  imports Fork
begin

text \<open>
  \<open>core::testing::fork_and_run\<close> (\<open>fork_and_run.h\<close>, \<open>fork_and_run.cpp\<close>): run a service and a
  client in two child processes, wait for the client, terminate the service, and say which
  of the two failed. The local objects are destroyed in reverse order of construction, when
  the function returns and when an exception leaves it; destroying a child process object
  kills the child.
\<close>

section \<open>ForkAndRunResult\<close>

type_synonym ForkAndRunResult = "32 word"

definition far_empty :: ForkAndRunResult where "far_empty = 0"
definition far_client_failed :: ForkAndRunResult where "far_client_failed = push_bit 0 1"
definition far_service_failed :: ForkAndRunResult where "far_service_failed = push_bit 1 1"

definition far_or :: "ForkAndRunResult \<Rightarrow> ForkAndRunResult \<Rightarrow> ForkAndRunResult" where
  "far_or lhs rhs = lhs OR rhs"

definition far_and :: "ForkAndRunResult \<Rightarrow> ForkAndRunResult \<Rightarrow> ForkAndRunResult" where
  "far_and lhs rhs = lhs AND rhs"

lemmas far_defs = far_empty_def far_client_failed_def far_service_failed_def far_or_def far_and_def

interpretation fr: bit_flags far_or "\<lambda>r f. far_and r f \<noteq> far_empty" far_empty
  "[far_client_failed, far_service_failed]"
  by unfold_locales (auto simp: far_defs or_and_zero)

section \<open>fork_and_run\<close>

text \<open>The two \<open>switch\<close> statements: whether a result counts as a failure.\<close>

definition counts_as_failure :: "wait_Result \<Rightarrow> bool" where
  "counts_as_failure result =
     (case wr_status result of
        exited \<Rightarrow> (case wr_detail result of If_Exited st \<Rightarrow> st = exit_failure | _ \<Rightarrow> False)
      | _ \<Rightarrow> True)"

definition destroy_child :: "'k api \<Rightarrow> ChildProcess \<Rightarrow> 'k \<Rightarrow> 'k" where
  "destroy_child K c k = Private_dtor K (child_d c) k"

definition fork_and_run ::
  "'k api \<Rightarrow> report_env \<Rightarrow> ('k \<Rightarrow> 'i main_outcome \<times> 'k) \<Rightarrow> ('k \<Rightarrow> 'i main_outcome \<times> 'k) \<Rightarrow> Pipe option \<Rightarrow>
   (exn, ForkAndRunResult, 'k) call" where
  "fork_and_run K env service client s k =
     (let r1 = posix_fork K env service stream_empty s k in
      case fr_parent r1 of
        Inl e \<Rightarrow> (Inl e, fr_kernel r1)
      | Inr service_process \<Rightarrow>
     (let r2 = posix_fork K env client stream_empty (fr_static r1) (fr_kernel r1) in
      case fr_parent r2 of
        Inl e \<Rightarrow> (Inl e, destroy_child K service_process (fr_kernel r2))
      | Inr client_process \<Rightarrow>
     (let cleanup = (\<lambda>x. destroy_child K service_process (destroy_child K client_process x)) in
      case wait_for K client_process wait_untraced (fr_kernel r2) of
        (Inl e, k3) \<Rightarrow> (Inl e, cleanup k3)
      | (Inr client_result, k3) \<Rightarrow>
     (let result = (if counts_as_failure client_result then far_or far_empty far_client_failed else far_empty) in
      case send_signal_or_throw K service_process sig_term k3 of
        (Inl e, k4) \<Rightarrow> (Inl e, cleanup k4)
      | (Inr _, k4) \<Rightarrow>
     (case wait_for K service_process wait_untraced k4 of
        (Inl e, k5) \<Rightarrow> (Inl e, cleanup k5)
      | (Inr service_result, k5) \<Rightarrow>
          (Inr (if counts_as_failure service_result then far_or result far_service_failed else result),
           cleanup k5))))))"

text \<open>
  The macros \<open>TESTP\<close> and \<open>TESTP_F\<close>: the code runs in a forked child and its status is checked
  in the parent. The result is whether both expectations hold, or the exception that leaves
  the test.
\<close>

definition testp_status :: "bool \<Rightarrow> exit_Status" where
  "testp_status has_failure = (if has_failure then exit_failure else exit_success)"

definition testp_expectations :: "wait_Result \<Rightarrow> bool" where
  "testp_expectations result \<longleftrightarrow> wr_status result = exited \<and> wr_detail result = If_Exited exit_success"

definition testp ::
  "'k api \<Rightarrow> report_env \<Rightarrow> ('k \<Rightarrow> 'i main_outcome \<times> 'k) \<Rightarrow> Pipe option \<Rightarrow> (exn, bool, 'k) call" where
  "testp K env test s k =
     (let r = posix_fork K env test stream_empty s k in
      case fr_parent r of
        Inl e \<Rightarrow> (Inl e, fr_kernel r)
      | Inr child \<Rightarrow> (case wait_for K child wait_untraced (fr_kernel r) of
          (Inl e, k1) \<Rightarrow> (Inl e, destroy_child K child k1)
        | (Inr result, k1) \<Rightarrow> (Inr (testp_expectations result), destroy_child K child k1)))"

text \<open>\<open>TESTP_F\<close>, the variant for a fixture, has a body of its own with the same statements.\<close>

definition testp_f ::
  "'k api \<Rightarrow> report_env \<Rightarrow> ('k \<Rightarrow> 'i main_outcome \<times> 'k) \<Rightarrow> Pipe option \<Rightarrow> (exn, bool, 'k) call" where
  "testp_f K env test s k =
     (let r = posix_fork K env test stream_empty s k in
      case fr_parent r of
        Inl e \<Rightarrow> (Inl e, fr_kernel r)
      | Inr child \<Rightarrow> (case wait_for K child wait_untraced (fr_kernel r) of
          (Inl e, k1) \<Rightarrow> (Inl e, destroy_child K child k1)
        | (Inr result, k1) \<Rightarrow> (Inr (testp_expectations result), destroy_child K child k1)))"

section \<open>Lemmas\<close>

context fd_kernel
begin

lemma wait_for_fdt: "wait_for K p flags k = (r, k') \<Longrightarrow> fdt k' = fdt k"
  using waitpid_fdt [of "Process_pid p" "uint flags" k]
  by (auto simp: wait_for_def split: prod.splits sum.splits if_splits)

lemma send_signal_fdt: "send_signal_or_throw K d sig k = (r, k') \<Longrightarrow> fdt k' = fdt k"
  using kill_fdt [of "sig_pid d" "signo sig" k]
  by (auto simp: send_signal_or_throw_def split: prod.splits sum.splits)

lemma fork_destroy:
  assumes "s = None \<or> s = Some closed_pipe" and "fr_parent (posix_fork K env main flags s k) = Inr c"
    and "fdt k' = fdt (fr_kernel (posix_fork K env main flags s k))"
  shows "fdt (destroy_child K c k') = fdt k"
  using posix_fork_frame(2) [OF assms(1,2)] assms(3) by (simp add: destroy_child_def Private_dtor_fdt)

end

section \<open>The signals sent\<close>

text \<open>
  Making pipes, copying and closing them and forking sends no signal and leaves the caller's pid
  as it is, so that a child process object knows its creator.
\<close>

context kill_log
begin

definition same :: "'k \<Rightarrow> 'k \<Rightarrow> bool" where
  "same k k' \<longleftrightarrow> sent k' = sent k \<and> sys_getpid K k' = sys_getpid K k"

lemma same_refl [simp]: "same k k"
  by (simp add: same_def)

lemma same_trans: "same a b \<Longrightarrow> same b c \<Longrightarrow> same a c"
  by (simp add: same_def)

lemma same_calls:
  "sys_pipe K k = (rp, k1) \<Longrightarrow> same k k1" "sys_dup K fd k = (rd, k1) \<Longrightarrow> same k k1"
  "sys_close K fd k = (rc, k1) \<Longrightarrow> same k k1" "sys_fork K k = (rf, k1) \<Longrightarrow> same k k1"
  "sys_waitpid K pid opts k = (rw, k1) \<Longrightarrow> same k k1"
  using sent_pipe [of k] sent_dup [of fd k] sent_close [of fd k] sent_fork [of k] sent_waitpid [of pid opts k]
    getpid_pipe [of k] getpid_dup [of fd k] getpid_close [of fd k] getpid_fork_caller [of k] getpid_waitpid [of pid opts k]
  by (auto simp: same_def)

lemma same_close_if_open [simp]: "same k (close_if_open K fd k)"
  by (simp add: close_if_open_def) (metis prod.collapse same_calls(3))

lemma same_Pipe_dtor: "same k k' \<Longrightarrow> same k (Pipe_dtor K p k')"
  unfolding Pipe_dtor_def by (meson same_close_if_open same_trans)

lemma same_destroy_pipes: "same k k' \<Longrightarrow> same k (destroy_pipes K a b c k')"
  unfolding destroy_pipes_def by (simp add: same_Pipe_dtor)

lemma same_dup_if_open: "dup_if_open K fd k = (n, k') \<Longrightarrow> same k k'"
  by (auto simp: dup_if_open_def dup_or_minus_one_def dest: same_calls(2) split: if_splits prod.splits sum.splits)

lemma same_Pipe_copy: "Pipe_copy K p k = (q, k') \<Longrightarrow> same k k'"
  by (auto simp: Pipe_copy_def Let_def dest!: same_dup_if_open split: prod.splits elim: same_trans)

lemma same_Pipe_ctor: "Pipe_ctor K k = (r, k') \<Longrightarrow> same k k'"
  by (auto simp: Pipe_ctor_def dest: same_calls(1) split: prod.splits sum.splits)

lemma same_close_ends:
  "close_read_fd K p k = (q, k') \<Longrightarrow> same k k'" "close_write_fd K p k = (q, k') \<Longrightarrow> same k k'"
  by (auto simp: close_read_fd_def close_write_fd_def split: if_splits) (metis prod.collapse same_calls(3))+

lemma same_Pipe_invalid: "Pipe_invalid K s k = (r, s', k') \<Longrightarrow> same k k'"
  by (auto simp: Pipe_invalid_def Let_def dest!: same_Pipe_copy same_Pipe_ctor same_close_ends
      split: option.splits prod.splits sum.splits elim: same_trans) (meson same_trans)+

lemma same_invalid_pipes: "invalid_pipes K s k = (r, s', k') \<Longrightarrow> same k k'"
  by (auto simp: invalid_pipes_def dest!: same_Pipe_invalid split: prod.splits sum.splits
      intro!: same_Pipe_dtor elim: same_trans)

lemma same_fork_pipe: "fork_pipe K want p k = (r, k') \<Longrightarrow> same k k'"
  by (auto simp: fork_pipe_def Pipe_assign_eq dest!: same_Pipe_copy same_Pipe_ctor
      split: if_splits prod.splits sum.splits intro!: same_Pipe_dtor)
    (meson same_Pipe_dtor same_refl same_trans)

lemma same_open_pipes: "open_pipes K flags a b c k = (r, k') \<Longrightarrow> same k k'"
  by (auto simp: open_pipes_def dest!: same_fork_pipe split: prod.splits sum.splits
      intro!: same_destroy_pipes elim: same_trans)

lemma same_Private_ctor: "Private_ctor K pid a b c k = (d, k') \<Longrightarrow> same k k'"
  by (auto simp: Private_ctor_def Let_def dest!: same_Pipe_copy split: prod.splits) (meson same_trans)

lemma same_fork_parent:
  assumes "fork_parent K pid a b c k = (r, k')"
  shows "same k k'" and "r = Inr ch \<Longrightarrow> original_parent_pid (child_d ch) = sys_getpid K k \<and>
    original_child_pid (child_d ch) = Process_pid ch \<and> Process_pid ch = pid \<and> sig_pid ch = pid"
proof -
  obtain p1 k1 where c1: "close_read_fd K a k = (p1, k1)" by fastforce
  obtain p2 k2 where c2: "close_write_fd K b k1 = (p2, k2)" by fastforce
  obtain p3 k3 where c3: "close_write_fd K c k2 = (p3, k3)" by fastforce
  obtain rr k4 where ct: "ChildProcess_ctor K pid p1 p2 p3 k3 = (rr, k4)" by fastforce
  have r: "r = rr" "k' = destroy_pipes K p1 p2 p3 k4" using assms c1 c2 c3 ct by (simp_all add: fork_parent_def)
  have "same k3 k4" using ct same_Private_ctor by (auto simp: ChildProcess_ctor_def split: sum.splits prod.splits)
  with same_close_ends(1) [OF c1] same_close_ends(2) [OF c2] same_close_ends(2) [OF c3] have "same k k4"
    by (meson same_trans)
  then show "same k k'" unfolding r(2) by (rule same_destroy_pipes)
  assume "r = Inr ch"
  with ct r(1) have "ChildProcess_ctor K pid p1 p2 p3 k3 = (Inr ch, k4)" by simp
  then have "Private_ctor K pid p1 p2 p3 k3 = (child_d ch, k4)" "sig_pid ch = pid" "proc_pid ch = pid"
    by (simp_all add: run_iff)
  with Private_ctor_spec(5,6) [OF this(1)] \<open>same k k4\<close>
  show "original_parent_pid (child_d ch) = sys_getpid K k \<and>
      original_child_pid (child_d ch) = Process_pid ch \<and> Process_pid ch = pid \<and> sig_pid ch = pid"
    by (simp add: same_def Process_pid_def)
qed

lemma same_posix_fork:
  shows "same k (fr_kernel (posix_fork K env main flags s k))"
    and "fr_parent (posix_fork K env main flags s k) = Inr c \<Longrightarrow>
      original_parent_pid (child_d c) = sys_getpid K k \<and> original_child_pid (child_d c) = Process_pid c \<and>
      0 < Process_pid c \<and> sig_pid c = Process_pid c"
proof -
  obtain ri s1 k1 where iv: "invalid_pipes K s k = (ri, s1, k1)" by (metis prod.collapse)
  note k1 = same_invalid_pipes [OF iv]
  show "same k (fr_kernel (posix_fork K env main flags s k))"
    using k1 iv by (auto simp: posix_fork_def dest!: same_open_pipes same_calls(4) same_fork_parent(1)
        split: prod.splits sum.splits intro!: same_destroy_pipes intro: same_trans)
  assume "fr_parent (posix_fork K env main flags s k) = Inr c"
  then obtain a b d k2 pid kc k3 k4 where op: "open_pipes K flags a b d k1 = k2" and
    fk: "sys_fork K (snd k2) = (Inr (pid, kc), k3)" and pa: "\<exists>x y z. fork_parent K pid x y z k3 = (Inr c, k4)"
    using iv by (auto simp: posix_fork_def split: prod.splits sum.splits) (metis snd_conv)
  have "same k1 (snd k2)" using same_open_pipes [of flags a b d k1 "fst k2" "snd k2"] op by simp
  then have "sys_getpid K k3 = sys_getpid K k" using k1 same_calls(4) [OF fk] by (simp add: same_def)
  with pa same_fork_parent(2) fork_fdt [OF fk]
  show "original_parent_pid (child_d c) = sys_getpid K k \<and> original_child_pid (child_d c) = Process_pid c \<and>
      0 < Process_pid c \<and> sig_pid c = Process_pid c" by metis
qed

text \<open>Destroying a child process object in its creator kills the child, and that only.\<close>

lemma destroy_child_sent:
  assumes "original_parent_pid (child_d c) = sys_getpid K k" and "original_child_pid (child_d c) = Process_pid c"
    and "0 < Process_pid c"
  shows "sent (destroy_child K c k) = sent k @ [(Process_pid c, 9)]"
    and "sys_getpid K (destroy_child K c k) = sys_getpid K k"
proof -
  let ?k = "snd (sys_kill K (Process_pid c) 9 k)"
  have d: "destroy_child K c k = destroy_pipes K (pipes_stdin (child_d c)) (pipes_stdout (child_d c)) (pipes_stderr (child_d c)) ?k"
    using assms by (simp add: destroy_child_def Private_dtor_def destroy_pipes_def SIGKILL_def)
  have "same ?k (destroy_child K c k)" unfolding d by (rule same_destroy_pipes) simp
  then show "sent (destroy_child K c k) = sent k @ [(Process_pid c, 9)]"
    and "sys_getpid K (destroy_child K c k) = sys_getpid K k"
    by (simp_all add: same_def sent_kill getpid_kill)
qed

lemma same_wait_for: "wait_for K p flags k = (r, k') \<Longrightarrow> same k k'"
  by (auto simp: wait_for_def dest: same_calls(5) split: prod.splits sum.splits if_splits)

lemma send_signal_sent:
  assumes "send_signal_or_throw K d sig k = (r, k')"
  shows "sent k' = sent k @ [(sig_pid d, signo sig)]" and "sys_getpid K k' = sys_getpid K k"
  using assms sent_kill [of "sig_pid d" "signo sig" k] getpid_kill [of "sig_pid d" "signo sig" k]
  by (auto simp: send_signal_or_throw_def split: prod.splits sum.splits)

end

text \<open>The results that do not count as a failure: a normal exit with a code other than 1.\<close>

lemma wait_for_exited_detail:
  assumes "wait_for K p flags k = (Inr res, k')"
  shows "counts_as_failure res \<longleftrightarrow> \<not> (\<exists>code. code \<noteq> 1 \<and> res = \<lparr>wr_status = exited, wr_detail = If_Exited (Exit_Status code)\<rparr>)"
proof -
  have "wr_status (wait_decode st) = exited \<Longrightarrow>
      \<exists>code. wait_decode st = \<lparr>wr_status = exited, wr_detail = If_Exited (Exit_Status code)\<rparr>" for st
    by (simp add: wait_decode_def wait_Result_default_def split: if_splits)
  with assms have "wr_status res = exited \<Longrightarrow>
      \<exists>code. res = \<lparr>wr_status = exited, wr_detail = If_Exited (Exit_Status code)\<rparr>"
    by (auto simp: wait_for_def wait_Result_default_def split: prod.splits sum.splits if_splits)
  then show ?thesis by (cases "wr_status res") (auto simp: counts_as_failure_def exit_failure_def)
qed

text \<open>The kernel state at the end of \<open>fork_and_run\<close>, by the first call that fails.\<close>

lemma fork_and_run_end:
  assumes "fork_and_run K env service client s k = (r, k')" and "r1 = posix_fork K env service stream_empty s k"
    and "r2 = posix_fork K env client stream_empty (fr_static r1) (fr_kernel r1)"
  shows "fr_parent r1 = Inl e \<Longrightarrow> k' = fr_kernel r1"
    and "fr_parent r1 = Inr sp \<Longrightarrow> fr_parent r2 = Inl e \<Longrightarrow> k' = destroy_child K sp (fr_kernel r2)"
    and "fr_parent r1 = Inr sp \<Longrightarrow> fr_parent r2 = Inr cp \<Longrightarrow> wait_for K cp wait_untraced (fr_kernel r2) = (ra, k3) \<Longrightarrow>
      send_signal_or_throw K sp sig_term k3 = (rb, k4) \<Longrightarrow> wait_for K sp wait_untraced k4 = (rc, k5) \<Longrightarrow>
      k' = destroy_child K sp (destroy_child K cp (if isl ra then k3 else if isl rb then k4 else k5))"
  using assms by (auto simp: fork_and_run_def Let_def split: sum.splits)

context fd_kernel
begin

lemma fork_and_run_fdt:
  assumes s: "s = None \<or> s = Some closed_pipe" and run: "fork_and_run K env service client s k = (r, k')"
  shows "fdt k' = fdt k"
proof -
  let ?r1 = "posix_fork K env service stream_empty s k"
  let ?r2 = "posix_fork K env client stream_empty (fr_static ?r1) (fr_kernel ?r1)"
  note fin = fork_and_run_end [OF run refl refl] and st = posix_fork_frame(3) [OF s, of env service stream_empty k]
  show ?thesis
  proof (cases "fr_parent ?r1")
    case (Inl e)
    with fin(1) posix_fork_frame(1) [OF s Inl] show ?thesis by simp
  next
    case (Inr sp)
    note d1 = fork_destroy [OF s Inr] and end2 = fin(2) [OF Inr] and end3 = fin(3) [OF Inr]
    show ?thesis
    proof (cases "fr_parent ?r2")
      case (Inl e)
      with d1 end2 posix_fork_frame(1) [OF st Inl] show ?thesis by simp
    next
      case (Inr cp)
      obtain ra k3 where a: "wait_for K cp wait_untraced (fr_kernel ?r2) = (ra, k3)" by fastforce
      obtain rb k4 where b: "send_signal_or_throw K sp sig_term k3 = (rb, k4)" by fastforce
      obtain rc k5 where c: "wait_for K sp wait_untraced k4 = (rc, k5)" by fastforce
      have "fdt (destroy_child K sp (destroy_child K cp x)) = fdt k" if "fdt x = fdt (fr_kernel ?r2)" for x
        using d1 fork_destroy [OF st Inr that] by simp
      with wait_for_fdt [OF a] send_signal_fdt [OF b] wait_for_fdt [OF c] end3 [OF Inr a b c] show ?thesis by simp
    qed
  qed
qed

end

context kill_log
begin

lemma fork_and_run_sent:
  assumes run: "fork_and_run K env service client s k = (r, k')" and r1: "r1 = posix_fork K env service stream_empty s k"
    and r2: "r2 = posix_fork K env client stream_empty (fr_static r1) (fr_kernel r1)" and sp: "fr_parent r1 = Inr sp"
  shows "fr_parent r2 = Inl e \<Longrightarrow> sent k' = sent k @ [(Process_pid sp, 9)]"
    and "fr_parent r2 = Inr cp \<Longrightarrow> sent k' = sent k @
      (if isl (fst (wait_for K cp wait_untraced (fr_kernel r2))) then [] else [(Process_pid sp, 15)]) @
      [(Process_pid cp, 9), (Process_pid sp, 9)]"
proof -
  note own1 = same_posix_fork(2) [OF sp [unfolded r1]]
  have k2: "same k (fr_kernel r2)" unfolding r2 r1 by (meson same_posix_fork(1) same_trans)
  show "sent k' = sent k @ [(Process_pid sp, 9)]" if "fr_parent r2 = Inl e"
    using destroy_child_sent(1) [of sp "fr_kernel r2"] own1 k2 fork_and_run_end(2) [OF run r1 r2 sp that]
    by (simp add: same_def)
  assume cp: "fr_parent r2 = Inr cp"
  note own2 = same_posix_fork(2) [OF cp [unfolded r2]]
  have pid: "original_parent_pid (child_d cp) = sys_getpid K k"
    using own2 same_posix_fork(1) [of k env service stream_empty s] by (simp add: same_def r1)
  have killed: "sent (destroy_child K sp (destroy_child K cp x)) = sent x @ [(Process_pid cp, 9), (Process_pid sp, 9)]"
    if "sys_getpid K x = sys_getpid K k" for x
    using destroy_child_sent [of cp x] destroy_child_sent [of sp "destroy_child K cp x"] own1 own2 pid that by simp
  obtain ra k3 where a: "wait_for K cp wait_untraced (fr_kernel r2) = (ra, k3)" by fastforce
  obtain rb k4 where b: "send_signal_or_throw K sp sig_term k3 = (rb, k4)" by fastforce
  obtain rc k5 where c: "wait_for K sp wait_untraced k4 = (rc, k5)" by fastforce
  have k3: "sys_getpid K k3 = sys_getpid K k" "sent k3 = sent k"
    using same_wait_for [OF a] k2 by (simp_all add: same_def)
  have k4: "sys_getpid K k4 = sys_getpid K k" "sent k4 = sent k @ [(Process_pid sp, 15)]"
    using send_signal_sent [OF b] k3 own1 by (simp_all add: sig_term_def)
  have "sys_getpid K k5 = sys_getpid K k" "sent k5 = sent k @ [(Process_pid sp, 15)]"
    using same_wait_for [OF c] k4 by (simp_all add: same_def)
  with killed k3 k4 a fork_and_run_end(3) [OF run r1 r2 sp cp a b c]
  show "sent k' = sent k @ (if isl (fst (wait_for K cp wait_untraced (fr_kernel r2))) then [] else [(Process_pid sp, 15)]) @
      [(Process_pid cp, 9), (Process_pid sp, 9)]" by simp
qed

end

section \<open>Properties\<close>

text \<open>
  C28: \<open>fork_and_run\<close> cleans up on every path, whether it returns or an exception leaves it at any
  of its five calls. The caller's descriptor table is the one before the call, and the signals
  sent are these: nothing, if the service cannot be forked; \<open>SIGKILL\<close> to the service, if the client
  cannot be; otherwise, after \<open>SIGTERM\<close> to the service unless the wait for the client failed,
  \<open>SIGKILL\<close> to the client and then to the service, also to one that has been waited for.
\<close>

theorem fork_and_run_cleans_up:
  assumes K: "kill_log K fdt sent" and s: "s = None \<or> s = Some closed_pipe"
    and run: "fork_and_run K env service client s k = (r, k')"
  shows "fdt k' = fdt k \<and>
    (let r1 = posix_fork K env service stream_empty s k;
         r2 = posix_fork K env client stream_empty (fr_static r1) (fr_kernel r1) in
     sent k' = sent k @ (case fr_parent r1 of
         Inl _ \<Rightarrow> []
       | Inr sp \<Rightarrow> (case fr_parent r2 of
           Inl _ \<Rightarrow> [(Process_pid sp, 9)]
         | Inr cp \<Rightarrow> (if isl (fst (wait_for K cp wait_untraced (fr_kernel r2))) then [] else [(Process_pid sp, 15)]) @
             [(Process_pid cp, 9), (Process_pid sp, 9)])))"
proof -
  let ?r1 = "posix_fork K env service stream_empty s k"
  let ?r2 = "posix_fork K env client stream_empty (fr_static ?r1) (fr_kernel ?r1)"
  have "fd_kernel K fdt" using K by (simp add: kill_log_def proc_kernel_def)
  from fd_kernel.fork_and_run_fdt [OF this s run] have "fdt k' = fdt k" .
  moreover have "sent k' = sent k" if "fr_parent ?r1 = Inl e" for e
    using fork_and_run_end(1) [OF run refl refl that]
      kill_log.same_posix_fork(1) [OF K, of k env service stream_empty s]
    by (simp add: kill_log.same_def [OF K])
  moreover note kill_log.fork_and_run_sent [OF K run refl refl]
  ultimately show ?thesis by (auto simp: Let_def split: sum.split)
qed

definition exiting_main :: "int \<Rightarrow> ref_kernel \<Rightarrow> nat main_outcome \<times> ref_kernel" where
  "exiting_main code k = (Main_Returned (Exit_Status code), k)"

theorem fork_and_run_cleans_up_witness:
  "\<exists>r k'. fork_and_run ref_api sample_env (exiting_main 0) (exiting_main 0) None (ref_boot 8) = (r, k') \<and>
     rk_fdt k' = rk_fdt (ref_boot 8) \<and> rk_log k' = [(102, 9), (101, 9)]"
proof -
  let ?r1 = "posix_fork ref_api sample_env (exiting_main 0) stream_empty None (ref_boot 8)"
  let ?r2 = "posix_fork ref_api sample_env (exiting_main 0) stream_empty (fr_static ?r1) (fr_kernel ?r1)"
  obtain r k' where run: "fork_and_run ref_api sample_env (exiting_main 0) (exiting_main 0) None (ref_boot 8) = (r, k')"
    by fastforce
  have "\<not> isl (fr_parent ?r1)" "\<not> isl (fr_parent ?r2)" by code_simp+
  then obtain sp cp where p: "fr_parent ?r1 = Inr sp" "fr_parent ?r2 = Inr cp"
    by (cases "fr_parent ?r1"; cases "fr_parent ?r2") auto
  have "Process_pid (projr (fr_parent ?r1)) = 101" "Process_pid (projr (fr_parent ?r2)) = 102"
    "isl (fst (wait_for ref_api (projr (fr_parent ?r2)) wait_untraced (fr_kernel ?r2)))" by code_simp+
  with fork_and_run_cleans_up [OF rk.kill_log_axioms _ run] p run show ?thesis by (simp add: Let_def ref_boot_def)
qed

text \<open>
  C29: the two bits of the result say which child failed, the client's from the wait for the client
  and the service's from the wait that follows \<open>SIGTERM\<close> to it. A child counts as failed unless it
  exited with a code other than 1: one that was killed or stopped by a signal counts as failed, and
  a program that could not be started (code 255) or that reports any other error code does not.
\<close>

theorem fork_and_run_result_bits:
  assumes "fork_and_run K env service client s k = (Inr r, k')"
  shows "\<exists>sp cp cres k3 k4 sres k5.
    let r1 = posix_fork K env service stream_empty s k;
        r2 = posix_fork K env client stream_empty (fr_static r1) (fr_kernel r1);
        ended_well = (\<lambda>res. \<exists>code. code \<noteq> 1 \<and> res = \<lparr>wr_status = exited, wr_detail = If_Exited (Exit_Status code)\<rparr>) in
    fr_parent r1 = Inr sp \<and> fr_parent r2 = Inr cp \<and>
    wait_for K cp wait_untraced (fr_kernel r2) = (Inr cres, k3) \<and>
    send_signal_or_throw K sp sig_term k3 = (Inr (), k4) \<and>
    wait_for K sp wait_untraced k4 = (Inr sres, k5) \<and>
    (far_and r far_client_failed \<noteq> far_empty \<longleftrightarrow> \<not> ended_well cres) \<and>
    (far_and r far_service_failed \<noteq> far_empty \<longleftrightarrow> \<not> ended_well sres)"
proof -
  let ?r1 = "posix_fork K env service stream_empty s k"
  let ?r2 = "posix_fork K env client stream_empty (fr_static ?r1) (fr_kernel ?r1)"
  from assms obtain sp cp where p: "fr_parent ?r1 = Inr sp" "fr_parent ?r2 = Inr cp"
    by (auto simp: fork_and_run_def Let_def split: sum.splits)
  obtain ra k3 where a: "wait_for K cp wait_untraced (fr_kernel ?r2) = (ra, k3)" by fastforce
  obtain rb k4 where b: "send_signal_or_throw K sp sig_term k3 = (rb, k4)" by fastforce
  obtain rc k5 where c: "wait_for K sp wait_untraced k4 = (rc, k5)" by fastforce
  from assms p a b c obtain cres sres where ra: "ra = Inr cres" and rb: "rb = Inr ()" and rc: "rc = Inr sres"
    and r: "r = (let result = (if counts_as_failure cres then far_or far_empty far_client_failed else far_empty) in
      if counts_as_failure sres then far_or result far_service_failed else result)"
    by (cases ra; cases rb; cases rc) (auto simp: fork_and_run_def Let_def)
  have bits: "far_and r far_client_failed \<noteq> far_empty \<longleftrightarrow> counts_as_failure cres"
      "far_and r far_service_failed \<noteq> far_empty \<longleftrightarrow> counts_as_failure sres"
    using fr.isset_join fr.isset_none fr.flags_independent
    by (cases "counts_as_failure cres"; cases "counts_as_failure sres"; simp add: r far_defs)+
  note fail = wait_for_exited_detail [OF a [unfolded ra]] wait_for_exited_detail [OF c [unfolded rc]]
  show ?thesis
    unfolding Let_def using p a b c ra rb rc bits fail by blast
qed

theorem fork_and_run_result_bits_witness:
  "\<exists>r k'. fork_and_run (ref_api\<lparr>sys_waitpid := (\<lambda>pid opts k. (Inr (pid, encode_status (if pid = 101 then Ev_Signaled 6 False else Ev_Exited 255)), k))\<rparr>)
      sample_env (exiting_main 0) (exiting_main 0) None (ref_boot 8) = (Inr r, k') \<and>
     far_and r far_service_failed \<noteq> far_empty \<and> far_and r far_client_failed = far_empty"
proof -
  let ?K = "ref_api\<lparr>sys_waitpid := (\<lambda>pid opts k. (Inr (pid, encode_status (if pid = 101 then Ev_Signaled 6 False else Ev_Exited 255)), k))\<rparr>"
  let ?x = "fork_and_run ?K sample_env (exiting_main 0) (exiting_main 0) None (ref_boot 8)"
  let ?r1 = "posix_fork ?K sample_env (exiting_main 0) stream_empty None (ref_boot 8)"
  let ?r2 = "posix_fork ?K sample_env (exiting_main 0) stream_empty (fr_static ?r1) (fr_kernel ?r1)"
  have "\<not> isl (fst ?x)" by code_simp
  then obtain r k' where r: "?x = (Inr r, k')" by (cases ?x; cases "fst ?x") auto
  from fork_and_run_result_bits [OF r] obtain sp cp cres k3 k4 sres k5 where
    p: "fr_parent ?r1 = Inr sp" "fr_parent ?r2 = Inr cp"
    and w: "wait_for ?K cp wait_untraced (fr_kernel ?r2) = (Inr cres, k3)" "wait_for ?K sp wait_untraced k4 = (Inr sres, k5)"
    and bits: "far_and r far_client_failed \<noteq> far_empty \<longleftrightarrow>
        \<not> (\<exists>code. code \<noteq> 1 \<and> cres = \<lparr>wr_status = exited, wr_detail = If_Exited (Exit_Status code)\<rparr>)"
      "far_and r far_service_failed \<noteq> far_empty \<longleftrightarrow>
        \<not> (\<exists>code. code \<noteq> 1 \<and> sres = \<lparr>wr_status = exited, wr_detail = If_Exited (Exit_Status code)\<rparr>)"
    unfolding Let_def by blast
  have "Process_pid (projr (fr_parent ?r1)) = 101" "Process_pid (projr (fr_parent ?r2)) = 102" by code_simp+
  with p w have "sres = report (Ev_Signaled 6 False)" "cres = report (Ev_Exited 255)"
    by (auto simp: wait_for_def wait_decode_encode simp del: encode_status.simps report.simps)
  with bits r show ?thesis by (auto simp: wait_Result.defs)
qed

text \<open>
  A test run with \<open>TESTP\<close> or \<open>TESTP_F\<close> passes exactly if its child exits with code 0: a failed
  expectation, an exception, a crash or a stop of the child makes it fail.
\<close>

theorem testp_passes_iff_exit_0:
  assumes "fr_parent (posix_fork K env test stream_empty s k) = Inr c" and "Process_pid c \<noteq> 0"
    and "sys_waitpid K (Process_pid c) (uint wait_untraced) (fr_kernel (posix_fork K env test stream_empty s k)) =
      (Inr (Process_pid c, encode_status ev), k1)" and "event_ok ev"
  shows "fst (testp K env test s k) = Inr (ev = Ev_Exited 0) \<and>
    fst (testp_f K env test s k) = Inr (ev = Ev_Exited 0)"
proof -
  have "wait_for K c wait_untraced (fr_kernel (posix_fork K env test stream_empty s k)) = (Inr (report ev), k1)"
    using assms(2-4) by (simp add: wait_for_def wait_decode_encode del: encode_status.simps)
  moreover have "testp_expectations (report ev) \<longleftrightarrow> ev = Ev_Exited 0"
    by (cases ev) (auto simp: testp_expectations_def exit_success_def unsigned_eq_0_iff)
  ultimately show ?thesis using assms(1) by (simp add: testp_def testp_f_def Let_def)
qed

theorem testp_passes_iff_exit_0_witness:
  "fst (testp (ref_api\<lparr>sys_waitpid := (\<lambda>pid opts k. (Inr (pid, encode_status (Ev_Signaled 11 True)), k))\<rparr>)
     sample_env (exiting_main 0) None (ref_boot 8)) = Inr False"
proof -
  let ?K = "ref_api\<lparr>sys_waitpid := (\<lambda>pid opts k. (Inr (pid, encode_status (Ev_Signaled 11 True)), k))\<rparr>"
  let ?r = "posix_fork ?K sample_env (exiting_main 0) stream_empty None (ref_boot 8)"
  have "\<not> isl (fr_parent ?r)" and pid: "Process_pid (projr (fr_parent ?r)) = 101" by code_simp+
  then obtain c where c: "fr_parent ?r = Inr c" by (cases "fr_parent ?r") auto
  with pid have "Process_pid c \<noteq> 0" by simp
  from testp_passes_iff_exit_0 [OF c this, of "Ev_Signaled 11 True"] show ?thesis by simp
qed

end
