(* ===== verification/Spec2Isabelle.thy ===== *)
theory Spec2Isabelle
  imports Env_Lock Standard_Stream Exec Observer_Handles Trap_Observer Observed_Fork Observer_Lifetime Observer_Reentry Proc_Stat Cross_Process_Sync Fork_And_Run
begin

text \<open>
  A verification development for \<open>process-cpp\<close>, a C++ library for creating, observing and
  signalling POSIX processes.

  \<^bold>\<open>The program.\<close> A \<open>Process\<close> or \<open>ProcessGroup\<close> is something that signals can be sent to
  (\<open>Signalable\<close>). \<open>fork\<close> runs a function in a child process, \<open>exec\<close> a program by way of \<open>fork\<close>; both
  return a \<open>ChildProcess\<close>, which owns the pipes to the child's redirected standard streams, can
  be waited for, and kills the child when its last handle goes. A \<open>SignalTrap\<close> blocks signals
  and relays them from a signalfd; a \<open>DeathObserver\<close> connected to it reaps dead children and
  reports those it observes. \<open>this_process\<close> gives access to the environment. The files under
  \<open>linux/proc\<close> read and write process information in \<open>/proc\<close>; \<open>testing\<close> has a cross-process
  synchronisation object and a function that runs a service and a client in two children.
  An internal part prints backtraces.

  \<^bold>\<open>How it is modelled.\<close> Operations are functions with explicit state. The operating system is
  not part of the repository: it is a record of calls over an abstract state (theory
  \<open>Posix_Api\<close>), and what the code relies on is stated in locales over that record, taken from
  the manual pages: \<open>fd_kernel\<close> (descriptor tables: pipe, dup, dup2, close, fork), \<open>fd_limit\<close> (how
  many descriptors may be open), \<open>proc_kernel\<close> (identities: getpid, kill), \<open>kill_log\<close> (which signals were
  sent), \<open>wait_kernel\<close> and \<open>wait_one_kernel\<close> (reaping with \<open>WNOHANG\<close>, any child or one). Theory \<open>Ref_Kernel\<close> has an executable
  kernel that satisfies all of them; the witnesses run on it. Exceptions are values
  (\<open>exn + 'a\<close>), destructors run where C++ runs them, also when an exception leaves a
  function, and machine integers have their width. Every \<open>std::mutex\<close> of the sources is held
  from the beginning of a function, or of a loop round, to its end; the theories of the single
  operations make those single steps, and \<open>Env_Lock\<close> and \<open>Observer_Race\<close> take them apart again and show
  what interleaving does.

  \<^bold>\<open>The theories\<close>, in the order of their dependencies, with the sources they model:
  \<^item> \<open>Prelude\<close>: exceptions, \<open>std::string\<close> searching and cutting with 64-bit sizes, C strings,
    decimal numerals.
  \<^item> \<open>Posix_Api\<close>, \<open>Ref_Kernel\<close>: the system calls, their laws, the macros of \<open>sys/wait.h\<close>, and the
    executable kernel.
  \<^item> \<open>Transition_Systems\<close>: the interfaces of step relations with an invariant, and of those that
    end; \<open>Env_Lock\<close>, \<open>Trap_System\<close>, \<open>Observer_Race\<close>, \<open>Observer_Liveness\<close>, \<open>Trap_Observer\<close>, \<open>Observer_Reentry\<close>
    and \<open>Observer_Lifetime\<close> instantiate them.
  \<^item> \<open>Bit_Flags\<close>: the interface of flag enumerations; \<open>Standard_Stream\<close>, \<open>Wait\<close> and \<open>Fork_And_Run\<close>
    instantiate it.
  \<^item> \<open>Signals\<close> (\<open>signal.h\<close>, \<open>signalable.cpp\<close>) and \<open>Process_Model\<close> (\<open>process.cpp\<close>, \<open>process_group.cpp\<close>,
    the accessors of \<open>this_process.cpp\<close>): what is signalled, checked against kill(2).
  \<^item> \<open>Env\<close> (\<open>this_process.cpp\<close>): the environment functions on the \<open>environ\<close> array; how far
    sequences of them do what \<open>this_process.h\<close> documents, and that iteration agrees with lookup.
  \<^item> \<open>Env_Lock\<close> (\<open>this_process.cpp\<close>, \<open>env_guard\<close>): threads calling the environment functions; every
    interleaving is equivalent to calls one after another, all calls return, except when a
    functor given to \<open>for_each\<close> calls an environment function.
  \<^item> \<open>Wait\<close> (\<open>wait.h\<close>, \<open>wait.cpp\<close>, \<open>exit.h\<close>, \<open>ChildProcess::wait_for\<close>): status words are decoded as
    the kernel encodes them, and the result's union is well-typed whatever the kernel answers.
  \<^item> \<open>Pipe\<close> and \<open>Child_Process\<close> (\<open>child_process.cpp\<close>): ownership of descriptors, through the
    interface \<open>fd_owner\<close>, the wiring of the streams, and who is killed by the destructor.
  \<^item> \<open>Handles\<close> (\<open>child_process.h\<close>): the reference count shared by copies of a \<open>ChildProcess\<close> (a
    \<open>std::shared_ptr\<close>) and what its destructor does with the last of them; the ground for \<open>Observer_Handles\<close>.
  \<^item> \<open>Backtrace\<close> (\<open>backtrace.cpp\<close>, the printing in \<open>fork.cpp\<close>): symbols and the stack walk.
  \<^item> \<open>Fork\<close> (\<open>fork.cpp\<close>) and \<open>Exec\<close> (\<open>exec.cpp\<close>): both continuations of a call, the descriptor tables
    of parent and child, how the child ends, the arrays for execve.
  \<^item> \<open>Fork_Siblings\<close> (\<open>fork.cpp\<close>): two children of one process; what the second inherits from the first.
  \<^item> \<open>Signal_Trap\<close> (\<open>signal.cpp\<close>) and \<open>Death_Observer\<close> (\<open>child_process.cpp\<close>): masks, the relay loop,
    the reaping loop and its termination, histories of an observer, the interleavings of its
    creation.
  \<^item> \<open>Trap_System\<close> (\<open>signal.cpp\<close>): arrivals, \<open>stop\<close> and the turns of \<open>run\<close> interleaved; no signal is lost
    or invented, and \<open>stop\<close> ends \<open>run\<close>.
  \<^item> \<open>Observer_Race\<close> (\<open>child_process.cpp\<close>): \<open>add\<close> and the handler interleaved, with deaths at any time;
    no death of an observed child is lost, unless a process number is reused at the wrong moment.
    \<open>Observer_Liveness\<close>: the same system comes to rest, with every death reported.
  \<^item> \<open>Trap_Observer\<close> (\<open>signal.cpp\<close>, \<open>child_process.cpp\<close>): the trap and the observer connected to it, with
    children that die, callers of \<open>add\<close> and \<open>stop\<close>; the whole refines both parts, and leads from a death
    to its report.
  \<^item> \<open>Observer_Reentry\<close> (\<open>child_process.cpp\<close>): emissions that take time; a subscriber that calls the
    observer waits for ever.
  \<^item> \<open>Observed_Fork\<close>: \<open>fork\<close> and the observer composed; a forked child that is added is reported once.
  \<^item> \<open>Observer_Handles\<close> (\<open>child_process.cpp\<close>): the observer's map as an owner of handles; it implements the
    observer of \<open>Death_Observer\<close>, keeps observed children from being killed by dropped handles, and
    kills by number whom it has reaped.
  \<^item> \<open>Observer_Lifetime\<close> (\<open>child_process.cpp\<close>): the order in which the observer's members are built and
    destroyed, against the slot that the trap's thread may call.
  \<^item> \<open>Iostream\<close>, \<open>Proc_Fs\<close> and \<open>Proc_Stat\<close> (\<open>linux/proc/process\<close>): formatted extraction, the
    out-of-memory settings behind the interface \<open>oom_files\<close>, in which writing one file changes the
    other, and the 44 fields of \<open>stat\<close> in the formats of proc(5).
  \<^item> \<open>Cross_Process_Sync\<close> and \<open>Fork_And_Run\<close> (\<open>core/testing\<close>): transfer of signals through a pipe
    behind the interface \<open>pipe_io\<close>, and \<open>fork_and_run\<close>: the
    descriptors and signals of its clean-up on every path, and the meaning of its result.
  \<^item> this theory: properties that span components.

  \<^bold>\<open>Loops.\<close> Loops over data are structural recursions. \<open>on_sig_child\<close>, which runs until the kernel
  has no dead child left, is a \<open>partial_function\<close> into \<open>option\<close>; that it returns is proved from
  the laws of waitpid, by the number of dead children. \<open>SignalTrap::run\<close> waits for events
  without end; it is a function of the list of answers it gets, and a list that ends before
  the run does gives the value \<open>Run_Waiting\<close>. There is no fuel.

  \<^bold>\<open>Behaviour of the code that may surprise\<close> is stated as it is: for instance that \<open>set\<close> does not
  overwrite, that \<open>vfork\<close> loses the streams, that a destroyed trap leaves its signals blocked,
  that a blank in a program's name derails the reading of \<open>stat\<close>, that a later child keeps
  the input pipe of an earlier one open, that the slot of an observer outlives the signal it emits,
  or that the handle of a reaped child kills whoever has got its number since.

  \<^bold>\<open>Not modelled.\<close> Memory exhaustion, except in \<open>setenv\<close>; the buffers of the C++ streams over the
  pipes, which are identified with their descriptors; a mutex that is locked by another thread at the
  moment of \<open>fork\<close> and stays locked in the child; compiler attributes, tests, build files and
  packaging. What subscribers of \<open>child_died\<close> do to the kernel, to handles and to the observer is a
  parameter of the theories that deal with each; there is no model of a subscriber that does all.
  What is left of the sources outside the map are declarations, comments, includes and the accessors
  that return a member or a global stream.
\<close>

section \<open>Properties that span components\<close>

text \<open>
  C7: the trap serves the observer. Take a trap constructed for a list of signals with \<open>SIGCHLD\<close>
  among them: an observer can be created with it, and when a run of the trap reads at least
  one \<open>SIGCHLD\<close> before it is stopped, however many other signals, interruptions and wake-ups
  there are, delivering what it relays to the observer ends, reaps every dead child of the
  process group, and stops observing exactly the observed ones among them, each reported once.
\<close>

theorem trap_serves_observer:
  assumes "wait_kernel K dead" and "\<forall>c k. dead (react c k) = dead k" and "observer_ok ob"
    and "SignalTrap_ctor sc ss eventfd cur = (Inr t, cur')" and "sig_chld \<in> set ss"
    and "length buf = signal_info_buffer_size" and "\<forall>r \<in> set rs. benign r \<and> \<not> wakes r"
    and "benign wake" and "wakes wake" and "17 \<in> set (concat (map infos_of (rs @ [wake])))"
  shows "fst (create_once_with_signal_trap t False) = Inr \<lparr>children = Map.empty, died = []\<rparr> \<and>
    (\<exists>raised t' ob' k' ds. trap_run K t (Inr fd) buf (rs @ wake # unread) k0 = (Inr Run_Stopped, raised, t', snd (sys_close K fd k0)) \<and>
       deliver K react raised ob k = Some (ob', k') \<and> dead k' = Map.empty \<and>
       children ob' = children ob |` (- dom (dead k)) \<and> died ob' = died ob @ ds \<and>
       distinct (map Process_pid ds) \<and> set ds = {c. \<exists>pid \<in> dom (dead k). children ob pid = Some c})"
proof -
  have st: "state t = not_running" using assms(4) by (auto simp: run_iff)
  have has: "trap_has t sig_chld" using trap_has_ctor [OF assms(4)] assms(5) by simp
  let ?raised = "filter (trap_has t) (map to_signal (concat (map infos_of (rs @ [wake]))))"
  have run: "trap_run K t (Inr fd) buf (rs @ wake # unread) k0 =
      (Inr Run_Stopped, ?raised, t\<lparr>state := not_running\<rparr>, snd (sys_close K fd k0))"
    using run_loop_benign [OF assms(7,6,8,9), of "t\<lparr>state := running\<rparr>" unread] st by (simp add: trap_run_def)
  have "to_signal 17 = sig_chld" by (simp add: to_signal_def sig_chld_def)
  with assms(10) have "sig_chld \<in> set (map to_signal (concat (map infos_of (rs @ [wake]))))"
    by (metis image_eqI list.set_map)
  with has have chld: "sig_chld \<in> set ?raised" by (simp only: set_filter mem_Collect_eq simp_thms)
  from wait_kernel.deliver_spec [OF assms(1) _ assms(3), of react ?raised k] assms(2) chld
  obtain ob' k' ds where "deliver K react ?raised ob k = Some (ob', k')" "dead k' = Map.empty"
    "reported ob ob' (dom (dead k)) ds" by (auto simp del: filter_filter)
  with run has show ?thesis
    by (auto simp: create_once_with_signal_trap_def DeathObserverImpl_ctor_def reported_def)
qed

theorem trap_serves_observer_witness:
  "\<exists>t cur' ob' k'. SignalTrap_ctor Scope_process [sig_term, sig_chld] (Inr 3) 0 = (Inr t, cur') \<and>
     deliver ref_api (\<lambda>c k. k) (fst (snd (trap_run ref_api t (Inr 4) [0, 0, 0, 0, 0]
         [Poll_Ready (Some (Read_Infos [15, 17])) False, Poll_Ready None True] two_dead)))
       \<lparr>children = [102 \<mapsto> sample_child 102, 103 \<mapsto> sample_child 103], died = []\<rparr> two_dead = Some (ob', k') \<and>
     children ob' = [102 \<mapsto> sample_child 102] \<and> set (died ob') = {sample_child 103}"
proof -
  let ?ob = "\<lparr>children = [102 \<mapsto> sample_child 102, 103 \<mapsto> sample_child 103], died = []\<rparr>"
  let ?r = "Poll_Ready (Some (Read_Infos [15, 17])) False" and ?wake = "Poll_Ready None True"
  obtain t cur' where t: "SignalTrap_ctor Scope_process [sig_term, sig_chld] (Inr 3) 0 = (Inr t, cur')"
    by (simp add: SignalTrap_ctor_iff)
  have ok: "observer_ok ?ob" by (simp add: observer_ok_def)
  have "\<exists>raised t' ob' k' ds. trap_run ref_api t (Inr 4) [0, 0, 0, 0, 0] ([?r] @ ?wake # []) two_dead =
         (Inr Run_Stopped, raised, t', snd (sys_close ref_api 4 two_dead)) \<and>
       deliver ref_api (\<lambda>c k. k) raised ?ob two_dead = Some (ob', k') \<and> rk_dead k' = Map.empty \<and>
       children ob' = children ?ob |` (- dom (rk_dead two_dead)) \<and> died ob' = died ?ob @ ds \<and>
       distinct (map Process_pid ds) \<and> set ds = {c. \<exists>pid \<in> dom (rk_dead two_dead). children ?ob pid = Some c}"
    by (rule conjunct2 [OF trap_serves_observer [OF rk.wait_kernel_axioms _ ok t]])
      (simp_all add: signal_info_buffer_size_def)
  then obtain raised t' ob' k' where run: "fst (snd (trap_run ref_api t (Inr 4) [0, 0, 0, 0, 0] [?r, ?wake] two_dead)) = raised"
    and dl: "deliver ref_api (\<lambda>c k. k) raised ?ob two_dead = Some (ob', k')"
    and ch: "children ob' = children ?ob |` (- {101, 103})"
    and ds: "set (died ob') = {c. \<exists>pid \<in> {101, 103}. children ?ob pid = Some c}"
    by (auto simp: two_dead_dom)
  have "children ob' = [102 \<mapsto> sample_child 102]" and "set (died ob') = {sample_child 103}"
    using ch ds by auto
  with t run dl show ?thesis by auto
qed

end
